(* ===== verification/Prelude.thy ===== *)
theory Prelude
  imports Complex_Main "HOL-Library.Word" "HOL-Library.Multiset" "HOL-Library.AList" "HOL-Library.Sublist"
begin

text \<open>
  Shared vocabulary of the development: the machine integers of the C++ code, the exceptions a
  call can end with, the generic facts on lists, association lists and words that the component
  theories use, and forward simulations between step relations.

  Conventions. \<open>uint64_t\<close> identifiers are \<open>64 word\<close>, \<open>uint32_t\<close> values \<open>32 word\<close>, bytes
  \<open>8 word\<close>. A \<open>size_t\<close> that counts elements of a container is a \<open>nat\<close>: a
  \<open>std::vector<uint32_t>\<close> has at most \<open>2^61\<close> elements, so sums of a few such sizes stay below
  \<open>2^64\<close>; wherever the code does arithmetic on an arbitrary \<open>size_t\<close> the reduction
  modulo \<open>2^64\<close> is written out (\<open>size_add\<close>, \<open>size_sub\<close>). A
  \<open>std::unordered_map\<close> that the code iterates over is an association list with distinct keys,
  one that it only looks up is a map. A call that can throw returns \<open>cpp_exn + 'a\<close>, with
  \<open>Inl\<close> the exception; a call whose loop may spin for ever returns an \<open>option\<close>, with
  \<open>None\<close> for not returning.
\<close>

unbundle bit_operations_syntax

type_synonym u8 = "8 word"
type_synonym u32 = "32 word"
type_synonym u64 = "64 word"

named_theorems model_defs \<open>definitions that the component proofs unfold\<close>
named_theorems inv_intros \<open>preservation lemmas of the component invariants\<close>
named_theorems eval_simps \<open>equations that evaluate the model on concrete values\<close>
named_theorems frame_simps \<open>what an operation leaves unchanged\<close>

section \<open>Exceptions\<close>

text \<open>The exception classes the code throws or lets through, with the text they carry; \<open>Spin\<close> is a loop that
  never leaves, \<open>UndefinedBehaviour\<close> an access that C++ does not define.\<close>

datatype cpp_exn =
    LogicError string
  | RuntimeError string
  | InvalidArgument string
  | OutOfRange string
  | JsonError string
  | PeerClosedError
  | Spin
  | UndefinedBehaviour

definition of_spin :: "'a option \<Rightarrow> cpp_exn + 'a" where
  "of_spin r = (case r of None \<Rightarrow> Inl Spin | Some x \<Rightarrow> Inr x)"

lemma of_spin_simps [simp]: "of_spin None = Inl Spin" "of_spin (Some x) = Inr x"
  by (simp_all add: of_spin_def)

section \<open>size_t arithmetic\<close>

definition size_add :: "nat \<Rightarrow> nat \<Rightarrow> nat" where
  "size_add a b = (a + b) mod 2 ^ 64"

definition size_sub :: "nat \<Rightarrow> nat \<Rightarrow> nat" where
  "size_sub a b = (a + 2 ^ 64 - b mod 2 ^ 64) mod 2 ^ 64"

lemma size_add_exact [simp]: "a + b < 2 ^ 64 \<Longrightarrow> size_add a b = a + b"
  by (simp add: size_add_def)

lemma size_sub_exact [simp]: "b \<le> a \<Longrightarrow> a < 2 ^ 64 \<Longrightarrow> size_sub a b = a - b"
proof -
  assume "b \<le> a" "a < 2 ^ 64"
  then have "a + 2 ^ 64 - b mod 2 ^ 64 = (a - b) + 2 ^ 64" by simp
  then show ?thesis using \<open>a < 2 ^ 64\<close> by (simp add: size_sub_def)
qed

declare size_add_def [eval_simps] size_sub_def [eval_simps] Let_def [eval_simps]

lemma unat_u64_of_nat [simp]: "n < 2 ^ 64 \<Longrightarrow> unat (word_of_nat n :: u64) = n"
  by (simp add: unat_of_nat)

lemma unat_u32_of_nat [simp]: "n < 2 ^ 32 \<Longrightarrow> unat (word_of_nat n :: u32) = n"
  by (simp add: unat_of_nat)

section \<open>Lists\<close>

declare map_of_eq_Some_iff [simp del] Some_eq_map_of_iff [simp del]

lemma count_concat_map_pos:
  "x \<in> set (f y) \<Longrightarrow> y \<in> set ys \<Longrightarrow> x \<in> set (concat (map f ys))"
  by auto

lemma mset_map_snd_AList_update:
  assumes "distinct (map fst al)" "map_of al k = Some v"
  shows "mset (concat (map snd (AList.update k w al))) + mset v = mset (concat (map snd al)) + mset w"
  using assms
proof (induction al)
  case Nil
  then show ?case by simp
next
  case (Cons p al)
  obtain k' v' where p: "p = (k', v')" by (cases p)
  show ?case
  proof (cases "k' = k")
    case True
    with Cons.prems p have "v' = v" "k \<notin> set (map fst al)" by auto
    with True p show ?thesis by (simp add: ac_simps)
  next
    case False
    with Cons p show ?thesis by (simp add: ac_simps)
  qed
qed

lemma mset_map_snd_AList_insert:
  "map_of al k = None \<Longrightarrow>
     mset (concat (map snd (AList.update k w al))) = mset (concat (map snd al)) + mset w"
  by (induction al) (auto simp: ac_simps split: if_splits)

lemma mset_map_snd_AList_delete:
  assumes "distinct (map fst al)" "map_of al k = Some v"
  shows "mset (concat (map snd (AList.delete k al))) + mset v = mset (concat (map snd al))"
  using assms
proof (induction al)
  case Nil
  then show ?case by simp
next
  case (Cons p al)
  obtain k' v' where p: "p = (k', v')" by (cases p)
  show ?case
  proof (cases "k' = k")
    case True
    with Cons.prems p have "v' = v" "k \<notin> fst ` set al" by auto
    with True p show ?thesis by (simp add: delete_simps delete_id)
  next
    case False
    with Cons p show ?thesis by (simp add: delete_simps ac_simps)
  qed
qed

lemma subseq_set: "subseq xs ys \<Longrightarrow> set xs \<subseteq> set ys"
  by (induction rule: list_emb.induct) auto

lemma subseq_distinct: "subseq xs ys \<Longrightarrow> distinct ys \<Longrightarrow> distinct xs"
  by (induction rule: list_emb.induct) (auto dest: subseq_set)

section \<open>Simulation\<close>

text \<open>A system refines another when every step is matched by steps of the other, possibly none, between related
  states; then so is every run.\<close>

locale forward_simulation =
  fixes init_c :: "'c \<Rightarrow> bool" and step_c :: "'c \<Rightarrow> 'c \<Rightarrow> bool"
    and init_a :: "'a \<Rightarrow> bool" and step_a :: "'a \<Rightarrow> 'a \<Rightarrow> bool"
    and rel :: "'c \<Rightarrow> 'a \<Rightarrow> bool"
  assumes init_match: "init_c c \<Longrightarrow> \<exists>a. init_a a \<and> rel c a"
    and step_match: "rel c a \<Longrightarrow> step_c c c' \<Longrightarrow> \<exists>a'. step_a\<^sup>*\<^sup>* a a' \<and> rel c' a'"
begin

lemma run_match: "step_c\<^sup>*\<^sup>* c c' \<Longrightarrow> rel c a \<Longrightarrow> \<exists>a'. step_a\<^sup>*\<^sup>* a a' \<and> rel c' a'"
proof (induction rule: rtranclp_induct)
  case (step c' c'')
  then obtain a' where a': "step_a\<^sup>*\<^sup>* a a'" "rel c' a'" by blast
  from step_match [OF a'(2) step.hyps(2)] a'(1) show ?case by (meson rtranclp_trans)
qed blast

lemma reach_match:
  assumes "init_c c" "step_c\<^sup>*\<^sup>* c c'"
  shows "\<exists>a a'. init_a a \<and> step_a\<^sup>*\<^sup>* a a' \<and> rel c' a'"
  using init_match [OF assms(1)] run_match [OF assms(2)] by blast

end

end
