(* ===== verification/Ring_Buffer.thy ===== *)
theory Ring_Buffer
  imports Prelude
begin

text \<open>
  The bounded ring buffer (\<open>src/core/spmc_ring_buffer.hpp\<close>): its data, the two operations as one
  caller runs them to completion, and the bounded-queue interface its clients rely on. The interleaving
  of several producers and consumers is in \<open>Ring_Concurrent\<close>.

  The template parameter \<open>Capacity\<close> is the number of cells, a power of two between 2 and \<open>2^62\<close>.
  The cursors and the cells' turn counters are 64-bit words and wrap around; the signed difference
  the code takes is the two's complement one.
\<close>

section \<open>Model\<close>

record 'a Cell =
  sequence :: u64
  data :: 'a

record 'a LockFreeRingBuffer =
  enqueue_pos :: u64
  dequeue_pos :: u64
  cells :: "'a Cell list"

text \<open>\<open>d\<close> is the default-constructed \<open>T\<close> the cells start with.\<close>

definition new_LockFreeRingBuffer :: "nat \<Rightarrow> 'a \<Rightarrow> 'a LockFreeRingBuffer" where
  "new_LockFreeRingBuffer Capacity d =
     \<lparr>enqueue_pos = 0, dequeue_pos = 0,
      cells = map (\<lambda>i. \<lparr>sequence = word_of_nat i, data = d\<rparr>) [0..<Capacity]\<rparr>"

definition capacity :: "'a LockFreeRingBuffer \<Rightarrow> nat" where
  "capacity rb = length (cells rb)"

definition kMask :: "'a LockFreeRingBuffer \<Rightarrow> u64" where
  "kMask rb = word_of_nat (capacity rb) - 1"

definition cell_index :: "'a LockFreeRingBuffer \<Rightarrow> u64 \<Rightarrow> nat" where
  "cell_index rb pos = unat (pos AND kMask rb)"

definition turn_diff :: "u64 \<Rightarrow> u64 \<Rightarrow> int" where
  "turn_diff seq pos = sint (seq - pos)"

definition set_data :: "'a LockFreeRingBuffer \<Rightarrow> nat \<Rightarrow> 'a \<Rightarrow> 'a LockFreeRingBuffer" where
  "set_data rb i x = rb\<lparr>cells := (cells rb)[i := (cells rb ! i)\<lparr>data := x\<rparr>]\<rparr>"

definition set_sequence :: "'a LockFreeRingBuffer \<Rightarrow> nat \<Rightarrow> u64 \<Rightarrow> 'a LockFreeRingBuffer" where
  "set_sequence rb i n = rb\<lparr>cells := (cells rb)[i := (cells rb ! i)\<lparr>sequence := n\<rparr>]\<rparr>"

text \<open>The retry loop of \<open>try_push\<close> from a loaded \<open>pos\<close>. A failed compare-exchange stores the current
  cursor in \<open>pos\<close>. With no other thread running, a positive difference repeats for ever.\<close>

partial_function (option) try_push_loop ::
    "'a LockFreeRingBuffer \<Rightarrow> u64 \<Rightarrow> 'a \<Rightarrow> (bool \<times> 'a LockFreeRingBuffer) option" where
  "try_push_loop rb pos item =
     (let i = cell_index rb pos;
          diff = turn_diff (sequence (cells rb ! i)) pos
      in if diff = 0
         then (if enqueue_pos rb = pos
               then Some (True, set_sequence (set_data (rb\<lparr>enqueue_pos := pos + 1\<rparr>) i item) i (pos + 1))
               else try_push_loop rb (enqueue_pos rb) item)
         else if diff < 0 then Some (False, rb)
         else try_push_loop rb (enqueue_pos rb) item)"

definition try_push :: "'a LockFreeRingBuffer \<Rightarrow> 'a \<Rightarrow> (bool \<times> 'a LockFreeRingBuffer) option" where
  "try_push rb item = try_push_loop rb (enqueue_pos rb) item"

text \<open>\<open>try_pop\<close> hands the item out through a reference: \<open>None\<close> for \<open>false\<close>, \<open>Some x\<close> for \<open>true\<close> with
  \<open>out = x\<close>. The moved-from cell keeps its value; it is overwritten before it is read again.\<close>

partial_function (option) try_pop_loop ::
    "'a LockFreeRingBuffer \<Rightarrow> u64 \<Rightarrow> ('a option \<times> 'a LockFreeRingBuffer) option" where
  "try_pop_loop rb pos =
     (let i = cell_index rb pos;
          diff = turn_diff (sequence (cells rb ! i)) (pos + 1)
      in if diff = 0
         then (if dequeue_pos rb = pos
               then Some (Some (data (cells rb ! i)),
                          set_sequence (rb\<lparr>dequeue_pos := pos + 1\<rparr>) i (pos + kMask rb + 1))
               else try_pop_loop rb (dequeue_pos rb))
         else if diff < 0 then Some (None, rb)
         else try_pop_loop rb (dequeue_pos rb))"

definition try_pop :: "'a LockFreeRingBuffer \<Rightarrow> ('a option \<times> 'a LockFreeRingBuffer) option" where
  "try_pop rb = try_pop_loop rb (dequeue_pos rb)"

definition size_approx :: "'a LockFreeRingBuffer \<Rightarrow> u64" where
  "size_approx rb = (if enqueue_pos rb \<ge> dequeue_pos rb then enqueue_pos rb - dequeue_pos rb else 0)"

section \<open>The interface: a bounded FIFO queue\<close>

text \<open>What a client of the queue may assume: a push appends and fails only on a full queue, a pop takes
  the oldest item and fails only on an empty one, and both always return.\<close>

locale bounded_queue =
  fixes push :: "'q \<Rightarrow> 'a \<Rightarrow> (bool \<times> 'q) option"
    and pop :: "'q \<Rightarrow> ('a option \<times> 'q) option"
    and contents :: "'q \<Rightarrow> 'a list"
    and cap :: "'q \<Rightarrow> nat"
    and invar :: "'q \<Rightarrow> bool"
  assumes bounded: "invar q \<Longrightarrow> length (contents q) \<le> cap q"
    and push_full: "invar q \<Longrightarrow> length (contents q) = cap q \<Longrightarrow> push q x = Some (False, q)"
    and push_room: "invar q \<Longrightarrow> length (contents q) < cap q \<Longrightarrow>
          \<exists>q'. push q x = Some (True, q') \<and> invar q' \<and> contents q' = contents q @ [x] \<and> cap q' = cap q"
    and pop_empty: "invar q \<Longrightarrow> contents q = [] \<Longrightarrow> pop q = Some (None, q)"
    and pop_item: "invar q \<Longrightarrow> contents q = x # xs \<Longrightarrow>
          \<exists>q'. pop q = Some (Some x, q') \<and> invar q' \<and> contents q' = xs \<and> cap q' = cap q"
begin

lemma push_result:
  assumes "invar q"
  obtains ok q' where "push q x = Some (ok, q')" "ok \<longleftrightarrow> length (contents q) < cap q" "invar q'"
    "contents q' = (if ok then contents q @ [x] else contents q)" "cap q' = cap q"
proof (cases "length (contents q) < cap q")
  case True
  with push_room [OF assms True, of x] that show ?thesis by (metis (full_types))
next
  case False
  with bounded [OF assms] have "push q x = Some (False, q)" by (intro push_full assms) simp
  with False assms that show ?thesis by (metis (full_types))
qed

text \<open>A loop that pops until the queue is empty returns, and has consumed every item in order.\<close>

lemma drain_all:
  assumes loop: "\<And>q acc. loop q acc = (case pop q of None \<Rightarrow> None | Some (r, q') \<Rightarrow>
      (case r of None \<Rightarrow> Some (acc, q') | Some x \<Rightarrow> loop q' (f acc x)))"
    and "invar q"
  shows "\<exists>q'. loop q acc = Some (foldl f acc (contents q), q') \<and> invar q' \<and> contents q' = [] \<and> cap q' = cap q"
  using \<open>invar q\<close>
proof (induction "contents q" arbitrary: q acc)
  case Nil
  then show ?case by (subst loop) (simp add: pop_empty)
next
  case (Cons x xs)
  obtain q' where q': "pop q = Some (Some x, q')" "invar q'" "contents q' = xs" "cap q' = cap q"
    using pop_item [OF Cons.prems Cons.hyps(2) [symmetric]] by blast
  have "loop q acc = loop q' (f acc x)" by (subst loop) (simp add: q')
  with Cons.hyps(1) [of q' "f acc x"] q' Cons.hyps(2) [symmetric] show ?case by auto
qed

text \<open>A loop that pops at most \<open>n\<close> items takes the oldest ones and leaves the rest.\<close>

lemma drain_upto:
  assumes zero: "\<And>q acc. loop 0 q acc = Some (acc, q)"
    and suc: "\<And>n q acc. loop (Suc n) q acc = (case pop q of None \<Rightarrow> None | Some (r, q') \<Rightarrow>
      (case r of None \<Rightarrow> Some (acc, q') | Some x \<Rightarrow> loop n q' (f acc x)))"
    and "invar q"
  shows "\<exists>q'. loop n q acc = Some (foldl f acc (take n (contents q)), q') \<and> invar q'
      \<and> contents q' = drop n (contents q) \<and> cap q' = cap q"
  using \<open>invar q\<close>
proof (induction n arbitrary: q acc)
  case 0
  then show ?case by (simp add: zero)
next
  case (Suc n)
  show ?case
  proof (cases "contents q")
    case Nil
    with Suc.prems show ?thesis by (simp add: suc pop_empty)
  next
    case (Cons x xs)
    obtain q' where q': "pop q = Some (Some x, q')" "invar q'" "contents q' = xs" "cap q' = cap q"
      using pop_item [OF Suc.prems Cons] by blast
    with Suc.IH [of q' "f acc x"] Cons show ?thesis by (simp add: suc)
  qed
qed

end


section \<open>Cell addressing\<close>

definition pow2_capacity :: "'a LockFreeRingBuffer \<Rightarrow> bool" where
  "pow2_capacity rb \<longleftrightarrow> (\<exists>k. 1 \<le> k \<and> k \<le> 62 \<and> capacity rb = 2 ^ k)"

lemma pow2_capacity_bounds:
  assumes "pow2_capacity rb"
  shows "2 \<le> capacity rb" "capacity rb \<le> 2 ^ 62" "capacity rb dvd 2 ^ 64"
proof -
  obtain k where k: "1 \<le> k" "k \<le> 62" "capacity rb = 2 ^ k"
    using assms by (auto simp: pow2_capacity_def)
  show "2 \<le> capacity rb" using k power_increasing [of 1 k "2::nat"] by simp
  show "capacity rb \<le> 2 ^ 62" unfolding k(3) using k(2) by (intro power_increasing) auto
  show "capacity rb dvd 2 ^ 64" unfolding k(3) using k(2) by (intro le_imp_power_dvd) simp
qed

lemma cell_index_mod:
  assumes "pow2_capacity rb"
  shows "cell_index rb pos = unat pos mod capacity rb"
proof -
  obtain k where k: "k \<le> 62" "capacity rb = 2 ^ k" using assms by (auto simp: pow2_capacity_def)
  have "kMask rb = mask k" using k by (simp add: kMask_def mask_eq_exp_minus_1)
  then have "pos AND kMask rb = take_bit k pos" by (simp add: take_bit_eq_mask)
  moreover have "unat (take_bit k pos) = unat pos mod 2 ^ k"
    by (simp add: unsigned_take_bit_eq flip: take_bit_nat_def)
  ultimately show ?thesis using k by (simp add: cell_index_def)
qed

lemma cell_index_less: "pow2_capacity rb \<Longrightarrow> cell_index rb pos < capacity rb"
  using pow2_capacity_bounds by (fastforce simp: cell_index_mod)

lemma cell_index_add:
  assumes "pow2_capacity rb"
  shows "cell_index rb (pos + word_of_nat j) = (unat pos + j) mod capacity rb"
proof -
  note dvd = pow2_capacity_bounds(3) [OF assms]
  have "unat (pos + word_of_nat j) mod capacity rb = (unat pos + unat (word_of_nat j :: u64)) mod capacity rb"
    using dvd by (simp add: unat_word_ariths mod_mod_cancel)
  also have "\<dots> = (unat pos + j mod 2 ^ 64) mod capacity rb"
    by (simp add: unat_of_nat)
  also have "\<dots> = (unat pos + j) mod capacity rb"
    using dvd by (metis mod_add_right_eq mod_mod_cancel)
  finally show ?thesis using assms by (simp add: cell_index_mod)
qed

lemma mod_shift_inj:
  fixes i j a c :: nat
  assumes "i < c" "j < c" "(a + i) mod c = (a + j) mod c"
  shows "i = j"
  using assms
proof (induction i j rule: linorder_wlog)
  case (le i j)
  then have "c dvd (a + j) - (a + i)" by (metis add_le_cancel_left mod_eq_dvd_iff_nat)
  with le show ?case by (auto dest: dvd_imp_le)
qed simp

section \<open>Invariant and contents\<close>

definition ring_count :: "'a LockFreeRingBuffer \<Rightarrow> nat" where
  "ring_count rb = unat (enqueue_pos rb - dequeue_pos rb)"

definition ring_list :: "'a LockFreeRingBuffer \<Rightarrow> 'a list" where
  "ring_list rb =
     map (\<lambda>j. data (cells rb ! cell_index rb (dequeue_pos rb + word_of_nat j))) [0..<ring_count rb]"

text \<open>Counting from the consumer cursor, the first \<open>ring_count\<close> cells are published (their turn is one
  past their position), the others wait for the producer (their turn is their position).\<close>

definition ring_inv :: "'a LockFreeRingBuffer \<Rightarrow> bool" where
  "ring_inv rb \<longleftrightarrow> pow2_capacity rb \<and> ring_count rb \<le> capacity rb
     \<and> (\<forall>j < capacity rb. sequence (cells rb ! cell_index rb (dequeue_pos rb + word_of_nat j))
          = dequeue_pos rb + word_of_nat j + (if j < ring_count rb then 1 else 0))"

lemma ring_invD:
  assumes "ring_inv rb"
  shows "pow2_capacity rb" "ring_count rb \<le> capacity rb"
    and "j < capacity rb \<Longrightarrow> sequence (cells rb ! cell_index rb (dequeue_pos rb + word_of_nat j))
          = dequeue_pos rb + word_of_nat j + (if j < ring_count rb then 1 else 0)"
  using assms by (auto simp: ring_inv_def)

lemma ring_inv_new:
  assumes "1 \<le> k" "k \<le> 62"
  shows "ring_inv (new_LockFreeRingBuffer (2 ^ k) d)"
proof -
  let ?rb = "new_LockFreeRingBuffer (2 ^ k) d"
  have cap: "capacity ?rb = 2 ^ k" by (simp add: capacity_def new_LockFreeRingBuffer_def)
  then have p: "pow2_capacity ?rb" using assms by (auto simp: pow2_capacity_def)
  have "sequence (cells ?rb ! cell_index ?rb (0 + word_of_nat j)) = word_of_nat j" if "j < 2 ^ k" for j
    using that cap by (subst cell_index_add [OF p]) (simp add: new_LockFreeRingBuffer_def)
  with p cap show ?thesis
    by (simp add: ring_inv_def ring_count_def new_LockFreeRingBuffer_def)
qed

lemma length_ring_list: "length (ring_list rb) = ring_count rb"
  by (simp add: ring_list_def)

lemma enqueue_pos_offset: "enqueue_pos rb = dequeue_pos rb + word_of_nat (ring_count rb)"
  by (simp add: ring_count_def)

text \<open>The turn of the cell at the producer cursor tells room from full, the one at the consumer cursor
  items from empty.\<close>

lemma small_word_sign:
  assumes "n < 2 ^ 63"
  shows "sint (word_of_nat n :: u64) = int n"
  using assms by (simp add: sint_uint take_bit_nat_eq_self signed_take_bit_int_eq_self_iff
      unsigned_of_nat of_nat_take_bit [symmetric])

lemma turn_diff_full:
  assumes "2 \<le> c" "c \<le> 2 ^ 62"
  shows "turn_diff (d + 1) (d + word_of_nat c) < 0"
proof -
  have "(d + 1) - (d + word_of_nat c) = - (word_of_nat (c - 1) :: u64)"
    using assms by (simp add: of_nat_diff)
  moreover have "sint (- (word_of_nat (c - 1) :: u64)) = - int (c - 1)"
    using assms by (simp add: sint_word_ariths small_word_sign signed_take_bit_int_eq_self_iff)
  ultimately show ?thesis using assms by (simp add: turn_diff_def)
qed


section \<open>The operations of one caller\<close>

lemma cell_frame [frame_simps]:
  "capacity (set_data rb i x) = capacity rb" "capacity (set_sequence rb i n) = capacity rb"
  "capacity (rb\<lparr>enqueue_pos := p\<rparr>) = capacity rb" "capacity (rb\<lparr>dequeue_pos := p\<rparr>) = capacity rb"
  "enqueue_pos (set_data rb i x) = enqueue_pos rb" "enqueue_pos (set_sequence rb i n) = enqueue_pos rb"
  "dequeue_pos (set_data rb i x) = dequeue_pos rb" "dequeue_pos (set_sequence rb i n) = dequeue_pos rb"
  by (simp_all add: capacity_def set_data_def set_sequence_def)

lemma cell_at:
  assumes "i < capacity rb"
  shows "data (cells (set_data rb i x) ! j) = (if j = i then x else data (cells rb ! j))"
    and "sequence (cells (set_data rb i x) ! j) = sequence (cells rb ! j)"
    and "sequence (cells (set_sequence rb i n) ! j) = (if j = i then n else sequence (cells rb ! j))"
    and "data (cells (set_sequence rb i n) ! j) = data (cells rb ! j)"
  using assms by (auto simp: set_data_def set_sequence_def capacity_def nth_list_update)

lemma cell_index_frame:
  "capacity rb' = capacity rb \<Longrightarrow> cell_index rb' p = cell_index rb p"
  by (simp add: cell_index_def kMask_def)

lemma cell_index_eq_iff:
  assumes "pow2_capacity rb" "i < capacity rb" "j < capacity rb"
  shows "cell_index rb (p + word_of_nat i) = cell_index rb (p + word_of_nat j) \<longleftrightarrow> i = j"
  using assms mod_shift_inj [of i "capacity rb" j "unat p"] by (auto simp: cell_index_add)

lemma try_push_full:
  assumes inv: "ring_inv rb" and full: "ring_count rb = capacity rb"
  shows "try_push rb x = Some (False, rb)"
proof -
  note p = ring_invD(1) [OF inv] and b = pow2_capacity_bounds [OF ring_invD(1) [OF inv]]
  have "cell_index rb (enqueue_pos rb) = cell_index rb (dequeue_pos rb + word_of_nat 0)"
    unfolding enqueue_pos_offset [of rb] full by (simp only: cell_index_add [OF p]) simp
  then have "sequence (cells rb ! cell_index rb (enqueue_pos rb)) = dequeue_pos rb + 1"
    using ring_invD(3) [OF inv, of 0] b full by simp
  moreover have "turn_diff (dequeue_pos rb + 1) (enqueue_pos rb) < 0"
    unfolding enqueue_pos_offset [of rb] full using b by (intro turn_diff_full)
  ultimately show ?thesis
    by (simp add: try_push_def try_push_loop.simps [of rb "enqueue_pos rb"] Let_def)
qed

lemma try_push_room:
  assumes inv: "ring_inv rb" and room: "ring_count rb < capacity rb"
  shows "\<exists>rb'. try_push rb x = Some (True, rb') \<and> ring_inv rb' \<and> ring_list rb' = ring_list rb @ [x]
      \<and> capacity rb' = capacity rb"
proof -
  let ?E = "enqueue_pos rb" and ?D = "dequeue_pos rb" and ?n = "ring_count rb"
  let ?i = "cell_index rb ?E"
  let ?rb' = "set_sequence (set_data (rb\<lparr>enqueue_pos := ?E + 1\<rparr>) ?i x) ?i (?E + 1)"
  note p = ring_invD(1) [OF inv] and b = pow2_capacity_bounds [OF ring_invD(1) [OF inv]]
  have E: "?E = ?D + word_of_nat ?n" by (rule enqueue_pos_offset)
  have i: "?i < capacity rb" by (rule cell_index_less [OF p])
  have idx: "cell_index ?rb' = cell_index rb" by (intro ext cell_index_frame) (simp add: frame_simps)
  have eq: "cell_index rb (?D + word_of_nat j) = ?i \<longleftrightarrow> j = ?n" if "j < capacity rb" for j
    unfolding E using cell_index_eq_iff [OF p that room] by simp
  have cnt: "ring_count ?rb' = Suc ?n"
  proof -
    have "?E + 1 - ?D = word_of_nat (Suc ?n)" using E by simp
    moreover have "unat (word_of_nat (Suc ?n) :: u64) = Suc ?n"
      using room b(2) by (intro unat_u64_of_nat) simp
    moreover have "ring_count ?rb' = unat (?E + 1 - ?D)" by (simp add: ring_count_def frame_simps)
    ultimately show ?thesis by (simp only:)
  qed
  have "sequence (cells rb ! ?i) = ?E"
    using ring_invD(3) [OF inv room] by (simp flip: enqueue_pos_offset)
  then have step: "try_push rb x = Some (True, ?rb')"
    by (simp add: try_push_def try_push_loop.simps [of rb ?E] Let_def turn_diff_def)
  have "sequence (cells ?rb' ! cell_index rb (?D + word_of_nat j))
      = ?D + word_of_nat j + (if j < Suc ?n then 1 else 0)" if "j < capacity rb" for j
    using ring_invD(3) [OF inv that] i eq [OF that] E by (simp add: cell_at frame_simps less_Suc_eq)
  then have "ring_inv ?rb'"
    using p room cnt idx by (simp add: ring_inv_def frame_simps pow2_capacity_def)
  moreover have "ring_list ?rb' = ring_list rb @ [x]"
    using cnt idx i eq room E by (simp add: ring_list_def cell_at frame_simps)
  ultimately show ?thesis using step by (auto simp: frame_simps)
qed

lemma try_pop_empty:
  assumes inv: "ring_inv rb" and empty: "ring_count rb = 0"
  shows "try_pop rb = Some (None, rb)"
proof -
  note b = pow2_capacity_bounds [OF ring_invD(1) [OF inv]]
  have "sequence (cells rb ! cell_index rb (dequeue_pos rb)) = dequeue_pos rb"
    using ring_invD(3) [OF inv, of 0] b empty by simp
  then show ?thesis
    by (simp add: try_pop_def try_pop_loop.simps [of rb "dequeue_pos rb"] Let_def turn_diff_def)
qed

lemma cell_index_wraps:
  assumes p: "pow2_capacity rb" and j: "j < capacity rb"
  shows "cell_index rb (pos + 1 + word_of_nat j) = cell_index rb pos \<longleftrightarrow> j = capacity rb - 1"
proof -
  let ?c = "capacity rb"
  note b = pow2_capacity_bounds [OF p]
  have "cell_index rb (pos + 1 + word_of_nat j) = cell_index rb (pos + word_of_nat (Suc j))"
    by (simp add: ac_simps)
  also have "\<dots> = cell_index rb pos \<longleftrightarrow> (unat pos + Suc j) mod ?c = unat pos mod ?c"
    by (simp only: cell_index_add [OF p] cell_index_mod [OF p, of pos])
  also have "\<dots> \<longleftrightarrow> (unat pos + (Suc j) mod ?c) mod ?c = (unat pos + 0) mod ?c"
    by (simp add: mod_simps)
  also have "\<dots> \<longleftrightarrow> Suc j mod ?c = 0" using b mod_shift_inj [of "Suc j mod ?c" ?c 0 "unat pos"] by auto
  also have "\<dots> \<longleftrightarrow> j = ?c - 1" using j b(1) by (cases "Suc j = ?c") auto
  finally show ?thesis .
qed

lemma ring_count_pop:
  assumes inv: "ring_inv rb" and items: "0 < ring_count rb"
  shows "ring_count (set_sequence (rb\<lparr>dequeue_pos := dequeue_pos rb + 1\<rparr>) i v) = ring_count rb - 1"
proof -
  have "enqueue_pos rb - (dequeue_pos rb + 1) = word_of_nat (ring_count rb - 1)"
    using items enqueue_pos_offset [of rb] by (simp add: of_nat_diff)
  moreover have "unat (word_of_nat (ring_count rb - 1) :: u64) = ring_count rb - 1"
    using ring_invD(2) [OF inv] pow2_capacity_bounds(2) [OF ring_invD(1) [OF inv]] by (intro unat_u64_of_nat) simp
  ultimately show ?thesis by (simp add: ring_count_def frame_simps)
qed

lemma try_pop_item:
  assumes inv: "ring_inv rb" and items: "0 < ring_count rb"
  shows "\<exists>rb'. try_pop rb = Some (Some (hd (ring_list rb)), rb') \<and> ring_inv rb'
      \<and> ring_list rb' = tl (ring_list rb) \<and> capacity rb' = capacity rb"
proof -
  let ?D = "dequeue_pos rb" and ?n = "ring_count rb" and ?c = "capacity rb"
  let ?i = "cell_index rb ?D"
  let ?rb' = "set_sequence (rb\<lparr>dequeue_pos := ?D + 1\<rparr>) ?i (?D + kMask rb + 1)"
  note p = ring_invD(1) [OF inv] and b = pow2_capacity_bounds [OF ring_invD(1) [OF inv]]
    and cnt = ring_count_pop [OF inv items, of ?i "?D + kMask rb + 1"]
  have i: "?i < ?c" by (rule cell_index_less [OF p])
  have idx: "cell_index ?rb' = cell_index rb" by (intro ext cell_index_frame) (simp add: frame_simps)
  have step: "try_pop rb = Some (Some (data (cells rb ! ?i)), ?rb')"
    using ring_invD(3) [OF inv, of 0] items b
    by (simp add: try_pop_def try_pop_loop.simps [of rb ?D] Let_def turn_diff_def)
  have hd: "data (cells rb ! ?i) = hd (ring_list rb)"
    using items by (simp add: ring_list_def hd_map)
  have "sequence (cells ?rb' ! cell_index rb (?D + 1 + word_of_nat j))
      = ?D + 1 + word_of_nat j + (if j < ?n - 1 then 1 else 0)" if j: "j < ?c" for j
  proof (cases "j = ?c - 1")
    case True
    with ring_invD(2) [OF inv] items have "\<not> j < ?n - 1" by simp
    moreover have "?D + kMask rb + 1 = ?D + 1 + word_of_nat j"
      using True b(1) by (simp add: kMask_def of_nat_diff)
    ultimately show ?thesis using True cell_index_wraps [OF p j, of ?D] i by (simp add: cell_at frame_simps)
  next
    case False
    with j have "Suc j < ?c" by simp
    from ring_invD(3) [OF inv this] False cell_index_wraps [OF p j, of ?D] i show ?thesis
      by (auto simp: cell_at frame_simps ac_simps)
  qed
  then have "ring_inv ?rb'"
    using p cnt idx ring_invD(2) [OF inv] by (simp add: ring_inv_def frame_simps pow2_capacity_def)
  moreover have "[Suc 0..<?n] = map Suc [0..<?n - 1]" using items by (cases ?n) (simp_all add: map_Suc_upt)
  then have "ring_list ?rb' = tl (ring_list rb)" using cnt idx i items
    by (simp add: ring_list_def cell_at frame_simps map_tl [symmetric] ac_simps)
  ultimately show ?thesis using step hd by (auto simp: frame_simps)
qed

interpretation ring: bounded_queue try_push try_pop ring_list capacity ring_inv
proof
  fix q :: "'a LockFreeRingBuffer" and x :: 'a and xs
  assume inv: "ring_inv q"
  show "length (ring_list q) \<le> capacity q" using ring_invD(2) [OF inv] by (simp add: length_ring_list)
  show "try_push q x = Some (False, q)" if "length (ring_list q) = capacity q"
    using try_push_full [OF inv] that by (simp add: length_ring_list)
  show "\<exists>q'. try_push q x = Some (True, q') \<and> ring_inv q' \<and> ring_list q' = ring_list q @ [x]
      \<and> capacity q' = capacity q" if "length (ring_list q) < capacity q"
    using try_push_room [OF inv] that by (simp add: length_ring_list)
  show "try_pop q = Some (None, q)" if "ring_list q = []"
    using try_pop_empty [OF inv] that by (simp add: length_ring_list [symmetric])
  show "\<exists>q'. try_pop q = Some (Some x, q') \<and> ring_inv q' \<and> ring_list q' = xs \<and> capacity q' = capacity q"
    if "ring_list q = x # xs"
    using try_pop_item [OF inv] that by (simp add: length_ring_list [symmetric])
qed

section \<open>Properties\<close>

text \<open>C24. Run by one caller at a time, the ring buffer is a bounded FIFO queue: a push returns, succeeds
  exactly when fewer than \<open>Capacity\<close> items are held, and then appends its item; a pop returns, and takes
  the oldest item or reports an empty queue. This holds across the wrap-around of the 64-bit cursors.\<close>

theorem ring_buffer_is_bounded_fifo:
  assumes "ring_inv rb"
  shows "(\<exists>ok rb'. try_push rb x = Some (ok, rb') \<and> (ok \<longleftrightarrow> length (ring_list rb) < capacity rb)
            \<and> ring_list rb' = (if ok then ring_list rb @ [x] else ring_list rb) \<and> ring_inv rb')
    \<and> (\<exists>r rb'. try_pop rb = Some (r, rb') \<and> ring_inv rb'
            \<and> (case r of None \<Rightarrow> ring_list rb = [] \<and> rb' = rb | Some y \<Rightarrow> ring_list rb = y # ring_list rb'))"
proof
  show "\<exists>ok rb'. try_push rb x = Some (ok, rb') \<and> (ok \<longleftrightarrow> length (ring_list rb) < capacity rb)
      \<and> ring_list rb' = (if ok then ring_list rb @ [x] else ring_list rb) \<and> ring_inv rb'"
    by (rule ring.push_result [OF assms, of x]) blast
  show "\<exists>r rb'. try_pop rb = Some (r, rb') \<and> ring_inv rb'
      \<and> (case r of None \<Rightarrow> ring_list rb = [] \<and> rb' = rb | Some y \<Rightarrow> ring_list rb = y # ring_list rb')"
  proof (cases "ring_list rb")
    case Nil
    with assms ring.pop_empty show ?thesis by fastforce
  next
    case (Cons y ys)
    with ring.pop_item [OF assms Cons] show ?thesis by force
  qed
qed

text \<open>A buffer of two cells whose cursors stand just before the wrap-around.\<close>

definition demo_ring :: "nat LockFreeRingBuffer" where
  "demo_ring = \<lparr>enqueue_pos = 18446744073709551615, dequeue_pos = 18446744073709551614,
     cells = [\<lparr>sequence = 18446744073709551615, data = 5\<rparr>,
              \<lparr>sequence = 18446744073709551615, data = 0\<rparr>]\<rparr>"

lemma demo_ring_capacity: "capacity demo_ring = 2" "pow2_capacity demo_ring" "ring_count demo_ring = 1"
  by (auto simp: pow2_capacity_def capacity_def demo_ring_def ring_count_def intro: exI [of _ 1])

lemma demo_ring_index: "cell_index demo_ring pos = unat pos mod 2"
  using cell_index_mod [OF demo_ring_capacity(2)] by (simp add: demo_ring_capacity)

lemma demo_ring_inv: "ring_inv demo_ring"
  unfolding ring_inv_def demo_ring_capacity demo_ring_index
  by (auto simp: demo_ring_capacity less_2_cases_iff) (simp_all add: demo_ring_def)

theorem ring_buffer_is_bounded_fifo_witness:
  "ring_inv demo_ring \<and> ring_list demo_ring = [5]
     \<and> (\<exists>rb'. try_push demo_ring 6 = Some (True, rb') \<and> ring_list rb' = [5, 6])"
proof -
  have "ring_list demo_ring = [5]"
    by (simp add: ring_list_def demo_ring_capacity demo_ring_index) (simp add: demo_ring_def)
  with ring_buffer_is_bounded_fifo [OF demo_ring_inv, of 6] demo_ring_inv demo_ring_capacity(1)
  show ?thesis by auto
qed

end
