(* ===== verification/Ring_Concurrent.thy ===== *)
theory Ring_Concurrent
  imports Ring_Buffer
begin

text \<open>
  The ring buffer under concurrent use (\<open>src/core/spmc_ring_buffer.hpp\<close>): any number of threads, each
  running \<open>try_push\<close> or \<open>try_pop\<close>, interleaved at every access to shared memory. A thread's
  \<open>pc\<close> is the point of the source where it stands together with its local variables; each rule of
  \<open>conc_step\<close> is one atomic load, compare-exchange or store, or the plain access to a cell's data.
  The atomics are sequentially consistent here; the code's acquire load and release store on a cell's
  turn counter order the plain data access between them, which is the access the race-freedom theorem
  covers. \<open>compare_exchange_weak\<close> may fail at any time.

  Three auxiliary fields record the history and are never read by a step: \<open>hist\<close> the items in the order
  their producers won the cursor, \<open>taken\<close> the number of pops that won the consumer cursor, and
  \<open>delivered\<close> the item handed to the pop with a given ticket. Results hold while fewer than
  \<open>2^63 - Capacity\<close> pushes have been made: a thread delayed across \<open>2^63\<close> operations could mistake
  an old turn for its own.
\<close>

section \<open>Model\<close>

datatype 'a pc =
    Idle
  | PushLoad 'a        \<comment> \<open>before \<open>enqueue_pos_.load\<close>\<close>
  | PushTurn 'a u64    \<comment> \<open>before \<open>cell->sequence.load\<close>, with \<open>pos\<close>\<close>
  | PushCas 'a u64     \<comment> \<open>before the compare-exchange, \<open>diff == 0\<close> seen\<close>
  | PushWrite 'a u64   \<comment> \<open>before \<open>cell->data = std::move(item)\<close>\<close>
  | PushPublish u64    \<comment> \<open>before \<open>cell->sequence.store(pos + 1)\<close>\<close>
  | PopLoad
  | PopTurn u64
  | PopCas u64
  | PopRead u64        \<comment> \<open>before \<open>out = std::move(cell->data)\<close>\<close>
  | PopRelease u64     \<comment> \<open>before \<open>cell->sequence.store(pos + kMask + 1)\<close>\<close>

record 'a conc =
  ring :: "'a LockFreeRingBuffer"
  pcs :: "nat \<Rightarrow> 'a pc"
  hist :: "'a list"
  taken :: nat
  delivered :: "nat \<rightharpoonup> 'a"

definition conc_init :: "nat \<Rightarrow> 'a \<Rightarrow> 'a conc" where
  "conc_init Capacity d =
     \<lparr>ring = new_LockFreeRingBuffer Capacity d, pcs = (\<lambda>_. Idle), hist = [], taken = 0,
      delivered = Map.empty\<rparr>"

abbreviation turn_of :: "'a conc \<Rightarrow> u64 \<Rightarrow> u64" where
  "turn_of s pos \<equiv> sequence (cells (ring s) ! cell_index (ring s) pos)"

abbreviation goto :: "'a conc \<Rightarrow> nat \<Rightarrow> 'a pc \<Rightarrow> 'a conc" where
  "goto s i p \<equiv> s\<lparr>pcs := (pcs s)(i := p)\<rparr>"

inductive conc_step :: "'a conc \<Rightarrow> 'a conc \<Rightarrow> bool" where
  call_push: "pcs s i = Idle \<Longrightarrow> conc_step s (goto s i (PushLoad x))"
| push_load: "pcs s i = PushLoad x \<Longrightarrow> conc_step s (goto s i (PushTurn x (enqueue_pos (ring s))))"
| push_turn_match: "pcs s i = PushTurn x pos \<Longrightarrow> turn_diff (turn_of s pos) pos = 0 \<Longrightarrow>
     conc_step s (goto s i (PushCas x pos))"
| push_turn_full: "pcs s i = PushTurn x pos \<Longrightarrow> turn_diff (turn_of s pos) pos < 0 \<Longrightarrow>
     conc_step s (goto s i Idle)"
| push_turn_behind: "pcs s i = PushTurn x pos \<Longrightarrow> turn_diff (turn_of s pos) pos > 0 \<Longrightarrow>
     conc_step s (goto s i (PushLoad x))"
| push_cas_won: "pcs s i = PushCas x pos \<Longrightarrow> enqueue_pos (ring s) = pos \<Longrightarrow>
     conc_step s ((goto s i (PushWrite x pos))
       \<lparr>ring := (ring s)\<lparr>enqueue_pos := pos + 1\<rparr>, hist := hist s @ [x]\<rparr>)"
| push_cas_lost: "pcs s i = PushCas x pos \<Longrightarrow>
     conc_step s (goto s i (PushTurn x (enqueue_pos (ring s))))"
| push_write: "pcs s i = PushWrite x pos \<Longrightarrow>
     conc_step s ((goto s i (PushPublish pos))
       \<lparr>ring := set_data (ring s) (cell_index (ring s) pos) x\<rparr>)"
| push_publish: "pcs s i = PushPublish pos \<Longrightarrow>
     conc_step s ((goto s i Idle)
       \<lparr>ring := set_sequence (ring s) (cell_index (ring s) pos) (pos + 1)\<rparr>)"
| call_pop: "pcs s i = Idle \<Longrightarrow> conc_step s (goto s i PopLoad)"
| pop_load: "pcs s i = PopLoad \<Longrightarrow> conc_step s (goto s i (PopTurn (dequeue_pos (ring s))))"
| pop_turn_match: "pcs s i = PopTurn pos \<Longrightarrow> turn_diff (turn_of s pos) (pos + 1) = 0 \<Longrightarrow>
     conc_step s (goto s i (PopCas pos))"
| pop_turn_empty: "pcs s i = PopTurn pos \<Longrightarrow> turn_diff (turn_of s pos) (pos + 1) < 0 \<Longrightarrow>
     conc_step s (goto s i Idle)"
| pop_turn_behind: "pcs s i = PopTurn pos \<Longrightarrow> turn_diff (turn_of s pos) (pos + 1) > 0 \<Longrightarrow>
     conc_step s (goto s i PopLoad)"
| pop_cas_won: "pcs s i = PopCas pos \<Longrightarrow> dequeue_pos (ring s) = pos \<Longrightarrow>
     conc_step s ((goto s i (PopRead pos))
       \<lparr>ring := (ring s)\<lparr>dequeue_pos := pos + 1\<rparr>, taken := Suc (taken s)\<rparr>)"
| pop_cas_lost: "pcs s i = PopCas pos \<Longrightarrow>
     conc_step s (goto s i (PopTurn (dequeue_pos (ring s))))"
| pop_read: "pcs s i = PopRead pos \<Longrightarrow>
     conc_step s ((goto s i (PopRelease pos))
       \<lparr>delivered := (delivered s)(unat pos \<mapsto> data (cells (ring s) ! cell_index (ring s) pos))\<rparr>)"
| pop_release: "pcs s i = PopRelease pos \<Longrightarrow>
     conc_step s ((goto s i Idle)
       \<lparr>ring := set_sequence (ring s) (cell_index (ring s) pos) (pos + kMask (ring s) + 1)\<rparr>)"

inductive conc_reachable :: "nat \<Rightarrow> 'a \<Rightarrow> 'a conc \<Rightarrow> bool" for Capacity d where
  start: "conc_reachable Capacity d (conc_init Capacity d)"
| step: "conc_reachable Capacity d s \<Longrightarrow> conc_step s t \<Longrightarrow> conc_reachable Capacity d t"


section \<open>The ticket invariant\<close>

text \<open>The core of the argument, on numbers: \<open>C\<close> cells, \<open>E\<close> pushes and \<open>D\<close> pops have won their cursor,
  \<open>T\<close> is the turn of each cell, \<open>P\<close> and \<open>Q\<close> the tickets that threads hold between winning the
  cursor and handing the cell on. A cell is either free for the push whose ticket is its turn, or holds
  the item of the ticket one below its turn.\<close>

definition cell_free :: "nat \<Rightarrow> nat \<Rightarrow> nat \<Rightarrow> (nat \<Rightarrow> nat) \<Rightarrow> (nat \<Rightarrow> nat option) \<Rightarrow> nat \<Rightarrow> bool" where
  "cell_free C E D T P c \<longleftrightarrow>
     T c mod C = c \<and> T c < D + C \<and> E \<le> T c + C \<and> (T c < E \<longrightarrow> (\<exists>i. P i = Some (T c)))"

definition cell_full :: "nat \<Rightarrow> nat \<Rightarrow> nat \<Rightarrow> (nat \<Rightarrow> nat) \<Rightarrow> (nat \<Rightarrow> nat option) \<Rightarrow> nat \<Rightarrow> bool" where
  "cell_full C E D T Q c \<longleftrightarrow>
     (\<exists>t. T c = Suc t \<and> t mod C = c \<and> t < E \<and> E \<le> t + C \<and> (t < D \<longrightarrow> (\<exists>i. Q i = Some t)))"

definition tickets_ok ::
    "nat \<Rightarrow> nat \<Rightarrow> nat \<Rightarrow> (nat \<Rightarrow> nat) \<Rightarrow> (nat \<Rightarrow> nat option) \<Rightarrow> (nat \<Rightarrow> nat option) \<Rightarrow> bool" where
  "tickets_ok C E D T P Q \<longleftrightarrow>
     D \<le> E \<and> E \<le> D + C
     \<and> (\<forall>c < C. cell_free C E D T P c \<or> cell_full C E D T Q c)
     \<and> (\<forall>i t. P i = Some t \<longrightarrow> D \<le> t \<and> t < E \<and> T (t mod C) = t)
     \<and> (\<forall>i t. Q i = Some t \<longrightarrow> t < D \<and> T (t mod C) = Suc t)
     \<and> (\<forall>i j t. P i = Some t \<longrightarrow> P j = Some t \<longrightarrow> i = j)
     \<and> (\<forall>i j t. Q i = Some t \<longrightarrow> Q j = Some t \<longrightarrow> i = j)"

lemma tickets_okD:
  assumes "tickets_ok C E D T P Q"
  shows "D \<le> E" "E \<le> D + C"
    and "c < C \<Longrightarrow> cell_free C E D T P c \<or> cell_full C E D T Q c"
    and "P i = Some t \<Longrightarrow> D \<le> t \<and> t < E \<and> T (t mod C) = t"
    and "Q i = Some t \<Longrightarrow> t < D \<and> T (t mod C) = Suc t"
    and "P i = Some t \<Longrightarrow> P j = Some t \<Longrightarrow> i = j"
    and "Q i = Some t \<Longrightarrow> Q j = Some t \<Longrightarrow> i = j"
  using assms unfolding tickets_ok_def by blast+

lemma Suc_mod_neq: "2 \<le> C \<Longrightarrow> Suc t mod C \<noteq> t mod C" for C t :: nat
  by (metis Suc_eq_plus1 add_diff_cancel_left' dvd_1_left le_antisym mod_eq_dvd_iff_nat not_less_eq_eq
      nat_dvd_1_iff_1 numeral_2_eq_2 trans_le_add1 le_add1)

lemma free_if_turn:
  assumes "tickets_ok C E D T P Q" "2 \<le> C" "T (q mod C) = q"
  shows "q < D + C" "E \<le> q + C" "q < E \<Longrightarrow> \<exists>i. P i = Some q"
proof -
  have "\<not> cell_full C E D T Q (q mod C)"
    using assms(3) Suc_mod_neq [OF assms(2)] unfolding cell_full_def by metis
  with tickets_okD(3) [OF assms(1), of "q mod C"] assms(2,3)
  show "q < D + C" "E \<le> q + C" "q < E \<Longrightarrow> \<exists>i. P i = Some q" by (auto simp: cell_free_def)
qed

lemma full_if_turn:
  assumes "tickets_ok C E D T P Q" "2 \<le> C" "T (t mod C) = Suc t"
  shows "t < E" "E \<le> t + C" "t < D \<Longrightarrow> \<exists>i. Q i = Some t"
proof -
  have "\<not> cell_free C E D T P (t mod C)"
    using assms(3) Suc_mod_neq [OF assms(2)] unfolding cell_free_def by metis
  with tickets_okD(3) [OF assms(1), of "t mod C"] assms(2,3)
  show "t < E" "E \<le> t + C" "t < D \<Longrightarrow> \<exists>i. Q i = Some t" by (auto simp: cell_full_def)
qed

lemma holder_upd: "(\<exists>j. P j = Some q) \<Longrightarrow> P i \<noteq> Some q \<Longrightarrow> \<exists>j. (P(i := v)) j = Some q"
  by (metis fun_upd_apply)

lemma cell_free_keep:
  "cell_free C E D T P c \<Longrightarrow> T' c = T c \<Longrightarrow> D \<le> D' \<Longrightarrow>
     (T c < E \<Longrightarrow> \<exists>i. P i = Some (T c) \<Longrightarrow> \<exists>i. P' i = Some (T c)) \<Longrightarrow> cell_free C E D' T' P' c"
  by (auto simp: cell_free_def)

lemma cell_full_keep:
  "cell_full C E D T Q c \<Longrightarrow> T' c = T c \<Longrightarrow>
     (\<And>t. T c = Suc t \<Longrightarrow> t mod C = c \<Longrightarrow> t < D' \<Longrightarrow> (t < D \<Longrightarrow> \<exists>i. Q i = Some t) \<Longrightarrow> \<exists>i. Q' i = Some t) \<Longrightarrow>
     cell_full C E D' T' Q' c"
  unfolding cell_full_def by metis

lemma push_claim:
  assumes ok: "tickets_ok C E D T P Q" and C: "2 \<le> C" and turn: "T (E mod C) = E" and i: "P i = None"
  shows "tickets_ok C (Suc E) D T (P(i \<mapsto> E)) Q"
proof -
  note room = free_if_turn [OF ok C turn]
  have "cell_free C (Suc E) D T (P(i \<mapsto> E)) c \<or> cell_full C (Suc E) D T Q c" if c: "c < C" for c
  proof (cases "c = E mod C")
    case True
    with room turn C have "cell_free C (Suc E) D T (P(i \<mapsto> E)) c" by (auto simp: cell_free_def)
    then show ?thesis ..
  next
    case False
    then have ne: "q + C \<noteq> E" if "q mod C = c" for q using that by auto
    from tickets_okD(3) [OF ok c] show ?thesis
    proof
      assume "cell_free C E D T P c"
      with ne [of "T c"] i have "cell_free C (Suc E) D T (P(i \<mapsto> E)) c"
        unfolding cell_free_def by (metis False Suc_leI fun_upd_apply le_neq_implies_less less_Suc_eq option.distinct(1))
      then show ?thesis ..
    next
      assume "cell_full C E D T Q c"
      then have "cell_full C (Suc E) D T Q c"
        unfolding cell_full_def by (metis Suc_leI le_neq_implies_less less_SucI ne)
      then show ?thesis ..
    qed
  qed
  moreover have "Suc E \<le> D + C" using room by simp
  moreover have "D \<le> t \<and> t < Suc E \<and> T (t mod C) = t" if "(P(i \<mapsto> E)) j = Some t" for j t
    using that turn tickets_okD(1) [OF ok] tickets_okD(4) [OF ok, of j t] by (auto split: if_splits)
  moreover have "j = k" if "(P(i \<mapsto> E)) j = Some t" "(P(i \<mapsto> E)) k = Some t" for j k t
    using that tickets_okD(4) [OF ok, of _ t] tickets_okD(6) [OF ok, of j t k] by (auto split: if_splits)
  ultimately show ?thesis using tickets_okD(1,5,7) [OF ok]
    unfolding tickets_ok_def by (auto simp del: fun_upd_apply)
qed

lemma push_hand_on:
  assumes ok: "tickets_ok C E D T P Q" and C: "2 \<le> C" and i: "P i = Some t"
  shows "tickets_ok C E D (T(t mod C := Suc t)) (P(i := None)) Q"
proof -
  note t = tickets_okD(4) [OF ok i]
  then have "T (t mod C) = t" by simp
  note free = free_if_turn [OF ok C this]
  let ?T = "T(t mod C := Suc t)" and ?P = "P(i := None)"
  have "cell_free C E D ?T ?P c \<or> cell_full C E D ?T Q c" if c: "c < C" for c
  proof (cases "c = t mod C")
    case True
    with free t have "cell_full C E D ?T Q c" by (auto simp: cell_full_def)
    then show ?thesis ..
  next
    case False
    then have ne: "T c mod C = c \<Longrightarrow> T c \<noteq> t" by auto
    from tickets_okD(3) [OF ok c] show ?thesis
    proof
      assume free: "cell_free C E D T P c"
      then have "P i \<noteq> Some (T c)" using ne i by (auto simp: cell_free_def)
      with free False have "cell_free C E D ?T ?P c" by (auto intro!: holder_upd elim: cell_free_keep)
      then show ?thesis ..
    next
      assume "cell_full C E D T Q c"
      with False have "cell_full C E D ?T Q c" by (auto elim: cell_full_keep)
      then show ?thesis ..
    qed
  qed
  moreover have "?T (u mod C) = u" if "?P j = Some u" for j u
  proof -
    from that have j: "j \<noteq> i" "P j = Some u" by (auto split: if_splits)
    with tickets_okD(6) [OF ok i, of j] have "u \<noteq> t" by auto
    with tickets_okD(4) [OF ok j(2)] t show ?thesis by auto
  qed
  moreover have "?T (u mod C) = Suc u" if "Q j = Some u" for j u
    using tickets_okD(5) [OF ok that] t Suc_mod_neq [OF C] by (metis fun_upd_apply)
  ultimately show ?thesis using tickets_okD [OF ok]
    unfolding tickets_ok_def by (auto split: if_splits)
qed


lemma pop_claim:
  assumes ok: "tickets_ok C E D T P Q" and C: "2 \<le> C" and turn: "T (D mod C) = Suc D" and i: "Q i = None"
  shows "tickets_ok C E (Suc D) T P (Q(i \<mapsto> D))"
proof -
  note full = full_if_turn [OF ok C turn]
  have keep: "\<exists>j. (Q(i \<mapsto> D)) j = Some t" if "t < Suc D" "t < D \<Longrightarrow> \<exists>j. Q j = Some t" for t
    using that i by (metis fun_upd_other fun_upd_same less_Suc_eq option.distinct(1))
  have "cell_free C E (Suc D) T P c \<or> cell_full C E (Suc D) T (Q(i \<mapsto> D)) c" if c: "c < C" for c
    using tickets_okD(3) [OF ok c]
  proof
    assume "cell_full C E D T Q c"
    then have "cell_full C E (Suc D) T (Q(i \<mapsto> D)) c" by (rule cell_full_keep) (rule refl, rule keep)
    then show ?thesis ..
  qed (auto elim!: cell_free_keep)
  moreover have "Suc D \<le> t \<and> t < E \<and> T (t mod C) = t" if "P j = Some t" for j t
    using tickets_okD(4) [OF ok that] turn by (metis Suc_leI le_neq_implies_less n_not_Suc_n)
  moreover have "t < Suc D \<and> T (t mod C) = Suc t" if "(Q(i \<mapsto> D)) j = Some t" for j t
    using that turn tickets_okD(5) [OF ok, of j t] by (auto split: if_splits)
  moreover have "j = k" if "(Q(i \<mapsto> D)) j = Some t" "(Q(i \<mapsto> D)) k = Some t" for j k t
    using that tickets_okD(5) [OF ok, of _ t] tickets_okD(7) [OF ok, of j t k] by (auto split: if_splits)
  ultimately show ?thesis using full tickets_okD(1,2,6) [OF ok]
    unfolding tickets_ok_def by (auto simp del: fun_upd_apply)
qed

lemma pop_hand_on:
  assumes ok: "tickets_ok C E D T P Q" and C: "2 \<le> C" and i: "Q i = Some t"
  shows "tickets_ok C E D (T(t mod C := t + C)) P (Q(i := None))"
proof -
  note t = tickets_okD(5) [OF ok i]
  then have "T (t mod C) = Suc t" by simp
  note full = full_if_turn [OF ok C this]
  let ?T = "T(t mod C := t + C)" and ?Q = "Q(i := None)"
  have "cell_free C E D ?T P c \<or> cell_full C E D ?T ?Q c" if c: "c < C" for c
  proof (cases "c = t mod C")
    case True
    with full t have "cell_free C E D ?T P c" by (auto simp: cell_free_def)
    then show ?thesis ..
  next
    case False
    from tickets_okD(3) [OF ok c] show ?thesis
    proof
      assume "cell_free C E D T P c"
      with False have "cell_free C E D ?T P c" by (auto elim: cell_free_keep)
      then show ?thesis ..
    next
      assume full: "cell_full C E D T Q c"
      have "\<exists>j. ?Q j = Some u" if "u mod C = c" "u < D" "u < D \<Longrightarrow> \<exists>j. Q j = Some u" for u
        using that False i by (intro holder_upd) auto
      with full False have "cell_full C E D ?T ?Q c" by (auto simp del: fun_upd_apply elim!: cell_full_keep) simp
      then show ?thesis ..
    qed
  qed
  moreover have "?T (u mod C) = Suc u" if "?Q j = Some u" for j u
  proof -
    from that have j: "j \<noteq> i" "Q j = Some u" by (auto split: if_splits)
    with tickets_okD(7) [OF ok i, of j] have "u \<noteq> t" by auto
    with tickets_okD(5) [OF ok j(2)] t show ?thesis by auto
  qed
  moreover have "?T (u mod C) = u" if "P j = Some u" for j u
    using tickets_okD(4) [OF ok that] t Suc_mod_neq [OF C] by (metis fun_upd_apply)
  ultimately show ?thesis using tickets_okD [OF ok]
    unfolding tickets_ok_def by (auto split: if_splits)
qed

section \<open>The invariant of the threads\<close>

fun push_ticket :: "'a pc \<Rightarrow> nat option" where
  "push_ticket (PushWrite x pos) = Some (unat pos)"
| "push_ticket (PushPublish pos) = Some (unat pos)"
| "push_ticket _ = None"

fun pop_ticket :: "'a pc \<Rightarrow> nat option" where
  "pop_ticket (PopRead pos) = Some (unat pos)"
| "pop_ticket (PopRelease pos) = Some (unat pos)"
| "pop_ticket _ = None"

definition turns :: "'a conc \<Rightarrow> nat \<Rightarrow> nat" where
  "turns s c = unat (sequence (cells (ring s) ! c))"

definition datas :: "'a conc \<Rightarrow> nat \<Rightarrow> 'a" where
  "datas s c = data (cells (ring s) ! c)"

text \<open>What a thread knows at each point, given \<open>E\<close> pushes, \<open>D\<close> pops, the turns \<open>T\<close> and the data \<open>A\<close>.\<close>

fun pc_ok :: "nat \<Rightarrow> 'a list \<Rightarrow> nat \<Rightarrow> (nat \<Rightarrow> nat) \<Rightarrow> (nat \<Rightarrow> 'a) \<Rightarrow> (nat \<rightharpoonup> 'a) \<Rightarrow> 'a pc \<Rightarrow> bool" where
  "pc_ok C H D T A del (PushTurn x pos) = (unat pos \<le> length H)"
| "pc_ok C H D T A del (PushCas x pos) =
     (unat pos \<le> length H \<and> (unat pos = length H \<longrightarrow> T (length H mod C) = length H))"
| "pc_ok C H D T A del (PushWrite x pos) = (H ! unat pos = x)"
| "pc_ok C H D T A del (PushPublish pos) = (A (unat pos mod C) = H ! unat pos)"
| "pc_ok C H D T A del (PopTurn pos) = (unat pos \<le> D)"
| "pc_ok C H D T A del (PopCas pos) = (unat pos \<le> D \<and> (unat pos = D \<longrightarrow> T (D mod C) = Suc D))"
| "pc_ok C H D T A del (PopRead pos) = (del (unat pos) = None)"
| "pc_ok C H D T A del _ = True"

definition data_ok :: "nat \<Rightarrow> 'a list \<Rightarrow> (nat \<Rightarrow> nat) \<Rightarrow> (nat \<Rightarrow> 'a) \<Rightarrow> bool" where
  "data_ok C H T A \<longleftrightarrow> (\<forall>t. T (t mod C) = Suc t \<longrightarrow> A (t mod C) = H ! t)"

definition delivered_ok :: "'a list \<Rightarrow> nat \<Rightarrow> (nat \<rightharpoonup> 'a) \<Rightarrow> (nat \<Rightarrow> 'a pc) \<Rightarrow> bool" where
  "delivered_ok H D del pc \<longleftrightarrow>
     (\<forall>t x. del t = Some x \<longrightarrow> t < D \<and> x = H ! t)
     \<and> (\<forall>t < D. del t = None \<longrightarrow> (\<exists>i pos. pc i = PopRead pos \<and> unat pos = t))"

definition conc_inv :: "'a conc \<Rightarrow> bool" where
  "conc_inv s \<longleftrightarrow> pow2_capacity (ring s)
     \<and> unat (enqueue_pos (ring s)) = length (hist s) \<and> unat (dequeue_pos (ring s)) = taken s
     \<and> tickets_ok (capacity (ring s)) (length (hist s)) (taken s) (turns s)
          (push_ticket \<circ> pcs s) (pop_ticket \<circ> pcs s)
     \<and> (\<forall>i. pc_ok (capacity (ring s)) (hist s) (taken s) (turns s) (datas s) (delivered s) (pcs s i))
     \<and> data_ok (capacity (ring s)) (hist s) (turns s) (datas s)
     \<and> delivered_ok (hist s) (taken s) (delivered s) (pcs s)"


lemma conc_invD:
  assumes "conc_inv s"
  shows "pow2_capacity (ring s)" "2 \<le> capacity (ring s)"
    and "unat (enqueue_pos (ring s)) = length (hist s)" "unat (dequeue_pos (ring s)) = taken s"
    and "tickets_ok (capacity (ring s)) (length (hist s)) (taken s) (turns s)
          (push_ticket \<circ> pcs s) (pop_ticket \<circ> pcs s)"
    and "pc_ok (capacity (ring s)) (hist s) (taken s) (turns s) (datas s) (delivered s) (pcs s i)"
    and "data_ok (capacity (ring s)) (hist s) (turns s) (datas s)"
    and "delivered_ok (hist s) (taken s) (delivered s) (pcs s)"
  using assms pow2_capacity_bounds(1) unfolding conc_inv_def by blast+

lemma view_simps [simp]:
  "turns (s\<lparr>pcs := f\<rparr>) = turns s" "datas (s\<lparr>pcs := f\<rparr>) = datas s"
  "turns (s\<lparr>hist := h\<rparr>) = turns s" "datas (s\<lparr>hist := h\<rparr>) = datas s"
  "turns (s\<lparr>taken := n\<rparr>) = turns s" "datas (s\<lparr>taken := n\<rparr>) = datas s"
  "turns (s\<lparr>delivered := d\<rparr>) = turns s" "datas (s\<lparr>delivered := d\<rparr>) = datas s"
  "turns (s\<lparr>ring := (ring s)\<lparr>enqueue_pos := p\<rparr>\<rparr>) = turns s"
  "datas (s\<lparr>ring := (ring s)\<lparr>enqueue_pos := p\<rparr>\<rparr>) = datas s"
  "turns (s\<lparr>ring := (ring s)\<lparr>dequeue_pos := p\<rparr>\<rparr>) = turns s"
  "datas (s\<lparr>ring := (ring s)\<lparr>dequeue_pos := p\<rparr>\<rparr>) = datas s"
  by (simp_all add: turns_def datas_def fun_eq_iff)

lemma view_set:
  assumes "c < capacity (ring s)"
  shows "turns (s\<lparr>ring := set_sequence (ring s) c n\<rparr>) = (turns s)(c := unat n)"
    and "datas (s\<lparr>ring := set_sequence (ring s) c n\<rparr>) = datas s"
    and "turns (s\<lparr>ring := set_data (ring s) c x\<rparr>) = turns s"
    and "datas (s\<lparr>ring := set_data (ring s) c x\<rparr>) = (datas s)(c := x)"
  using assms by (auto simp: turns_def datas_def fun_eq_iff cell_at)

lemma pow2_frame [frame_simps]:
  "pow2_capacity (set_data rb c x) = pow2_capacity rb"
  "pow2_capacity (set_sequence rb c n) = pow2_capacity rb"
  "pow2_capacity (rb\<lparr>enqueue_pos := p\<rparr>) = pow2_capacity rb"
  "pow2_capacity (rb\<lparr>dequeue_pos := p\<rparr>) = pow2_capacity rb"
  by (simp_all add: pow2_capacity_def frame_simps)

lemma ticket_upd:
  "push_ticket \<circ> f(i := p) = (push_ticket \<circ> f)(i := push_ticket p)"
  "pop_ticket \<circ> f(i := p) = (pop_ticket \<circ> f)(i := pop_ticket p)"
  by (auto simp: fun_eq_iff)

lemma delivered_ok_move:
  assumes ok: "delivered_ok H D del pc" and i: "\<And>pos. pc i \<noteq> PopRead pos"
  shows "delivered_ok H D del (pc(i := p))"
proof -
  have "\<exists>j pos. (pc(i := p)) j = PopRead pos \<and> unat pos = t" if t: "t < D" "del t = None" for t
  proof -
    obtain j pos where j: "pc j = PopRead pos" "unat pos = t"
      using ok t unfolding delivered_ok_def by blast
    with i have "j \<noteq> i" by auto
    with j have "(pc(i := p)) j = PopRead pos \<and> unat pos = t" by simp
    then show ?thesis by blast
  qed
  with ok show ?thesis unfolding delivered_ok_def by simp
qed

text \<open>A step that only moves a thread, keeping the tickets it holds.\<close>

lemma goto_inv:
  assumes inv: "conc_inv s"
    and same: "push_ticket p = push_ticket (pcs s i)" "pop_ticket p = pop_ticket (pcs s i)"
    and ok: "pc_ok (capacity (ring s)) (hist s) (taken s) (turns s) (datas s) (delivered s) p"
    and read: "\<And>pos. pcs s i \<noteq> PopRead pos"
  shows "conc_inv (goto s i p)"
proof -
  have "push_ticket \<circ> (pcs s)(i := p) = push_ticket \<circ> pcs s" "pop_ticket \<circ> (pcs s)(i := p) = pop_ticket \<circ> pcs s"
    using same by (auto simp: fun_eq_iff)
  moreover have "delivered_ok (hist s) (taken s) (delivered s) ((pcs s)(i := p))"
    using conc_invD(8) [OF inv] read by (rule delivered_ok_move)
  moreover have "pc_ok (capacity (ring s)) (hist s) (taken s) (turns s) (datas s) (delivered s) (((pcs s)(i := p)) j)" for j
    using ok conc_invD(6) [OF inv, of j] by simp
  ultimately show ?thesis using conc_invD [OF inv] unfolding conc_inv_def by simp
qed

text \<open>Reading a turn below the bound.\<close>

lemma turn_lt:
  assumes "tickets_ok C E D T P Q" "c < C"
  shows "T c < E + C \<or> T c \<le> E"
  using tickets_okD(1) [OF assms(1)] tickets_okD(3) [OF assms] by (auto simp: cell_free_def cell_full_def)

lemma small_diff:
  assumes "unat a < 2 ^ 63" "unat b < 2 ^ 63"
  shows "turn_diff a b = int (unat a) - int (unat b)"
proof -
  have "sint a = int (unat a)" "sint b = int (unat b)"
    using small_word_sign [OF assms(1)] small_word_sign [OF assms(2)] by simp_all
  moreover have "int (unat a) < 2 ^ 63" "int (unat b) < 2 ^ 63"
    using assms by (metis of_nat_less_iff of_nat_numeral of_nat_power)+
  then have "- (2 ^ 63) \<le> int (unat a) - int (unat b)" "int (unat a) - int (unat b) < 2 ^ 63"
    by linarith+
  ultimately show ?thesis
    by (simp add: turn_diff_def sint_word_ariths signed_take_bit_int_eq_self_iff)
qed


section \<open>Every step keeps the invariant\<close>

text \<open>What the other threads know survives each kind of change.\<close>

lemma ticket_cells_differ:
  assumes "tickets_ok C E D T P Q"
  shows "P i = Some t \<Longrightarrow> P j = Some u \<Longrightarrow> i \<noteq> j \<Longrightarrow> t mod C \<noteq> u mod C"
    and "Q i = Some t \<Longrightarrow> Q j = Some u \<Longrightarrow> i \<noteq> j \<Longrightarrow> t mod C \<noteq> u mod C"
    and "P i = Some t \<Longrightarrow> Q j = Some u \<Longrightarrow> 2 \<le> C \<Longrightarrow> t mod C \<noteq> u mod C"
proof -
  show "t mod C \<noteq> u mod C" if P: "P i = Some t" "P j = Some u" "i \<noteq> j"
  proof
    assume "t mod C = u mod C"
    with tickets_okD(4) [OF assms P(1)] tickets_okD(4) [OF assms P(2)] have "t = u" by (metis (no_types))
    with tickets_okD(6) [OF assms P(1), of j] P show False by simp
  qed
  show "t mod C \<noteq> u mod C" if Q: "Q i = Some t" "Q j = Some u" "i \<noteq> j"
  proof
    assume "t mod C = u mod C"
    with tickets_okD(5) [OF assms Q(1)] tickets_okD(5) [OF assms Q(2)] have "t = u"
      by (metis (no_types) Suc_inject)
    with tickets_okD(7) [OF assms Q(1), of j] Q show False by simp
  qed
  show "t mod C \<noteq> u mod C" if PQ: "P i = Some t" "Q j = Some u" "2 \<le> C"
  proof
    assume eq: "t mod C = u mod C"
    with tickets_okD(4) [OF assms PQ(1)] tickets_okD(5) [OF assms PQ(2)] have "t = Suc u"
      by (metis (no_types))
    with eq Suc_mod_neq [OF PQ(3)] show False by simp
  qed
qed

lemma pc_ok_append:
  "pc_ok C H D T A del p \<Longrightarrow> (\<And>t. push_ticket p = Some t \<Longrightarrow> t < length H) \<Longrightarrow>
     pc_ok C (H @ [x]) D T A del p"
  by (cases p) (auto simp: nth_append)

lemma pc_ok_taken: "pc_ok C H D T A del p \<Longrightarrow> pc_ok C H (Suc D) T A del p"
  by (cases p) auto

lemma pc_ok_data:
  "pc_ok C H D T A del p \<Longrightarrow> (\<And>t. push_ticket p = Some t \<Longrightarrow> t mod C \<noteq> c) \<Longrightarrow>
     pc_ok C H D T (A(c := x)) del p"
  by (cases p) auto

lemma pc_ok_turn:
  "pc_ok C H D T A del p \<Longrightarrow> (length H mod C = c \<Longrightarrow> T c \<noteq> length H) \<Longrightarrow>
     (D mod C = c \<Longrightarrow> T c \<noteq> Suc D) \<Longrightarrow> pc_ok C H D (T(c := n)) A del p"
  by (cases p) auto

lemma pc_ok_deliver:
  "pc_ok C H D T A del p \<Longrightarrow> pop_ticket p \<noteq> Some t \<Longrightarrow> pc_ok C H D T A (del(t \<mapsto> x)) p"
  by (cases p) auto

lemma data_ok_append:
  assumes "data_ok C H T A" "tickets_ok C (length H) D T P Q" "2 \<le> C"
  shows "data_ok C (H @ [x]) T A"
  using assms(1) full_if_turn(1) [OF assms(2,3)] by (auto simp: data_ok_def nth_append)

lemma delivered_ok_append:
  assumes "delivered_ok H D del pc" "D \<le> length H" "\<And>pos. pc i \<noteq> PopRead pos"
  shows "delivered_ok (H @ [x]) D del (pc(i := p))"
proof -
  have "(H @ [x]) ! t = H ! t" if "t < D" for t using that assms(2) by (simp add: nth_append)
  with delivered_ok_move [OF assms(1,3), of p] show ?thesis by (simp add: delivered_ok_def)
qed

lemma push_cas_won_inv:
  assumes inv: "conc_inv s" and small: "length (hist s) < 2 ^ 63"
    and pc: "pcs s i = PushCas x pos" and won: "enqueue_pos (ring s) = pos"
  shows "conc_inv ((goto s i (PushWrite x pos))
      \<lparr>ring := (ring s)\<lparr>enqueue_pos := pos + 1\<rparr>, hist := hist s @ [x]\<rparr>)" (is "conc_inv ?t")
proof -
  let ?C = "capacity (ring s)" and ?E = "length (hist s)"
  note C = conc_invD(2) [OF inv] and ok = conc_invD(5) [OF inv]
  have E: "unat pos = ?E" using conc_invD(3) [OF inv] won by simp
  have turn: "turns s (?E mod ?C) = ?E" using conc_invD(6) [OF inv, of i] pc E by simp
  have "tickets_ok ?C (Suc ?E) (taken s) (turns s) ((push_ticket \<circ> pcs s)(i \<mapsto> ?E)) (pop_ticket \<circ> pcs s)"
    using pc by (intro push_claim [OF ok C turn]) simp
  moreover have "(pop_ticket \<circ> pcs s)(i := None) = pop_ticket \<circ> pcs s" using pc by auto
  ultimately have "tickets_ok ?C (Suc ?E) (taken s) (turns s) (push_ticket \<circ> (pcs s)(i := PushWrite x pos))
      (pop_ticket \<circ> (pcs s)(i := PushWrite x pos))"
    by (simp add: ticket_upd E)
  moreover have "pc_ok ?C (hist s @ [x]) (taken s) (turns s) (datas s) (delivered s)
      (((pcs s)(i := PushWrite x pos)) j)" for j
    using conc_invD(6) [OF inv, of j] tickets_okD(4) [OF ok, of j] E by (auto intro: pc_ok_append)
  moreover have "unat (pos + 1) = Suc ?E" using E small by (simp add: unat_word_ariths)
  moreover have "data_ok ?C (hist s @ [x]) (turns s) (datas s)"
    using conc_invD(7) [OF inv] ok C by (rule data_ok_append)
  moreover have "delivered_ok (hist s @ [x]) (taken s) (delivered s) ((pcs s)(i := PushWrite x pos))"
    using conc_invD(8) [OF inv] tickets_okD(1) [OF ok] pc by (intro delivered_ok_append) auto
  moreover have "turns ?t = turns s" "datas ?t = datas s" by (simp_all add: turns_def datas_def fun_eq_iff)
  ultimately show ?thesis using conc_invD(1,4) [OF inv] unfolding conc_inv_def
    by (simp add: frame_simps)
qed

lemma push_write_inv:
  assumes inv: "conc_inv s" and pc: "pcs s i = PushWrite x pos"
  shows "conc_inv ((goto s i (PushPublish pos))
      \<lparr>ring := set_data (ring s) (cell_index (ring s) pos) x\<rparr>)" (is "conc_inv ?t")
proof -
  let ?C = "capacity (ring s)" and ?c = "unat pos mod capacity (ring s)"
  note C = conc_invD(2) [OF inv] and ok = conc_invD(5) [OF inv]
  have c: "cell_index (ring s) pos = ?c" "?c < ?C"
    using cell_index_mod [OF conc_invD(1) [OF inv]] C by auto
  have i: "(push_ticket \<circ> pcs s) i = Some (unat pos)" using pc by simp
  note t = tickets_okD(4) [OF ok i]
  have x: "x = hist s ! unat pos" using conc_invD(6) [OF inv, of i] pc by simp
  have other: "u mod ?C \<noteq> ?c" if "push_ticket (pcs s j) = Some u" "j \<noteq> i" for j u
    using ticket_cells_differ(1) [OF ok] i that by simp
  have "pc_ok ?C (hist s) (taken s) (turns s) ((datas s)(?c := x)) (delivered s)
      (((pcs s)(i := PushPublish pos)) j)" for j
    using conc_invD(6) [OF inv, of j] other [of j] x by (auto intro: pc_ok_data)
  moreover have "data_ok ?C (hist s) (turns s) ((datas s)(?c := x))"
    using conc_invD(7) [OF inv] t Suc_mod_neq [OF C] unfolding data_ok_def by (metis fun_upd_apply)
  moreover have "push_ticket \<circ> (pcs s)(i := PushPublish pos) = push_ticket \<circ> pcs s"
    "pop_ticket \<circ> (pcs s)(i := PushPublish pos) = pop_ticket \<circ> pcs s"
    using pc by (auto simp: fun_eq_iff)
  moreover have "delivered_ok (hist s) (taken s) (delivered s) ((pcs s)(i := PushPublish pos))"
    using conc_invD(8) [OF inv] pc by (intro delivered_ok_move) auto
  moreover have "turns ?t = turns s" "datas ?t = (datas s)(?c := x)"
    using c by (auto simp: turns_def datas_def fun_eq_iff cell_at)
  ultimately show ?thesis using conc_invD(1,3,4,5) [OF inv] c unfolding conc_inv_def
    by (simp add: frame_simps)
qed

lemma push_publish_inv:
  assumes inv: "conc_inv s" and small: "length (hist s) < 2 ^ 63" and pc: "pcs s i = PushPublish pos"
  shows "conc_inv ((goto s i Idle)
      \<lparr>ring := set_sequence (ring s) (cell_index (ring s) pos) (pos + 1)\<rparr>)" (is "conc_inv ?t")
proof -
  let ?C = "capacity (ring s)" and ?E = "length (hist s)" and ?c = "unat pos mod capacity (ring s)"
  note C = conc_invD(2) [OF inv] and ok = conc_invD(5) [OF inv]
  have c: "cell_index (ring s) pos = ?c" "?c < ?C"
    using cell_index_mod [OF conc_invD(1) [OF inv]] C by auto
  have i: "(push_ticket \<circ> pcs s) i = Some (unat pos)" using pc by simp
  note t = tickets_okD(4) [OF ok i]
  have n: "unat (pos + 1) = Suc (unat pos)" using t small by (simp add: unat_word_ariths)
  have views: "turns ?t = (turns s)(?c := Suc (unat pos))" "datas ?t = datas s"
    using c n by (auto simp: turns_def datas_def fun_eq_iff cell_at)
  have "tickets_ok ?C ?E (taken s) ((turns s)(?c := Suc (unat pos)))
      (push_ticket \<circ> (pcs s)(i := Idle)) (pop_ticket \<circ> (pcs s)(i := Idle))"
  proof -
    have "(pop_ticket \<circ> pcs s)(i := None) = pop_ticket \<circ> pcs s" using pc by auto
    with push_hand_on [OF ok C i] show ?thesis by (simp only: ticket_upd push_ticket.simps pop_ticket.simps)
  qed
  moreover have "pc_ok ?C (hist s) (taken s) ((turns s)(?c := Suc (unat pos))) (datas s) (delivered s)
      (((pcs s)(i := Idle)) j)" for j
    using conc_invD(6) [OF inv, of j] t Suc_mod_neq [OF C, of "taken s"]
    by (auto intro!: pc_ok_turn)
  moreover have "data_ok ?C (hist s) ((turns s)(?c := Suc (unat pos))) (datas s)"
    using conc_invD(7) [OF inv] conc_invD(6) [OF inv, of i] pc unfolding data_ok_def
    by (metis Suc_inject fun_upd_apply pc_ok.simps(4))
  moreover have "delivered_ok (hist s) (taken s) (delivered s) ((pcs s)(i := Idle))"
    using conc_invD(8) [OF inv] pc by (intro delivered_ok_move) auto
  ultimately show ?thesis using conc_invD(1,3,4) [OF inv] views unfolding conc_inv_def
    by (simp add: frame_simps)
qed


lemma delivered_ok_read:
  assumes ok: "delivered_ok H D del pc" and i: "pc i = PopRead pos" "unat pos < D"
  shows "delivered_ok H D (del(unat pos \<mapsto> H ! unat pos)) (pc(i := PopRelease pos))"
proof -
  have "\<exists>j p. (pc(i := PopRelease pos)) j = PopRead p \<and> unat p = t"
    if t: "t < D" "(del(unat pos \<mapsto> H ! unat pos)) t = None" for t
  proof -
    from t(2) have t': "t \<noteq> unat pos" "del t = None" by (auto split: if_splits)
    then obtain j p where j: "pc j = PopRead p" "unat p = t"
      using ok t(1) unfolding delivered_ok_def by blast
    with t' i have "j \<noteq> i" by auto
    with j have "(pc(i := PopRelease pos)) j = PopRead p \<and> unat p = t" by simp
    then show ?thesis by blast
  qed
  with ok i(2) show ?thesis by (simp add: delivered_ok_def)
qed

lemma pop_cas_won_inv:
  assumes inv: "conc_inv s" and small: "length (hist s) < 2 ^ 63"
    and pc: "pcs s i = PopCas pos" and won: "dequeue_pos (ring s) = pos"
  shows "conc_inv ((goto s i (PopRead pos))
      \<lparr>ring := (ring s)\<lparr>dequeue_pos := pos + 1\<rparr>, taken := Suc (taken s)\<rparr>)" (is "conc_inv ?t")
proof -
  let ?C = "capacity (ring s)" and ?E = "length (hist s)" and ?D = "taken s"
  note C = conc_invD(2) [OF inv] and ok = conc_invD(5) [OF inv]
  have D: "unat pos = ?D" using conc_invD(4) [OF inv] won by simp
  have turn: "turns s (?D mod ?C) = Suc ?D" using conc_invD(6) [OF inv, of i] pc D by simp
  have fresh: "delivered s ?D = None"
    using conc_invD(8) [OF inv] unfolding delivered_ok_def by (metis less_irrefl not_None_eq)
  have "tickets_ok ?C ?E (Suc ?D) (turns s) (push_ticket \<circ> pcs s) ((pop_ticket \<circ> pcs s)(i \<mapsto> ?D))"
    using pc by (intro pop_claim [OF ok C turn]) simp
  moreover have "(push_ticket \<circ> pcs s)(i := None) = push_ticket \<circ> pcs s" using pc by auto
  ultimately have "tickets_ok ?C ?E (Suc ?D) (turns s) (push_ticket \<circ> (pcs s)(i := PopRead pos))
      (pop_ticket \<circ> (pcs s)(i := PopRead pos))"
    by (simp only: ticket_upd push_ticket.simps pop_ticket.simps D)
  moreover have "pc_ok ?C (hist s) (Suc ?D) (turns s) (datas s) (delivered s)
      (((pcs s)(i := PopRead pos)) j)" for j
    using conc_invD(6) [OF inv, of j] fresh D by (auto intro: pc_ok_taken)
  moreover have "unat (pos + 1) = Suc ?D"
    using D small tickets_okD(1) [OF ok] by (simp add: unat_word_ariths)
  moreover have "delivered_ok (hist s) (Suc ?D) (delivered s) ((pcs s)(i := PopRead pos))"
  proof -
    have "delivered_ok (hist s) ?D (delivered s) ((pcs s)(i := PopRead pos))"
      using conc_invD(8) [OF inv] pc by (intro delivered_ok_move) auto
    moreover have "\<exists>j p. ((pcs s)(i := PopRead pos)) j = PopRead p \<and> unat p = ?D"
      using D by (intro exI [of _ i] exI [of _ pos]) simp
    ultimately show ?thesis unfolding delivered_ok_def by (simp add: less_Suc_eq)
  qed
  moreover have "turns ?t = turns s" "datas ?t = datas s" by (simp_all add: turns_def datas_def fun_eq_iff)
  ultimately show ?thesis using conc_invD(1,3,7) [OF inv] unfolding conc_inv_def
    by (simp add: frame_simps)
qed

lemma pop_read_inv:
  assumes inv: "conc_inv s" and pc: "pcs s i = PopRead pos"
  shows "conc_inv ((goto s i (PopRelease pos))
      \<lparr>delivered := (delivered s)(unat pos \<mapsto> data (cells (ring s) ! cell_index (ring s) pos))\<rparr>)" (is "conc_inv ?t")
proof -
  let ?C = "capacity (ring s)" and ?c = "unat pos mod capacity (ring s)"
  note C = conc_invD(2) [OF inv] and ok = conc_invD(5) [OF inv]
  have c: "cell_index (ring s) pos = ?c" using cell_index_mod [OF conc_invD(1) [OF inv]] by auto
  have i: "(pop_ticket \<circ> pcs s) i = Some (unat pos)" using pc by simp
  note t = tickets_okD(5) [OF ok i]
  have x: "data (cells (ring s) ! ?c) = hist s ! unat pos"
    using conc_invD(7) [OF inv] t by (auto simp: data_ok_def datas_def)
  have "pc_ok ?C (hist s) (taken s) (turns s) (datas s) ((delivered s)(unat pos \<mapsto> hist s ! unat pos))
      (((pcs s)(i := PopRelease pos)) j)" for j
    using conc_invD(6) [OF inv, of j] tickets_okD(7) [OF ok i, of j] by (auto intro!: pc_ok_deliver)
  moreover have "push_ticket \<circ> (pcs s)(i := PopRelease pos) = push_ticket \<circ> pcs s"
    "pop_ticket \<circ> (pcs s)(i := PopRelease pos) = pop_ticket \<circ> pcs s"
    using pc by (auto simp: fun_eq_iff)
  moreover have "delivered_ok (hist s) (taken s) ((delivered s)(unat pos \<mapsto> hist s ! unat pos))
      ((pcs s)(i := PopRelease pos))"
    using conc_invD(8) [OF inv] pc t by (intro delivered_ok_read) auto
  moreover have "turns ?t = turns s" "datas ?t = datas s" by (simp_all add: turns_def datas_def fun_eq_iff)
  ultimately show ?thesis using conc_invD(1,3,4,5,7) [OF inv] c x unfolding conc_inv_def by simp
qed

lemma pop_release_inv:
  assumes inv: "conc_inv s" and small: "length (hist s) + capacity (ring s) < 2 ^ 63"
    and pc: "pcs s i = PopRelease pos"
  shows "conc_inv ((goto s i Idle)
      \<lparr>ring := set_sequence (ring s) (cell_index (ring s) pos) (pos + kMask (ring s) + 1)\<rparr>)" (is "conc_inv ?t")
proof -
  let ?C = "capacity (ring s)" and ?E = "length (hist s)" and ?c = "unat pos mod capacity (ring s)"
  note C = conc_invD(2) [OF inv] and ok = conc_invD(5) [OF inv]
  have c: "cell_index (ring s) pos = ?c" "?c < ?C"
    using cell_index_mod [OF conc_invD(1) [OF inv]] C by auto
  have i: "(pop_ticket \<circ> pcs s) i = Some (unat pos)" using pc by simp
  note t = tickets_okD(5) [OF ok i]
  have n: "unat (pos + kMask (ring s) + 1) = unat pos + ?C"
  proof -
    have "pos + kMask (ring s) + 1 = pos + word_of_nat ?C" by (simp add: kMask_def)
    moreover have "unat (pos + word_of_nat ?C) = unat pos + ?C"
      using t small tickets_okD(1) [OF ok] by (simp add: unat_word_ariths)
    ultimately show ?thesis by (simp only:)
  qed
  have views: "turns ?t = (turns s)(?c := unat pos + ?C)" "datas ?t = datas s"
    using c n by (auto simp: turns_def datas_def fun_eq_iff cell_at)
  have "tickets_ok ?C ?E (taken s) ((turns s)(?c := unat pos + ?C))
      (push_ticket \<circ> (pcs s)(i := Idle)) (pop_ticket \<circ> (pcs s)(i := Idle))"
  proof -
    have "(push_ticket \<circ> pcs s)(i := None) = push_ticket \<circ> pcs s" using pc by auto
    with pop_hand_on [OF ok C i] show ?thesis by (simp only: ticket_upd push_ticket.simps pop_ticket.simps)
  qed
  moreover have "pc_ok ?C (hist s) (taken s) ((turns s)(?c := unat pos + ?C)) (datas s) (delivered s)
      (((pcs s)(i := Idle)) j)" for j
    using conc_invD(6) [OF inv, of j] t Suc_mod_neq [OF C, of "unat pos"] by (auto intro!: pc_ok_turn)
  moreover have "data_ok ?C (hist s) ((turns s)(?c := unat pos + ?C)) (datas s)"
    using conc_invD(7) [OF inv] Suc_mod_neq [OF C] unfolding data_ok_def
    by (metis fun_upd_apply mod_add_self2)
  moreover have "delivered_ok (hist s) (taken s) (delivered s) ((pcs s)(i := Idle))"
    using conc_invD(8) [OF inv] pc by (intro delivered_ok_move) auto
  ultimately show ?thesis using conc_invD(1,3,4) [OF inv] views unfolding conc_inv_def
    by (simp add: frame_simps)
qed


lemma conc_step_capacity: "conc_step s t \<Longrightarrow> capacity (ring t) = capacity (ring s)"
  by (induction rule: conc_step.induct) (simp_all add: frame_simps)

lemma conc_step_hist: "conc_step s t \<Longrightarrow> length (hist s) \<le> length (hist t)"
  by (induction rule: conc_step.induct) simp_all

lemma turn_of_eq: "conc_inv s \<Longrightarrow> unat (turn_of s pos) = turns s (unat pos mod capacity (ring s))"
  using cell_index_mod [OF conc_invD(1), of s pos] by (simp add: turns_def)

lemma turn_match: "turn_diff a b = 0 \<longleftrightarrow> a = b"
  by (metis eq_iff_diff_eq_0 signed_0 signed_word_eqI turn_diff_def)

lemma conc_step_inv:
  assumes "conc_step s t" "conc_inv s" "length (hist s) + capacity (ring s) < 2 ^ 63"
  shows "conc_inv t"
  using assms
proof (induction rule: conc_step.induct)
  case (push_turn_match s i x pos)
  then have "turns s (unat pos mod capacity (ring s)) = unat pos"
    using turn_of_eq [of s pos] by (simp add: turn_match)
  with push_turn_match show ?case
    using conc_invD(6) [of s i] by (intro goto_inv) auto
next
  case (pop_turn_match s i pos)
  have "unat pos \<le> taken s" using conc_invD(6) [of s i] pop_turn_match by auto
  then have "unat (pos + 1) = Suc (unat pos)"
    using pop_turn_match tickets_okD(1) [OF conc_invD(5)] by (fastforce simp: unat_word_ariths)
  then have "turns s (unat pos mod capacity (ring s)) = Suc (unat pos)"
    using pop_turn_match turn_of_eq [of s pos] by (simp add: turn_match)
  with pop_turn_match \<open>unat pos \<le> taken s\<close> show ?case by (intro goto_inv) auto
next
  case (push_cas_won s i x pos)
  then show ?case by (intro push_cas_won_inv) auto
next
  case (pop_cas_won s i pos)
  then show ?case by (intro pop_cas_won_inv) auto
next
  case (push_publish s i pos)
  then show ?case by (intro push_publish_inv) auto
qed (auto intro!: goto_inv push_write_inv pop_read_inv pop_release_inv simp: conc_invD(3,4))

lemma conc_inv_init:
  assumes "1 \<le> k" "k \<le> 62"
  shows "conc_inv (conc_init (2 ^ k) d)"
proof -
  let ?s = "conc_init (2 ^ k) d"
  have cap: "capacity (ring ?s) = 2 ^ k"
    by (simp add: conc_init_def capacity_def new_LockFreeRingBuffer_def)
  have small: "(2::nat) ^ k < 2 ^ 64" using assms(2) by (intro power_strict_increasing) auto
  have turn: "turns ?s c = c" if "c < 2 ^ k" for c
    using that small by (simp add: conc_init_def turns_def new_LockFreeRingBuffer_def)
  have "tickets_ok (2 ^ k) 0 0 (turns ?s) (push_ticket \<circ> pcs ?s) (pop_ticket \<circ> pcs ?s)"
    by (auto simp: tickets_ok_def cell_free_def turn) (simp_all add: conc_init_def)
  moreover have "\<not> turns ?s (t mod 2 ^ k) = Suc t" for t
    using turn [of "t mod 2 ^ k"] by (metis Suc_n_not_le_n mod_less_eq_dividend mod_less_divisor zero_less_numeral zero_less_power)
  moreover have "pow2_capacity (ring ?s)" using assms cap by (auto simp: pow2_capacity_def)
  ultimately show ?thesis unfolding conc_inv_def cap
    by (simp add: data_ok_def delivered_ok_def) (simp add: conc_init_def new_LockFreeRingBuffer_def)
qed

lemma conc_reachable_inv:
  assumes "conc_reachable (2 ^ k) d s" "1 \<le> k" "k \<le> 62" "length (hist s) + 2 ^ k < 2 ^ 63"
  shows "conc_inv s \<and> capacity (ring s) = 2 ^ k"
  using assms(1,4)
proof (induction rule: conc_reachable.induct)
  case start
  show ?case using conc_inv_init [OF assms(2,3)]
    by (simp add: conc_init_def capacity_def new_LockFreeRingBuffer_def)
next
  case (step s t)
  then have "length (hist s) + 2 ^ k < 2 ^ 63" using conc_step_hist [of s t] by simp
  with step show ?case using conc_step_inv conc_step_capacity by metis
qed


section \<open>Properties\<close>

text \<open>C12. Whatever the interleaving of producers and consumers, items are handed out in the order their
  pushes won the producer cursor, each exactly once: the pop with ticket \<open>t\<close> receives the item of the
  \<open>t\<close>-th push, no ticket is served twice, every ticket not served yet is held by a thread about to read
  its cell, and at most \<open>Capacity\<close> pushes are ahead of the pops.\<close>

theorem concurrent_exactly_once_fifo:
  assumes "conc_reachable (2 ^ k) d s" "1 \<le> k" "k \<le> 62" "length (hist s) + 2 ^ k < 2 ^ 63"
  shows "(\<forall>t x. delivered s t = Some x \<longrightarrow> t < taken s \<and> x = hist s ! t)
    \<and> (\<forall>i pos. pcs s i = PopRead pos \<longrightarrow> delivered s (unat pos) = None)
    \<and> (\<forall>t < taken s. delivered s t = None \<longrightarrow> (\<exists>i pos. pcs s i = PopRead pos \<and> unat pos = t))
    \<and> taken s \<le> length (hist s) \<and> length (hist s) \<le> taken s + 2 ^ k"
proof -
  have inv: "conc_inv s" and C: "capacity (ring s) = 2 ^ k" using conc_reachable_inv [OF assms] by auto
  have "pcs s i = PopRead pos \<Longrightarrow> delivered s (unat pos) = None" for i pos
    using conc_invD(6) [OF inv, of i] by simp
  then show ?thesis
    using conc_invD(8) [OF inv] tickets_okD(1,2) [OF conc_invD(5) [OF inv]] C
    by (simp add: delivered_ok_def)
qed

text \<open>An undisturbed \<open>try_push\<close> on a cell whose turn has come, up to the won compare-exchange.\<close>

lemma run_push_claim:
  assumes r: "conc_reachable Capacity d s" and i: "pcs s i = Idle"
    and turn: "turn_of s (enqueue_pos (ring s)) = enqueue_pos (ring s)"
  shows "conc_reachable Capacity d ((goto s i (PushWrite x (enqueue_pos (ring s))))
    \<lparr>ring := (ring s)\<lparr>enqueue_pos := enqueue_pos (ring s) + 1\<rparr>, hist := hist s @ [x]\<rparr>)"
proof -
  let ?p = "enqueue_pos (ring s)"
  have "conc_reachable Capacity d (goto s i (PushLoad x))"
    using r i by (auto intro: conc_reachable.step call_push)
  then have "conc_reachable Capacity d (goto s i (PushTurn x ?p))"
    using push_load [of "goto s i (PushLoad x)" i x] by (auto elim: conc_reachable.step)
  then have "conc_reachable Capacity d (goto s i (PushCas x ?p))"
    using push_turn_match [of "goto s i (PushTurn x ?p)" i x ?p] turn
    by (auto elim: conc_reachable.step simp: turn_match)
  then show ?thesis
    using push_cas_won [of "goto s i (PushCas x ?p)" i x ?p] by (auto elim!: conc_reachable.step)
qed

text \<open>Two producers on a buffer of two cells, both between their compare-exchange and their write.\<close>

definition demo_conc :: "nat conc" where
  "demo_conc =
     \<lparr>ring = (new_LockFreeRingBuffer 2 0)\<lparr>enqueue_pos := 2\<rparr>,
      pcs = (\<lambda>_. Idle)(0 := PushWrite 5 0, 1 := PushWrite 6 1), hist = [5, 6], taken = 0,
      delivered = Map.empty\<rparr>"

lemma demo_conc_reachable: "conc_reachable (2 ^ 1) 0 demo_conc"
proof -
  have cells: "cells (ring (conc_init 2 0)) = [\<lparr>sequence = 0, data = 0\<rparr>, \<lparr>sequence = 1, data = 0\<rparr>]"
    by (simp add: conc_init_def new_LockFreeRingBuffer_def upt_rec)
  have "conc_reachable 2 (0 :: nat) ((goto (conc_init 2 0) 0 (PushWrite 5 0))
      \<lparr>ring := (ring (conc_init 2 0))\<lparr>enqueue_pos := 1\<rparr>, hist := [5]\<rparr>)"
    using run_push_claim [OF conc_reachable.start [of 2 "0 :: nat"], of 0 5] cells
    by (simp add: conc_init_def new_LockFreeRingBuffer_def cell_index_def)
  from run_push_claim [OF this, of 1 6] cells have "conc_reachable 2 0 demo_conc"
    by (simp add: demo_conc_def conc_init_def new_LockFreeRingBuffer_def cell_index_def kMask_def
        capacity_def)
  then show ?thesis by simp
qed

lemma demo_conc_simps [simp]: "hist demo_conc = [5, 6]"
    "pcs demo_conc 0 = PushWrite 5 0" "pcs demo_conc (Suc 0) = PushWrite 6 1" "taken demo_conc = 0"
  by (simp_all add: demo_conc_def)

theorem concurrent_exactly_once_fifo_witness:
  "conc_reachable (2 ^ 1) 0 demo_conc \<and> hist demo_conc = [5, 6] \<and> taken demo_conc \<le> length (hist demo_conc)"
  using concurrent_exactly_once_fifo [OF demo_conc_reachable] demo_conc_reachable by simp

text \<open>C23. No data race on a cell: while one thread is about to write or read a cell's data without
  synchronisation, no other thread is about to access the data of the same cell.\<close>

fun touches :: "'a pc \<Rightarrow> u64 option" where
  "touches (PushWrite x pos) = Some pos"
| "touches (PopRead pos) = Some pos"
| "touches _ = None"

lemma touches_ticket:
  "touches p = Some pos \<Longrightarrow> push_ticket p = Some (unat pos) \<or> pop_ticket p = Some (unat pos)"
  by (cases p) auto

theorem cell_access_exclusive:
  assumes "conc_reachable (2 ^ k) d s" "1 \<le> k" "k \<le> 62" "length (hist s) + 2 ^ k < 2 ^ 63"
    and "touches (pcs s i) = Some p" "touches (pcs s j) = Some q" "i \<noteq> j"
  shows "cell_index (ring s) p \<noteq> cell_index (ring s) q"
proof -
  have inv: "conc_inv s" using conc_reachable_inv [OF assms(1-4)] by auto
  note ok = conc_invD(5) [OF inv] and C = conc_invD(2) [OF inv]
  have "unat p mod capacity (ring s) \<noteq> unat q mod capacity (ring s)"
    using touches_ticket [OF assms(5)] touches_ticket [OF assms(6)] assms(7)
      ticket_cells_differ(1,2) [OF ok, of i "unat p" j "unat q"]
      ticket_cells_differ(3) [OF ok, of i "unat p" j "unat q"]
      ticket_cells_differ(3) [OF ok, of j "unat q" i "unat p"] C by auto
  then show ?thesis using cell_index_mod [OF conc_invD(1) [OF inv]] by simp
qed

theorem cell_access_exclusive_witness:
  "touches (pcs demo_conc 0) = Some 0 \<and> touches (pcs demo_conc 1) = Some 1
     \<and> cell_index (ring demo_conc) 0 \<noteq> cell_index (ring demo_conc) 1"
  using cell_access_exclusive [OF demo_conc_reachable, of 0 0 1 1] by simp

lemma mod_eq_below:
  fixes a b C :: nat
  assumes "a mod C = b mod C" "a < b"
  shows "a + C \<le> b"
  using assms by (metis add_leD2 le_add_diff_inverse less_imp_le_nat mod_eq_dvd_iff_nat dvd_imp_le
      add_le_cancel_left zero_less_diff)

lemma full_verdict:
  assumes ok: "tickets_ok C E D T P Q" and "0 < C" "p \<le> E" "T (p mod C) < p"
  shows "p = E \<and> C \<le> E \<and> (D \<le> E - C \<or> (\<exists>j. Q j = Some (E - C)))"
proof -
  have "p mod C < C" using assms(2) by simp
  from tickets_okD(3) [OF ok this] show ?thesis
  proof
    assume free: "cell_free C E D T P (p mod C)"
    then have "T (p mod C) + C \<le> p" using assms(4) by (intro mod_eq_below) (auto simp: cell_free_def)
    with free assms(3) have eq: "p = E" "T (p mod C) = E - C" "C \<le> E" by (auto simp: cell_free_def)
    with free assms(4) obtain j where "P j = Some (E - C)" by (auto simp: cell_free_def)
    with eq tickets_okD(4) [OF ok this] show ?thesis by simp
  next
    assume "cell_full C E D T Q (p mod C)"
    then obtain t where t: "T (p mod C) = Suc t" "t mod C = p mod C" "t < E" "E \<le> t + C"
      "t < D \<longrightarrow> (\<exists>i. Q i = Some t)"
      by (auto simp: cell_full_def)
    with assms(4) have "t + C \<le> p" by (intro mod_eq_below) auto
    with t assms(3) have "p = E" "t = E - C" "C \<le> E" by auto
    with t(5) show ?thesis by (auto simp: not_less)
  qed
qed

lemma empty_verdict:
  assumes ok: "tickets_ok C E D T P Q" and "0 < C" "p \<le> D" "T (p mod C) < Suc p"
  shows "p = D \<and> (D = E \<or> (\<exists>j. P j = Some D))"
proof -
  have c: "p mod C < C" using assms(2) by simp
  note DE = tickets_okD(1) [OF ok]
  from tickets_okD(3) [OF ok c] show ?thesis
  proof
    assume free: "cell_free C E D T P (p mod C)"
    have "T (p mod C) = p"
    proof (rule ccontr)
      assume "T (p mod C) \<noteq> p"
      then have lt: "T (p mod C) < p" using assms(4) by simp
      then have "T (p mod C) + C \<le> p" using free by (intro mod_eq_below) (auto simp: cell_free_def)
      with lt free DE assms(3) obtain j where "P j = Some (T (p mod C))" by (auto simp: cell_free_def)
      with tickets_okD(4) [OF ok this] lt assms(3) show False by simp
    qed
    with free DE assms(3) tickets_okD(4) [OF ok] show ?thesis
      unfolding cell_free_def by (metis le_antisym le_trans linorder_not_le)
  next
    assume "cell_full C E D T Q (p mod C)"
    then obtain t where t: "T (p mod C) = Suc t" "t mod C = p mod C" "E \<le> t + C"
      by (auto simp: cell_full_def)
    with assms(4) have "t + C \<le> p" by (intro mod_eq_below) auto
    with t assms(3) DE show ?thesis by auto
  qed
qed

text \<open>Refusals are justified. A push that reports a full buffer read the current producer cursor, and the
  cell it needs still belongs to the push \<open>Capacity\<close> tickets earlier, whose item has not been handed
  back by a pop. A pop that reports an empty buffer read the current consumer cursor, and there is no
  item or the oldest one is still being written by its producer.\<close>

theorem concurrent_refusals_justified:
  assumes "conc_reachable (2 ^ k) d s" "1 \<le> k" "k \<le> 62" "length (hist s) + 2 ^ k < 2 ^ 63"
  shows "(pcs s i = PushTurn x pos \<and> turn_diff (turn_of s pos) pos < 0 \<longrightarrow>
      pos = enqueue_pos (ring s) \<and> 2 ^ k \<le> length (hist s)
      \<and> (taken s \<le> length (hist s) - 2 ^ k \<or> (\<exists>j. pop_ticket (pcs s j) = Some (length (hist s) - 2 ^ k))))
    \<and> (pcs s i = PopTurn pos \<and> turn_diff (turn_of s pos) (pos + 1) < 0 \<longrightarrow>
      pos = dequeue_pos (ring s)
      \<and> (taken s = length (hist s) \<or> (\<exists>j. push_ticket (pcs s j) = Some (taken s))))"
proof (rule conjI; rule impI; elim conjE)
  have inv: "conc_inv s" and C: "capacity (ring s) = 2 ^ k" using conc_reachable_inv [OF assms] by auto
  note ok = conc_invD(5) [OF inv, unfolded C] and DE = tickets_okD(1) [OF conc_invD(5) [OF inv]]
  have T: "unat (turn_of s pos) = turns s (unat pos mod 2 ^ k)" using turn_of_eq [OF inv] C by simp
  moreover have "turns s (unat pos mod 2 ^ k) < 2 ^ 63"
    using turn_lt [OF ok, of "unat pos mod 2 ^ k"] assms(4) by auto
  ultimately have T63: "unat (turn_of s pos) < 2 ^ 63" by simp
  show "pos = enqueue_pos (ring s) \<and> 2 ^ k \<le> length (hist s)
      \<and> (taken s \<le> length (hist s) - 2 ^ k \<or> (\<exists>j. pop_ticket (pcs s j) = Some (length (hist s) - 2 ^ k)))"
    if pc: "pcs s i = PushTurn x pos" and lt: "turn_diff (turn_of s pos) pos < 0"
  proof -
    have p: "unat pos \<le> length (hist s)" using conc_invD(6) [OF inv, of i] pc by simp
    then have "unat pos < 2 ^ 63" using assms(4) by linarith
    then have "turns s (unat pos mod 2 ^ k) < unat pos"
      using lt small_diff [OF T63, of pos] unfolding T by linarith
    from full_verdict [OF ok _ p this] have "unat pos = unat (enqueue_pos (ring s))"
      "2 ^ k \<le> length (hist s)" "taken s \<le> length (hist s) - 2 ^ k \<or>
        (\<exists>j. pop_ticket (pcs s j) = Some (length (hist s) - 2 ^ k))"
      using conc_invD(3) [OF inv] by auto
    then show ?thesis by (simp add: unsigned_word_eqI)
  qed
  show "pos = dequeue_pos (ring s)
      \<and> (taken s = length (hist s) \<or> (\<exists>j. push_ticket (pcs s j) = Some (taken s)))"
    if pc: "pcs s i = PopTurn pos" and lt: "turn_diff (turn_of s pos) (pos + 1) < 0"
  proof -
    have p: "unat pos \<le> taken s" using conc_invD(6) [OF inv, of i] pc by simp
    with DE assms(4) have n: "unat (pos + 1) = Suc (unat pos)" by (simp add: unat_word_ariths)
    have "Suc (unat pos) < 2 ^ 63" using p DE assms(4) one_le_power [of "2::nat" k] by linarith
    then have "turns s (unat pos mod 2 ^ k) < Suc (unat pos)"
      using lt small_diff [OF T63, of "pos + 1"] unfolding T n by linarith
    from empty_verdict [OF ok _ p this] have "unat pos = unat (dequeue_pos (ring s))"
      "taken s = length (hist s) \<or> (\<exists>j. push_ticket (pcs s j) = Some (taken s))"
      using conc_invD(4) [OF inv] by auto
    then show ?thesis by (simp add: unsigned_word_eqI)
  qed
qed

text \<open>A third thread of the same run asks for an item before either producer has published.\<close>

theorem concurrent_refusals_justified_witness:
  "conc_reachable (2 ^ 1) 0 (goto demo_conc 2 (PopTurn 0))
     \<and> turn_diff (turn_of (goto demo_conc 2 (PopTurn 0)) 0) (0 + 1) < 0
     \<and> (\<exists>j. push_ticket (pcs (goto demo_conc 2 (PopTurn 0)) j) = Some 0)"
proof -
  let ?s = "goto demo_conc 2 (PopTurn 0)"
  have "conc_reachable (2 ^ 1) 0 (goto demo_conc 2 PopLoad)"
    using demo_conc_reachable by (rule conc_reachable.step) (rule call_pop, simp add: demo_conc_def)
  then have r: "conc_reachable (2 ^ 1) 0 ?s"
    using pop_load [of "goto demo_conc 2 PopLoad" 2]
    by (auto elim!: conc_reachable.step simp: demo_conc_def new_LockFreeRingBuffer_def)
  have lt: "turn_diff (turn_of ?s 0) (0 + 1) < 0"
    by (simp add: demo_conc_def new_LockFreeRingBuffer_def cell_index_def turn_diff_def upt_rec)
  from concurrent_refusals_justified [OF r, of 2 _ 0] lt r show ?thesis by simp
qed

end
