(* ===== verification/Serialization.thy ===== *)
theory Serialization
  imports Prelude
begin

text \<open>
  Tokens and results of the routing layer (\<open>src/orchestration/routed_token.hpp\<close>) and their binary encoding
  (\<open>src/orchestration/serialization.hpp\<close>). Integers are copied in host byte order, little-endian on the
  machines the project targets; a \<open>float\<close> is its 32-bit pattern. A \<open>Reader\<close> is the list of bytes between
  its two pointers.
\<close>

section \<open>Model\<close>

record RoutedToken =
  token_id :: u64
  batch_position :: u32
  primary_expert :: u32
  secondary_expert :: u32
  payload :: "u32 list"

record RoutedResult =
  r_token_id :: u64
  r_batch_position :: u32
  processed_by_shard :: u32
  effective_expert :: u32
  r_payload :: "u32 list"
  failed :: bool
  failure_reason :: string

text \<open>The bytes of a word in memory, and the word they make.\<close>

fun le_bytes :: "nat \<Rightarrow> 'a :: len word \<Rightarrow> u8 list" where
  "le_bytes 0 v = []"
| "le_bytes (Suc k) v = ucast v # le_bytes k (drop_bit 8 v)"

fun le_word :: "u8 list \<Rightarrow> 'a :: len word" where
  "le_word [] = 0"
| "le_word (b # bs) = ucast b OR push_bit 8 (le_word bs)"

definition put_u32 :: "u8 list \<Rightarrow> u32 \<Rightarrow> u8 list" where
  "put_u32 buf v = buf @ le_bytes 4 v"

definition put_u64 :: "u8 list \<Rightarrow> u64 \<Rightarrow> u8 list" where
  "put_u64 buf v = buf @ le_bytes 8 v"

definition put_floats :: "u8 list \<Rightarrow> u32 list \<Rightarrow> u8 list" where
  "put_floats buf v =
     (let buf = put_u32 buf (word_of_nat (length v))
      in if v \<noteq> [] then buf @ concat (map (le_bytes 4) v) else buf)"

definition truncated :: cpp_exn where
  "truncated = RuntimeError ''serialization: truncated message (framing bug)''"

definition get_u32 :: "u8 list \<Rightarrow> cpp_exn + u32 \<times> u8 list" where
  "get_u32 r = (if length r < 4 then Inl truncated else Inr (le_word (take 4 r), drop 4 r))"

definition get_u64 :: "u8 list \<Rightarrow> cpp_exn + u64 \<times> u8 list" where
  "get_u64 r = (if length r < 8 then Inl truncated else Inr (le_word (take 8 r), drop 8 r))"

fun words_of_bytes :: "nat \<Rightarrow> u8 list \<Rightarrow> u32 list" where
  "words_of_bytes 0 bs = []"
| "words_of_bytes (Suc n) bs = le_word (take 4 bs) # words_of_bytes n (drop 4 bs)"

definition get_floats :: "u8 list \<Rightarrow> cpp_exn + u32 list \<times> u8 list" where
  "get_floats r =
     (case get_u32 r of
        Inl e \<Rightarrow> Inl e
      | Inr (n, r1) \<Rightarrow>
          if length r1 < unat n * 4 then Inl truncated
          else Inr (words_of_bytes (unat n) r1, drop (unat n * 4) r1))"

definition encode_token :: "u8 list \<Rightarrow> RoutedToken \<Rightarrow> u8 list" where
  "encode_token buf t =
     put_floats (put_u32 (put_u32 (put_u32 (put_u64 buf (token_id t)) (batch_position t))
       (primary_expert t)) (secondary_expert t)) (payload t)"

definition encode_token_batch :: "RoutedToken list \<Rightarrow> u8 list" where
  "encode_token_batch tokens = foldl encode_token (put_u32 [] (word_of_nat (length tokens))) tokens"

definition decode_token :: "u8 list \<Rightarrow> cpp_exn + RoutedToken \<times> u8 list" where
  "decode_token r0 =
     (case get_u64 r0 of Inl e \<Rightarrow> Inl e | Inr (i, r1) \<Rightarrow>
     (case get_u32 r1 of Inl e \<Rightarrow> Inl e | Inr (pos, r2) \<Rightarrow>
     (case get_u32 r2 of Inl e \<Rightarrow> Inl e | Inr (p, r3) \<Rightarrow>
     (case get_u32 r3 of Inl e \<Rightarrow> Inl e | Inr (s, r4) \<Rightarrow>
     (case get_floats r4 of Inl e \<Rightarrow> Inl e | Inr (v, r5) \<Rightarrow>
        Inr (\<lparr>token_id = i, batch_position = pos, primary_expert = p, secondary_expert = s, payload = v\<rparr>, r5))))))"

fun decode_tokens :: "nat \<Rightarrow> u8 list \<Rightarrow> RoutedToken list \<Rightarrow> cpp_exn + RoutedToken list \<times> u8 list" where
  "decode_tokens 0 r out = Inr (out, r)"
| "decode_tokens (Suc n) r out =
     (case decode_token r of Inl e \<Rightarrow> Inl e | Inr (t, r') \<Rightarrow> decode_tokens n r' (out @ [t]))"

definition decode_token_batch :: "u8 list \<Rightarrow> cpp_exn + RoutedToken list" where
  "decode_token_batch bytes =
     (case get_u32 bytes of
        Inl e \<Rightarrow> Inl e
      | Inr (cnt, r) \<Rightarrow>
          (case decode_tokens (unat cnt) r [] of Inl e \<Rightarrow> Inl e | Inr (out, r') \<Rightarrow> Inr out))"

definition encode_result :: "u8 list \<Rightarrow> RoutedResult \<Rightarrow> u8 list" where
  "encode_result buf x =
     put_floats (put_u32 (put_u32 (put_u64 buf (r_token_id x)) (r_batch_position x))
       (processed_by_shard x)) (r_payload x)"

definition encode_result_batch :: "RoutedResult list \<Rightarrow> u8 list" where
  "encode_result_batch results = foldl encode_result (put_u32 [] (word_of_nat (length results))) results"

text \<open>A decoded result has the default values in the fields that are not sent.\<close>

definition decode_result :: "u8 list \<Rightarrow> cpp_exn + RoutedResult \<times> u8 list" where
  "decode_result r0 =
     (case get_u64 r0 of Inl e \<Rightarrow> Inl e | Inr (i, r1) \<Rightarrow>
     (case get_u32 r1 of Inl e \<Rightarrow> Inl e | Inr (pos, r2) \<Rightarrow>
     (case get_u32 r2 of Inl e \<Rightarrow> Inl e | Inr (sh, r3) \<Rightarrow>
     (case get_floats r3 of Inl e \<Rightarrow> Inl e | Inr (v, r4) \<Rightarrow>
        Inr (\<lparr>r_token_id = i, r_batch_position = pos, processed_by_shard = sh, effective_expert = 0,
              r_payload = v, failed = False, failure_reason = ''''\<rparr>, r4)))))"

fun decode_results :: "nat \<Rightarrow> u8 list \<Rightarrow> RoutedResult list \<Rightarrow> cpp_exn + RoutedResult list \<times> u8 list" where
  "decode_results 0 r out = Inr (out, r)"
| "decode_results (Suc n) r out =
     (case decode_result r of Inl e \<Rightarrow> Inl e | Inr (x, r') \<Rightarrow> decode_results n r' (out @ [x]))"

definition decode_result_batch :: "u8 list \<Rightarrow> cpp_exn + RoutedResult list" where
  "decode_result_batch bytes =
     (case get_u32 bytes of
        Inl e \<Rightarrow> Inl e
      | Inr (cnt, r) \<Rightarrow>
          (case decode_results (unat cnt) r [] of Inl e \<Rightarrow> Inl e | Inr (out, r') \<Rightarrow> Inr out))"

section \<open>Bytes\<close>

lemma length_le_bytes [simp]: "length (le_bytes k v) = k"
  by (induction k arbitrary: v) auto

lemma le_word_le_bytes: "le_word (le_bytes k v) = take_bit (8 * k) v"
proof (induction k arbitrary: v)
  case (Suc k)
  show ?case
    by (rule bit_word_eqI) (auto simp: Suc bit_simps)
qed simp

lemma bit_le_word_bound: "bit (le_word bs :: 'a :: len word) n \<Longrightarrow> n < 8 * length bs"
proof (induction bs arbitrary: n)
  case (Cons b bs)
  have "n < 8 \<or> n - 8 < 8 * length bs"
    using Cons by (auto simp: bit_simps dest: bit_imp_le_length)
  then show ?case by auto
qed simp

lemma le_bytes_le_word:
  assumes "8 * length bs \<le> LENGTH('a)"
  shows "le_bytes (length bs) (le_word bs :: 'a :: len word) = bs"
  using assms
proof (induction bs)
  case (Cons b bs)
  have len: "8 + 8 * length bs \<le> LENGTH('a)" using Cons.prems by simp
  have "ucast (le_word (b # bs) :: 'a word) = b"
    using len by (intro bit_word_eqI) (auto simp: bit_simps)
  moreover have "drop_bit 8 (le_word (b # bs) :: 'a word) = le_word bs"
  proof (rule bit_word_eqI)
    fix n assume "n < LENGTH('a)"
    show "bit (drop_bit 8 (le_word (b # bs) :: 'a word)) n \<longleftrightarrow> bit (le_word bs :: 'a word) n"
      using len bit_le_word_bound [of bs n, where 'a = 'a] by (auto simp: bit_simps dest: bit_imp_le_length)
  qed
  ultimately show ?case using Cons by simp
qed simp

lemma le_bytes_take:
  "4 \<le> length r \<Longrightarrow> le_bytes 4 (le_word (take 4 r) :: u32) = take 4 r"
  "8 \<le> length r \<Longrightarrow> le_bytes 8 (le_word (take 8 r) :: u64) = take 8 r"
  using le_bytes_le_word [of "take 4 r", where 'a = 32] le_bytes_le_word [of "take 8 r", where 'a = 64]
  by (simp_all add: min_absorb2)

section \<open>Codecs\<close>

text \<open>A codec writes values that are \<open>ok\<close> and reads them back, whatever follows; it reads nothing but what
  it would have written; and the only error is a truncated message.\<close>

locale codec =
  fixes put :: "u8 list \<Rightarrow> 'a \<Rightarrow> u8 list" and get :: "u8 list \<Rightarrow> cpp_exn + 'a \<times> u8 list" and ok :: "'a \<Rightarrow> bool"
  assumes put_append: "put buf x = buf @ put [] x"
    and get_put: "ok x \<Longrightarrow> get (put [] x @ rest) = Inr (x, rest)"
    and put_get: "get r = Inr (x, rest) \<Longrightarrow> r = put [] x @ rest \<and> ok x"
    and get_error: "get r = Inl e \<Longrightarrow> e = truncated"
begin

lemma foldl_put: "foldl put buf xs = buf @ concat (map (put []) xs)"
proof (induction xs arbitrary: buf)
  case (Cons x xs)
  then show ?case using put_append [of buf x] by simp
qed simp

text \<open>A loop that reads a given number of values.\<close>

lemma loop_put:
  assumes zero: "\<And>r out. loop 0 r out = Inr (out, r)"
    and suc: "\<And>n r out. loop (Suc n) r out = (case get r of Inl e \<Rightarrow> Inl e | Inr (x, r') \<Rightarrow> loop n r' (out @ [x]))"
    and "list_all ok xs"
  shows "loop (length xs) (concat (map (put []) xs) @ rest) out = Inr (out @ xs, rest)"
  using assms(3) by (induction xs arbitrary: out) (auto simp: zero suc get_put)

lemma loop_get:
  assumes zero: "\<And>r out. loop 0 r out = Inr (out, r)"
    and suc: "\<And>n r out. loop (Suc n) r out = (case get r of Inl e \<Rightarrow> Inl e | Inr (x, r') \<Rightarrow> loop n r' (out @ [x]))"
    and "loop n r out = Inr (ys, rest)"
  shows "\<exists>xs. ys = out @ xs \<and> length xs = n \<and> list_all ok xs \<and> r = concat (map (put []) xs) @ rest"
  using assms(3)
proof (induction n arbitrary: r out)
  case 0
  then show ?case by (simp add: zero)
next
  case (Suc n)
  then obtain x r' where x: "get r = Inr (x, r')" "loop n r' (out @ [x]) = Inr (ys, rest)"
    by (auto simp: suc split: sum.splits)
  from Suc.IH [OF x(2)] obtain xs where "ys = (out @ [x]) @ xs" "length xs = n" "list_all ok xs"
    "r' = concat (map (put []) xs) @ rest" by blast
  with put_get [OF x(1)] show ?case by (intro exI [of _ "x # xs"]) simp
qed

lemma loop_error:
  assumes zero: "\<And>r out. loop 0 r out = Inr (out, r)"
    and suc: "\<And>n r out. loop (Suc n) r out = (case get r of Inl e \<Rightarrow> Inl e | Inr (x, r') \<Rightarrow> loop n r' (out @ [x]))"
    and "loop n r out = Inl e"
  shows "e = truncated"
  using assms(3) by (induction n arbitrary: r out) (auto simp: zero suc get_error split: sum.splits)

end

lemma take_bit_32 [simp]: "take_bit 32 (v :: u32) = v" and take_bit_64 [simp]: "take_bit 64 (w :: u64) = w"
  by (simp_all add: take_bit_word_eq_self)

interpretation u32: codec put_u32 get_u32 "\<lambda>_. True"
proof
  fix buf r rest :: "u8 list" and x :: u32 and e
  show "put_u32 buf x = buf @ put_u32 [] x" by (simp add: put_u32_def)
  show "get_u32 (put_u32 [] x @ rest) = Inr (x, rest)" by (simp add: get_u32_def put_u32_def le_word_le_bytes)
  show "r = put_u32 [] x @ rest \<and> True" if "get_u32 r = Inr (x, rest)"
    using that by (auto simp: get_u32_def put_u32_def le_bytes_take split: if_splits)
  show "e = truncated" if "get_u32 r = Inl e" using that by (simp add: get_u32_def split: if_splits)
qed

interpretation u64: codec put_u64 get_u64 "\<lambda>_. True"
proof
  fix buf r rest :: "u8 list" and x :: u64 and e
  show "put_u64 buf x = buf @ put_u64 [] x" by (simp add: put_u64_def)
  show "get_u64 (put_u64 [] x @ rest) = Inr (x, rest)" by (simp add: get_u64_def put_u64_def le_word_le_bytes)
  show "r = put_u64 [] x @ rest \<and> True" if "get_u64 r = Inr (x, rest)"
    using that by (auto simp: get_u64_def put_u64_def le_bytes_take split: if_splits)
  show "e = truncated" if "get_u64 r = Inl e" using that by (simp add: get_u64_def split: if_splits)
qed

lemma length_concat_le_bytes: "length (concat (map (le_bytes 4) v)) = length v * 4"
  by (induction v) auto

lemma words_of_bytes_concat: "words_of_bytes (length v) (concat (map (le_bytes 4) v) @ rest) = v"
  by (induction v) (auto simp: le_word_le_bytes)

lemma concat_words_of_bytes:
  "n * 4 \<le> length bs \<Longrightarrow> concat (map (le_bytes 4) (words_of_bytes n bs)) = take (n * 4) bs \<and> length (words_of_bytes n bs) = n"
proof (induction n arbitrary: bs)
  case (Suc n)
  have "le_bytes 4 (le_word (take 4 bs) :: u32) = take 4 bs"
    using Suc.prems by (simp add: le_bytes_take)
  with Suc show ?case by (simp add: take_add [of 4 "n * 4" bs, symmetric] add.commute)
qed simp

lemma put_floats_eq: "put_floats buf v = buf @ le_bytes 4 (word_of_nat (length v) :: u32) @ concat (map (le_bytes 4) v)"
  by (simp add: put_floats_def put_u32_def Let_def)

interpretation floats: codec put_floats get_floats "\<lambda>v. length v < 2 ^ 32"
proof
  fix buf r rest :: "u8 list" and x :: "u32 list" and e
  show "put_floats buf x = buf @ put_floats [] x" by (simp add: put_floats_eq)
  show "get_floats (put_floats [] x @ rest) = Inr (x, rest)" if "length x < 2 ^ 32"
    using that u32.get_put [of "word_of_nat (length x)" "concat (map (le_bytes 4) x) @ rest"]
    by (simp add: get_floats_def put_floats_eq put_u32_def words_of_bytes_concat length_concat_le_bytes)
  show "r = put_floats [] x @ rest \<and> length x < 2 ^ 32" if g: "get_floats r = Inr (x, rest)"
  proof -
    obtain n r1 where n: "get_u32 r = Inr (n, r1)" "\<not> length r1 < unat n * 4" "x = words_of_bytes (unat n) r1"
      "rest = drop (unat n * 4) r1"
      using g by (auto simp: get_floats_def split: sum.splits if_splits)
    have "concat (map (le_bytes 4) x) = take (unat n * 4) r1" "length x = unat n"
      using concat_words_of_bytes [of "unat n" r1] n(2,3) by auto
    moreover have "unat n < 2 ^ 32" using unsigned_less [of n] by simp
    moreover have "r = le_bytes 4 n @ r1" using u32.put_get [OF n(1)] by (simp add: put_u32_def)
    ultimately show ?thesis using n(4) by (simp add: put_floats_eq)
  qed
  show "e = truncated" if "get_floats r = Inl e"
    using that u32.get_error by (auto simp: get_floats_def split: sum.splits if_splits)
qed

section \<open>Batches\<close>

text \<open>A batch is a count followed by that many values, read by a loop.\<close>

locale batch_codec = codec put get ok
  for put :: "u8 list \<Rightarrow> 'a \<Rightarrow> u8 list" and get :: "u8 list \<Rightarrow> cpp_exn + 'a \<times> u8 list" and ok :: "'a \<Rightarrow> bool" +
  fixes loop :: "nat \<Rightarrow> u8 list \<Rightarrow> 'a list \<Rightarrow> cpp_exn + 'a list \<times> u8 list"
    and enc :: "'a list \<Rightarrow> u8 list" and dec :: "u8 list \<Rightarrow> cpp_exn + 'a list"
  assumes loop_zero: "loop 0 r out = Inr (out, r)"
    and loop_suc: "loop (Suc n) r out = (case get r of Inl e \<Rightarrow> Inl e | Inr (x, r') \<Rightarrow> loop n r' (out @ [x]))"
    and enc_eq: "enc xs = foldl put (put_u32 [] (word_of_nat (length xs))) xs"
    and dec_eq: "dec bs = (case get_u32 bs of Inl e \<Rightarrow> Inl e | Inr (cnt, r) \<Rightarrow>
          (case loop (unat cnt) r [] of Inl e \<Rightarrow> Inl e | Inr (out, r') \<Rightarrow> Inr out))"
begin

lemmas loop_put' = loop_put [of loop, OF loop_zero loop_suc]
lemmas loop_get' = loop_get [of loop, OF loop_zero loop_suc]
lemmas loop_error' = loop_error [of loop, OF loop_zero loop_suc]

lemma enc_split: "enc xs = put_u32 [] (word_of_nat (length xs)) @ concat (map (put []) xs)"
  by (simp add: enc_eq foldl_put)

lemma batch_roundtrip:
  assumes "length xs < 2 ^ 32" "list_all ok xs"
  shows "dec (enc xs @ rest) = Inr xs"
  using loop_put' [OF assms(2), of rest "[]"] assms(1) by (simp add: enc_split dec_eq u32.get_put)

lemma batch_canonical:
  assumes "dec bs = Inr xs"
  shows "length xs < 2 ^ 32 \<and> list_all ok xs \<and> (\<exists>rest. bs = enc xs @ rest)"
proof -
  obtain cnt r r' where c: "get_u32 bs = Inr (cnt, r)" "loop (unat cnt) r [] = Inr (xs, r')"
    using assms by (auto simp: dec_eq split: sum.splits)
  have xs: "length xs = unat cnt" "list_all ok xs" "r = concat (map (put []) xs) @ r'" using loop_get' [OF c(2)] by auto
  have "unat cnt < 2 ^ 32" using unsigned_less [of cnt] by simp
  moreover have "bs = enc xs @ r'" using u32.put_get [OF c(1)] xs by (simp add: enc_split)
  ultimately show ?thesis using xs by auto
qed

lemma batch_error: "dec bs = Inl e \<Longrightarrow> e = truncated"
  using u32.get_error loop_error' by (auto simp: dec_eq split: sum.splits)

lemma batch_prefix:
  assumes "length xs < 2 ^ 32" "list_all ok xs" "n < length (enc xs)"
  shows "dec (take n (enc xs)) = Inl truncated"
proof (cases "dec (take n (enc xs))")
  case (Inl e)
  then show ?thesis using batch_error by simp
next
  case (Inr ys)
  then obtain rest where ys: "length ys < 2 ^ 32" "list_all ok ys" "take n (enc xs) = enc ys @ rest"
    using batch_canonical by blast
  then have "enc xs = enc ys @ (rest @ drop n (enc xs))" by (metis append.assoc append_take_drop_id)
  then have "dec (enc xs) = Inr ys" using batch_roundtrip [OF ys(1,2), of "rest @ drop n (enc xs)"] by simp
  then have "xs = ys" using batch_roundtrip [OF assms(1,2), of "[]"] by simp
  moreover have "n = length (enc ys) + length rest" using arg_cong [OF ys(3), of length] assms(3) by simp
  ultimately show ?thesis using assms(3) by simp
qed

end

lemma encode_token_eq:
  "encode_token buf t = buf @ put_u64 [] (token_id t) @ put_u32 [] (batch_position t) @ put_u32 [] (primary_expert t)
     @ put_u32 [] (secondary_expert t) @ put_floats [] (payload t)"
  by (simp add: encode_token_def put_u32_def put_u64_def put_floats_eq)

lemma encode_result_eq:
  "encode_result buf x = buf @ put_u64 [] (r_token_id x) @ put_u32 [] (r_batch_position x)
     @ put_u32 [] (processed_by_shard x) @ put_floats [] (r_payload x)"
  by (simp add: encode_result_def put_u32_def put_u64_def put_floats_eq)

lemmas get_put_simps = u32.get_put u64.get_put floats.get_put

interpretation token: batch_codec encode_token decode_token "\<lambda>t. length (payload t) < 2 ^ 32"
  decode_tokens encode_token_batch decode_token_batch
proof
  fix buf r rest :: "u8 list" and x :: RoutedToken and e
  show "encode_token buf x = buf @ encode_token [] x" by (simp add: encode_token_eq)
  show "decode_token (encode_token [] x @ rest) = Inr (x, rest)" if "length (payload x) < 2 ^ 32"
    using that by (simp add: encode_token_eq decode_token_def get_put_simps)
  show "r = encode_token [] x @ rest \<and> length (payload x) < 2 ^ 32" if "decode_token r = Inr (x, rest)"
    using that by (auto simp: decode_token_def encode_token_eq split: sum.splits
        dest!: u32.put_get u64.put_get floats.put_get)
  show "e = truncated" if "decode_token r = Inl e"
    using that by (auto simp: decode_token_def split: sum.splits) (erule u64.get_error u32.get_error floats.get_error)+
qed (simp_all add: encode_token_batch_def decode_token_batch_def)

text \<open>What of a result travels.\<close>

definition on_wire :: "RoutedResult \<Rightarrow> bool" where
  "on_wire x \<longleftrightarrow> length (r_payload x) < 2 ^ 32 \<and> effective_expert x = 0 \<and> \<not> failed x \<and> failure_reason x = []"

interpretation result: batch_codec encode_result decode_result on_wire
  decode_results encode_result_batch decode_result_batch
proof
  fix buf r rest :: "u8 list" and x :: RoutedResult and e
  show "encode_result buf x = buf @ encode_result [] x" by (simp add: encode_result_eq)
  show "decode_result (encode_result [] x @ rest) = Inr (x, rest)" if "on_wire x"
    using that by (simp add: encode_result_eq decode_result_def get_put_simps on_wire_def)
  show "r = encode_result [] x @ rest \<and> on_wire x" if "decode_result r = Inr (x, rest)"
    using that by (auto simp: decode_result_def encode_result_eq on_wire_def split: sum.splits
        dest!: u32.put_get u64.put_get floats.put_get)
  show "e = truncated" if "decode_result r = Inl e"
    using that by (auto simp: decode_result_def split: sum.splits) (erule u64.get_error u32.get_error floats.get_error)+
qed (simp_all add: encode_result_batch_def decode_result_batch_def)

section \<open>Properties\<close>

definition wire :: "RoutedResult \<Rightarrow> RoutedResult" where
  "wire x = x\<lparr>effective_expert := 0, failed := False, failure_reason := []\<rparr>"

lemma encode_result_wire: "encode_result_batch (map wire xs) = encode_result_batch xs"
proof -
  have "encode_result buf (wire x) = encode_result buf x" for buf x by (simp add: encode_result_def wire_def)
  then have "foldl encode_result buf (map wire xs) = foldl encode_result buf xs" for buf
    by (induction xs arbitrary: buf) simp_all
  then show ?thesis by (simp add: encode_result_batch_def)
qed

text \<open>C39. A batch of tokens survives the wire: decoding what was encoded, even with bytes after it, gives
  exactly the tokens back, for fewer than \<open>2^32\<close> tokens with payloads of fewer than \<open>2^32\<close> floats (the
  counts are sent as 32-bit integers); and any message cut short is rejected as truncated, never decoded to
  something else.\<close>

theorem token_batch_roundtrip:
  assumes "length ts < 2 ^ 32" "\<forall>t \<in> set ts. length (payload t) < 2 ^ 32"
  shows "decode_token_batch (encode_token_batch ts @ rest) = Inr ts
    \<and> (\<forall>n. n < length (encode_token_batch ts) \<longrightarrow> decode_token_batch (take n (encode_token_batch ts)) = Inl truncated)"
  using token.batch_roundtrip [OF assms(1), of rest] token.batch_prefix [OF assms(1)] assms(2)
  by (simp add: list_all_iff)

definition demo_token :: RoutedToken where
  "demo_token = \<lparr>token_id = 70000, batch_position = 3, primary_expert = 1, secondary_expert = 2, payload = [1065353216, 5]\<rparr>"

theorem token_batch_roundtrip_witness:
  "decode_token_batch (encode_token_batch [demo_token]) = Inr [demo_token]
     \<and> decode_token_batch (take 7 (encode_token_batch [demo_token])) = Inl truncated"
proof -
  have "7 < length (encode_token_batch [demo_token])"
    by (simp add: encode_token_batch_def encode_token_def put_u32_def put_u64_def put_floats_def demo_token_def)
  then show ?thesis
    using token_batch_roundtrip [of "[demo_token]" "[]"] by (simp add: demo_token_def)
qed

text \<open>A batch of results survives the wire up to the three fields that are never sent: they come back with
  their default values.\<close>

theorem result_batch_roundtrip:
  assumes "length xs < 2 ^ 32" "\<forall>x \<in> set xs. length (r_payload x) < 2 ^ 32"
  shows "decode_result_batch (encode_result_batch xs @ rest)
    = Inr (map (\<lambda>x. x\<lparr>effective_expert := 0, failed := False, failure_reason := []\<rparr>) xs)"
proof -
  have "list_all on_wire (map wire xs)" using assms(2) by (simp add: list_all_iff on_wire_def wire_def)
  then have "decode_result_batch (encode_result_batch (map wire xs) @ rest) = Inr (map wire xs)"
    using assms(1) by (intro result.batch_roundtrip) simp_all
  then show ?thesis unfolding encode_result_wire by (simp add: wire_def [abs_def])
qed

theorem result_batch_roundtrip_witness:
  "decode_result_batch (encode_result_batch [\<lparr>r_token_id = 1, r_batch_position = 0, processed_by_shard = 2,
      effective_expert = 9, r_payload = [7], failed = True, failure_reason = ''x''\<rparr>])
    = Inr [\<lparr>r_token_id = 1, r_batch_position = 0, processed_by_shard = 2, effective_expert = 0, r_payload = [7],
      failed = False, failure_reason = []\<rparr>]"
  using result_batch_roundtrip [of "[\<lparr>r_token_id = 1, r_batch_position = 0, processed_by_shard = 2,
      effective_expert = 9, r_payload = [7], failed = True, failure_reason = ''x''\<rparr>]" "[]"] by simp

text \<open>The decoders accept only what the encoders write: whatever bytes arrive, a decoded batch re-encodes
  to the bytes that were read, and the only error is the truncation error.\<close>

theorem decoders_are_strict:
  "(case decode_token_batch bs of
      Inl e \<Rightarrow> e = truncated
    | Inr ts \<Rightarrow> bs = encode_token_batch ts @ drop (length (encode_token_batch ts)) bs)
   \<and> (case decode_result_batch bs of
      Inl e \<Rightarrow> e = truncated
    | Inr xs \<Rightarrow> bs = encode_result_batch xs @ drop (length (encode_result_batch xs)) bs)"
proof
  show "case decode_token_batch bs of Inl e \<Rightarrow> e = truncated
      | Inr ts \<Rightarrow> bs = encode_token_batch ts @ drop (length (encode_token_batch ts)) bs"
    using token.batch_error [of bs] token.batch_canonical [of bs] by (fastforce split: sum.split)
  show "case decode_result_batch bs of Inl e \<Rightarrow> e = truncated
      | Inr xs \<Rightarrow> bs = encode_result_batch xs @ drop (length (encode_result_batch xs)) bs"
    using result.batch_error [of bs] result.batch_canonical [of bs] by (fastforce split: sum.split)
qed

end
