(* ===== verification/Transport.thy ===== *)
theory Transport
  imports Serialization
begin

text \<open>
  Length-framed messages over a stream socket (\<open>src/orchestration/unix_socket_transport.hpp\<close>, the interface
  is \<open>collective_transport.hpp\<close>).

  A connection holds the bytes still to be read (all that the peer writes before it closes), the bytes
  written, and for each direction the way the kernel answers the next system calls: it transfers at most so
  many bytes (at least one), is interrupted (\<open>EINTR\<close>), or fails with another error. When that list is
  exhausted, a call transfers as much as it can. A read at the end of the stream returns 0.
\<close>

section \<open>Model\<close>

datatype io_event = Chunk nat | Interrupted | Failed string

record Conn =
  incoming :: "u8 list"
  read_script :: "io_event list"
  outgoing :: "u8 list"
  write_script :: "io_event list"

datatype 'a syscall = Done 'a | EINTR | Error string

text \<open>How many bytes the next call may move, and the script after it.\<close>

definition next_event :: "io_event list \<Rightarrow> nat \<Rightarrow> nat syscall \<times> io_event list" where
  "next_event script n =
     (case script of
        [] \<Rightarrow> (Done n, [])
      | Chunk k # es \<Rightarrow> (Done (min (Suc k) n), es)
      | Interrupted # es \<Rightarrow> (EINTR, es)
      | Failed msg # es \<Rightarrow> (Error msg, es))"

definition sys_read :: "Conn \<Rightarrow> nat \<Rightarrow> u8 list syscall \<times> Conn" where
  "sys_read c n =
     (let (r, es) = next_event (read_script c) n; c' = c\<lparr>read_script := es\<rparr>
      in case r of
           Done m \<Rightarrow> (Done (take m (incoming c)), c'\<lparr>incoming := drop m (incoming c)\<rparr>)
         | EINTR \<Rightarrow> (EINTR, c')
         | Error msg \<Rightarrow> (Error msg, c'))"

definition sys_write :: "Conn \<Rightarrow> u8 list \<Rightarrow> nat syscall \<times> Conn" where
  "sys_write c bytes =
     (let (r, es) = next_event (write_script c) (length bytes); c' = c\<lparr>write_script := es\<rparr>
      in case r of
           Done m \<Rightarrow> (Done m, c'\<lparr>outgoing := outgoing c @ take m bytes\<rparr>)
         | EINTR \<Rightarrow> (EINTR, c')
         | Error msg \<Rightarrow> (Error msg, c'))"

text \<open>\<open>for (int i = 7; i >= 0; --i) { out[i] = v & 0xFF; v >>= 8; }\<close>\<close>

fun encode_length_loop :: "nat \<Rightarrow> u64 \<Rightarrow> u8 list \<Rightarrow> u8 list" where
  "encode_length_loop 0 v out = out"
| "encode_length_loop (Suc i) v out = encode_length_loop i (drop_bit 8 v) (out[i := ucast (v AND 0xFF)])"

definition encode_length :: "nat \<Rightarrow> u8 list" where
  "encode_length len = encode_length_loop 8 (word_of_nat len) (replicate 8 0)"

definition decode_length :: "u8 list \<Rightarrow> u64" where
  "decode_length hdr = foldl (\<lambda>v b. push_bit 8 v OR ucast b) 0 hdr"

lemma sys_write_decreases:
  "sys_write c bytes = (Done n, c') \<Longrightarrow> 0 < n \<Longrightarrow> bytes \<noteq> [] \<Longrightarrow>
     length (write_script c') + length (drop n bytes) < length (write_script c) + length bytes"
  "sys_write c bytes = (EINTR, c') \<Longrightarrow> length (write_script c') < length (write_script c)"
  by (auto simp: sys_write_def next_event_def Let_def split: list.splits io_event.splits)

lemma sys_read_decreases:
  "sys_read c n = (Done bs, c') \<Longrightarrow> bs \<noteq> [] \<Longrightarrow> 0 < n \<Longrightarrow>
     length (read_script c') + (n - length bs) < length (read_script c) + n"
  "sys_read c n = (EINTR, c') \<Longrightarrow> length (read_script c') < length (read_script c)"
  by (auto simp: sys_read_def next_event_def Let_def split: list.splits io_event.splits)

text \<open>\<open>write_all\<close>, on the bytes not yet written.\<close>

function write_all :: "Conn \<Rightarrow> u8 list \<Rightarrow> (cpp_exn + unit) \<times> Conn" where
  "write_all c bytes =
     (if bytes = [] then (Inr (), c)
      else case sys_write c bytes of
             (Done n, c') \<Rightarrow>
               if n > 0 then write_all c' (drop n bytes)
               else (Inl (RuntimeError ''UnixSocketTransport::send failed: ''), c')
           | (EINTR, c') \<Rightarrow> write_all c' bytes
           | (Error msg, c') \<Rightarrow> (Inl (RuntimeError (''UnixSocketTransport::send failed: '' @ msg)), c'))"
  by auto

termination
  by (relation "measure (\<lambda>(c, bytes). length (write_script c) + length bytes)")
    (auto dest: sys_write_decreases [OF sym])

definition mid_message :: cpp_exn where
  "mid_message = RuntimeError ''UnixSocketTransport::receive: peer closed mid-message (framing bug, not a clean close)''"

text \<open>\<open>read_all\<close>, with the bytes got so far and the number still missing.\<close>

function read_all :: "bool \<Rightarrow> Conn \<Rightarrow> u8 list \<Rightarrow> nat \<Rightarrow> (cpp_exn + u8 list) \<times> Conn" where
  "read_all allow_eof c got n =
     (if n = 0 then (Inr got, c)
      else case sys_read c n of
             (Done bs, c') \<Rightarrow>
               if bs \<noteq> [] then read_all allow_eof c' (got @ bs) (n - length bs)
               else if allow_eof \<and> got = [] then (Inl PeerClosedError, c')
               else (Inl mid_message, c')
           | (EINTR, c') \<Rightarrow> read_all allow_eof c' got n
           | (Error msg, c') \<Rightarrow> (Inl (RuntimeError (''UnixSocketTransport::receive failed: '' @ msg)), c'))"
  by auto

termination
  by (relation "measure (\<lambda>(a, c, got, n). length (read_script c) + n)")
    (auto dest: sys_read_decreases [OF sym])

declare write_all.simps [simp del] read_all.simps [simp del]

definition send :: "Conn \<Rightarrow> u8 list \<Rightarrow> (cpp_exn + unit) \<times> Conn" where
  "send c message =
     (case write_all c (encode_length (length message)) of
        (Inl e, c1) \<Rightarrow> (Inl e, c1)
      | (Inr _, c1) \<Rightarrow> if message \<noteq> [] then write_all c1 message else (Inr (), c1))"

definition receive :: "Conn \<Rightarrow> (cpp_exn + u8 list) \<times> Conn" where
  "receive c =
     (case read_all True c [] 8 of
        (Inl e, c1) \<Rightarrow> (Inl e, c1)
      | (Inr hdr, c1) \<Rightarrow>
          (let len = decode_length hdr
           in if len > 0 then read_all False c1 [] (unat len) else (Inr [], c1)))"

section \<open>The length prefix\<close>

lemma ucast_and_FF: "(ucast (v AND 0xFF) :: u8) = ucast (v :: u64)"
proof -
  have "v AND 0xFF = take_bit 8 v" by (simp add: take_bit_eq_mask mask_eq_exp_minus_1)
  moreover have "(ucast (take_bit 8 v) :: u8) = ucast v" by (rule bit_word_eqI) (simp add: bit_simps)
  ultimately show ?thesis by simp
qed

lemma encode_length_loop_eq:
  "length out = i \<Longrightarrow> encode_length_loop i v (out @ done_part) = rev (le_bytes i v) @ done_part"
proof (induction i arbitrary: v out done_part)
  case (Suc i)
  then obtain xs x where out: "out = xs @ [x]" "length xs = i" by (cases out rule: rev_cases) auto
  then have "encode_length_loop (Suc i) v (out @ done_part) = encode_length_loop i (drop_bit 8 v) (xs @ (ucast v # done_part))"
    by (simp add: list_update_append ucast_and_FF)
  with Suc.IH [OF out(2), of "drop_bit 8 v" "ucast v # done_part"] show ?case by simp
qed simp

lemma encode_length_eq: "encode_length n = rev (le_bytes 8 (word_of_nat n :: u64))"
  using encode_length_loop_eq [of "replicate 8 0" 8 "word_of_nat n" "[]"] by (simp add: encode_length_def)

lemma decode_length_rev: "decode_length (rev bs) = le_word bs"
proof (induction bs)
  case (Cons b bs)
  then show ?case by (simp add: decode_length_def ac_simps or.commute)
qed (simp add: decode_length_def)

lemma decode_encode_length: "n < 2 ^ 64 \<Longrightarrow> unat (decode_length (encode_length n)) = n"
  by (simp add: encode_length_eq decode_length_rev le_word_le_bytes)

lemma length_encode_length [simp]: "length (encode_length n) = 8"
  by (simp add: encode_length_eq)

section \<open>Reading and writing everything\<close>

definition frame :: "u8 list \<Rightarrow> u8 list" where
  "frame m = encode_length (length m) @ m"

abbreviation no_failure :: "io_event list \<Rightarrow> bool" where
  "no_failure script \<equiv> \<forall>e \<in> set script. \<forall>msg. e \<noteq> Failed msg"

text \<open>A system call without failures is interrupted or moves some bytes.\<close>

lemma sys_write_cases:
  assumes "no_failure (write_script c)" "bytes \<noteq> []"
  obtains (some) n es where "0 < n" "n \<le> length bytes" "no_failure es"
      "sys_write c bytes = (Done n, c\<lparr>write_script := es, outgoing := outgoing c @ take n bytes\<rparr>)"
  | (intr) es where "no_failure es" "sys_write c bytes = (EINTR, c\<lparr>write_script := es\<rparr>)"
proof (cases "write_script c")
  case Nil
  show ?thesis by (rule some [of "length bytes" "[]"]) (use Nil assms(2) in \<open>simp_all add: sys_write_def next_event_def\<close>)
next
  case (Cons e es)
  show ?thesis
  proof (cases e)
    case (Chunk k)
    show ?thesis by (rule some [of "min (Suc k) (length bytes)" es])
      (use Cons Chunk assms in \<open>simp_all add: sys_write_def next_event_def\<close>)
  next
    case Interrupted
    show ?thesis by (rule intr [of es]) (use Cons Interrupted assms in \<open>simp_all add: sys_write_def next_event_def\<close>)
  next
    case (Failed msg)
    then show ?thesis using Cons assms(1) by simp
  qed
qed

lemma sys_read_cases:
  assumes "no_failure (read_script c)" "0 < n"
  obtains (some) m es where "0 < m" "m \<le> n" "no_failure es"
      "sys_read c n = (Done (take m (incoming c)), c\<lparr>read_script := es, incoming := drop m (incoming c)\<rparr>)"
  | (intr) es where "no_failure es" "sys_read c n = (EINTR, c\<lparr>read_script := es\<rparr>)"
proof (cases "read_script c")
  case Nil
  show ?thesis by (rule some [of n "[]"]) (use Nil assms(2) in \<open>simp_all add: sys_read_def next_event_def\<close>)
next
  case (Cons e es)
  show ?thesis
  proof (cases e)
    case (Chunk k)
    show ?thesis by (rule some [of "min (Suc k) n" es])
      (use Cons Chunk assms in \<open>simp_all add: sys_read_def next_event_def\<close>)
  next
    case Interrupted
    show ?thesis by (rule intr [of es]) (use Cons Interrupted assms in \<open>simp_all add: sys_read_def next_event_def\<close>)
  next
    case (Failed msg)
    then show ?thesis using Cons assms(1) by simp
  qed
qed

lemma write_all_ok:
  assumes "no_failure (write_script c)"
  shows "\<exists>es. no_failure es \<and> write_all c bytes = (Inr (), c\<lparr>write_script := es, outgoing := outgoing c @ bytes\<rparr>)"
  using assms
proof (induction c bytes rule: write_all.induct)
  case (1 c bytes)
  show ?case
  proof (cases "bytes = []")
    case True
    then show ?thesis using 1(3) by (intro exI [of _ "write_script c"]) (simp add: write_all.simps)
  next
    case False
    show ?thesis
    proof (rule sys_write_cases [OF 1(3) False])
      fix n es
      let ?c = "c\<lparr>write_script := es, outgoing := outgoing c @ take n bytes\<rparr>"
      assume n: "0 < n" "n \<le> length bytes" "no_failure es" "sys_write c bytes = (Done n, ?c)"
      then obtain es' where es': "no_failure es'"
        "write_all ?c (drop n bytes) = (Inr (), ?c\<lparr>write_script := es', outgoing := outgoing ?c @ drop n bytes\<rparr>)"
        using 1(1) [OF False n(4) [symmetric] refl n(1)] by auto
      moreover have "write_all c bytes = write_all ?c (drop n bytes)"
        using n(1,4) False by (subst write_all.simps) simp
      ultimately show ?thesis by (intro exI [of _ es']) simp
    next
      fix es
      assume e: "no_failure es" "sys_write c bytes = (EINTR, c\<lparr>write_script := es\<rparr>)"
      then obtain es' where "no_failure es'"
        "write_all (c\<lparr>write_script := es\<rparr>) bytes = (Inr (), c\<lparr>write_script := es', outgoing := outgoing c @ bytes\<rparr>)"
        using 1(2) [OF False e(2) [symmetric] refl] by auto
      moreover have "write_all c bytes = write_all (c\<lparr>write_script := es\<rparr>) bytes"
        using e(2) False by (subst write_all.simps) simp
      ultimately show ?thesis by (intro exI [of _ es']) simp
    qed
  qed
qed

text \<open>Reading all: complete when the stream has enough bytes, otherwise a clean close or a broken message.\<close>

definition read_outcome :: "bool \<Rightarrow> Conn \<Rightarrow> u8 list \<Rightarrow> nat \<Rightarrow> io_event list \<Rightarrow> (cpp_exn + u8 list) \<times> Conn" where
  "read_outcome allow c got n es =
     (if n \<le> length (incoming c)
      then (Inr (got @ take n (incoming c)), c\<lparr>read_script := es, incoming := drop n (incoming c)\<rparr>)
      else (Inl (if allow \<and> got = [] \<and> incoming c = [] then PeerClosedError else mid_message),
            c\<lparr>read_script := es, incoming := []\<rparr>))"

lemma read_outcome_chunk:
  assumes "0 < m" "m \<le> n" "incoming c \<noteq> []"
  shows "read_outcome allow (c\<lparr>read_script := es, incoming := drop m (incoming c)\<rparr>) (got @ take m (incoming c))
      (n - length (take m (incoming c))) es' = read_outcome allow c got n es'"
proof (cases "m \<le> length (incoming c)")
  case True
  then have "take m (incoming c) @ take (n - m) (drop m (incoming c)) = take n (incoming c)"
    using assms(2) by (simp flip: take_add)
  then show ?thesis using assms True by (auto simp: read_outcome_def min_absorb2)
next
  case False
  then show ?thesis using assms by (auto simp: read_outcome_def)
qed

lemma read_outcome_script [simp]:
  "read_outcome allow (c\<lparr>read_script := es\<rparr>) got n es' = read_outcome allow c got n es'"
  by (simp add: read_outcome_def)

lemma read_all_outcome:
  assumes "no_failure (read_script c)"
  shows "\<exists>es. no_failure es \<and> read_all allow c got n = read_outcome allow c got n es"
  using assms
proof (induction allow c got n rule: read_all.induct)
  case (1 allow c got n)
  show ?case
  proof (cases "n = 0")
    case True
    then show ?thesis using 1(3) by (intro exI [of _ "read_script c"]) (simp add: read_all.simps read_outcome_def)
  next
    case False
    then have "0 < n" by simp
    show ?thesis
    proof (rule sys_read_cases [OF 1(3) \<open>0 < n\<close>])
      fix m es
      let ?c = "c\<lparr>read_script := es, incoming := drop m (incoming c)\<rparr>" and ?bs = "take m (incoming c)"
      assume m: "0 < m" "m \<le> n" "no_failure es" "sys_read c n = (Done ?bs, ?c)"
      show ?thesis
      proof (cases "incoming c = []")
        case True
        then show ?thesis using m False
          by (intro exI [of _ es]) (auto simp: read_all.simps [of allow c] read_outcome_def)
      next
        case ne: False
        then have bs: "?bs \<noteq> []" using m(1) by auto
        have "read_all allow c got n = read_all allow ?c (got @ ?bs) (n - length ?bs)"
          using m(4) False bs by (subst read_all.simps) simp
        with 1(1) [OF False m(4) [symmetric] refl bs] m(3) read_outcome_chunk [OF m(1,2) ne]
        show ?thesis by auto
      qed
    next
      fix es
      assume e: "no_failure es" "sys_read c n = (EINTR, c\<lparr>read_script := es\<rparr>)"
      then have "read_all allow c got n = read_all allow (c\<lparr>read_script := es\<rparr>) got n"
        using False by (subst read_all.simps) simp
      with 1(2) [OF False e(2) [symmetric] refl] e(1) show ?thesis by simp
    qed
  qed
qed

lemmas read_all_result = read_all_outcome [unfolded read_outcome_def]

section \<open>Messages\<close>

lemma send_ok:
  assumes "no_failure (write_script c)"
  shows "\<exists>es. no_failure es \<and> send c m = (Inr (), c\<lparr>write_script := es, outgoing := outgoing c @ frame m\<rparr>)"
proof -
  obtain es1 where 1: "no_failure es1" "write_all c (encode_length (length m))
      = (Inr (), c\<lparr>write_script := es1, outgoing := outgoing c @ encode_length (length m)\<rparr>)"
    using write_all_ok [OF assms] by blast
  let ?c = "c\<lparr>write_script := es1, outgoing := outgoing c @ encode_length (length m)\<rparr>"
  show ?thesis
  proof (cases "m = []")
    case True
    then show ?thesis using 1 by (intro exI [of _ es1]) (simp add: send_def frame_def)
  next
    case False
    have "no_failure (write_script ?c)" using 1(1) by simp
    from write_all_ok [OF this, of m] obtain es2 where "no_failure es2"
      "write_all ?c m = (Inr (), ?c\<lparr>write_script := es2, outgoing := outgoing ?c @ m\<rparr>)" by blast
    then show ?thesis using 1 False by (intro exI [of _ es2]) (simp add: send_def frame_def)
  qed
qed

lemma receive_frame:
  assumes "no_failure (read_script c)" "incoming c = frame m @ rest" "length m < 2 ^ 64"
  shows "\<exists>es. no_failure es \<and> receive c = (Inr m, c\<lparr>read_script := es, incoming := rest\<rparr>)"
proof -
  let ?h = "encode_length (length m)"
  have len: "unat (decode_length ?h) = length m" using decode_encode_length assms(3) by blast
  obtain es1 where 1: "no_failure es1" "read_all True c [] 8 = (Inr ?h, c\<lparr>read_script := es1, incoming := m @ rest\<rparr>)"
    using read_all_result [OF assms(1), of True "[]" 8] assms(2) by (auto simp: frame_def)
  let ?c = "c\<lparr>read_script := es1, incoming := m @ rest\<rparr>"
  show ?thesis
  proof (cases "m = []")
    case True
    then have "\<not> 0 < decode_length ?h" using len by (simp add: word_less_nat_alt)
    then show ?thesis using 1 True by (intro exI [of _ es1]) (simp add: receive_def Let_def)
  next
    case False
    then have pos: "0 < decode_length ?h" using len by (simp add: word_less_nat_alt)
    have "no_failure (read_script ?c)" using 1(1) by simp
    from read_all_result [OF this, of False "[]" "length m"]
    obtain es2 where "no_failure es2" "read_all False ?c [] (length m) = (Inr m, c\<lparr>read_script := es2, incoming := rest\<rparr>)"
      by auto
    then show ?thesis using 1(2) pos len by (intro exI [of _ es2]) (simp add: receive_def Let_def)
  qed
qed

text \<open>Several messages in a row.\<close>

fun send_all :: "Conn \<Rightarrow> u8 list list \<Rightarrow> (cpp_exn + unit) \<times> Conn" where
  "send_all c [] = (Inr (), c)"
| "send_all c (m # ms) = (case send c m of (Inl e, c') \<Rightarrow> (Inl e, c') | (Inr _, c') \<Rightarrow> send_all c' ms)"

fun receive_n :: "nat \<Rightarrow> Conn \<Rightarrow> (cpp_exn + u8 list list) \<times> Conn" where
  "receive_n 0 c = (Inr [], c)"
| "receive_n (Suc n) c =
     (case receive c of
        (Inl e, c') \<Rightarrow> (Inl e, c')
      | (Inr m, c') \<Rightarrow> (case receive_n n c' of (Inl e, c'') \<Rightarrow> (Inl e, c'') | (Inr ms, c'') \<Rightarrow> (Inr (m # ms), c'')))"

lemma send_all_ok:
  "no_failure (write_script c) \<Longrightarrow>
     \<exists>es. no_failure es \<and> send_all c ms = (Inr (), c\<lparr>write_script := es, outgoing := outgoing c @ concat (map frame ms)\<rparr>)"
proof (induction ms arbitrary: c)
  case Nil
  then show ?case by (intro exI [of _ "write_script c"]) simp
next
  case (Cons m ms)
  obtain es1 where 1: "no_failure es1" "send c m = (Inr (), c\<lparr>write_script := es1, outgoing := outgoing c @ frame m\<rparr>)"
    using send_ok [OF Cons.prems] by blast
  let ?c = "c\<lparr>write_script := es1, outgoing := outgoing c @ frame m\<rparr>"
  obtain es2 where "no_failure es2"
    "send_all ?c ms = (Inr (), ?c\<lparr>write_script := es2, outgoing := outgoing ?c @ concat (map frame ms)\<rparr>)"
    using Cons.IH [of ?c] 1(1) by auto
  then show ?case using 1(2) by (intro exI [of _ es2]) simp
qed

lemma receive_n_frames:
  "no_failure (read_script c) \<Longrightarrow> incoming c = concat (map frame ms) @ rest \<Longrightarrow> \<forall>m \<in> set ms. length m < 2 ^ 64 \<Longrightarrow>
     \<exists>es. no_failure es \<and> receive_n (length ms) c = (Inr ms, c\<lparr>read_script := es, incoming := rest\<rparr>)"
proof (induction ms arbitrary: c)
  case Nil
  then have "c\<lparr>read_script := read_script c, incoming := rest\<rparr> = c" by (cases c) simp
  with Nil show ?case by (intro exI [of _ "read_script c"]) simp
next
  case (Cons m ms)
  obtain es1 where 1: "no_failure es1"
    "receive c = (Inr m, c\<lparr>read_script := es1, incoming := concat (map frame ms) @ rest\<rparr>)"
    using receive_frame [OF Cons.prems(1), of m "concat (map frame ms) @ rest"] Cons.prems(2,3) by auto
  let ?c = "c\<lparr>read_script := es1, incoming := concat (map frame ms) @ rest\<rparr>"
  obtain es2 where "no_failure es2" "receive_n (length ms) ?c = (Inr ms, ?c\<lparr>read_script := es2, incoming := rest\<rparr>)"
    using Cons.IH [of ?c] 1(1) Cons.prems(3) by auto
  then show ?case using 1(2) by (intro exI [of _ es2]) simp
qed

text \<open>Whatever the kernel answers, a write puts out a prefix of its bytes, all of them when it succeeds.\<close>

lemma write_all_prefix:
  assumes "write_all c bytes = (r, c')"
  shows "\<exists>k \<le> length bytes. outgoing c' = outgoing c @ take k bytes \<and> (r = Inr () \<longrightarrow> k = length bytes) \<and> incoming c' = incoming c"
  using assms
proof (induction c bytes arbitrary: r c' rule: write_all.induct)
  case (1 c bytes)
  show ?case
  proof (cases "bytes = []")
    case True
    with 1(3) show ?thesis by (simp add: write_all.simps)
  next
    case False
    obtain res c1 where s: "sys_write c bytes = (res, c1)" by fastforce
    show ?thesis
    proof (cases res)
      case (Done n)
      then have c1: "outgoing c1 = outgoing c @ take n bytes" "incoming c1 = incoming c" "n \<le> length bytes"
        using s by (auto simp: sys_write_def next_event_def Let_def split: list.splits io_event.splits)
      show ?thesis
      proof (cases "0 < n")
        case True
        then have "write_all c1 (drop n bytes) = (r, c')" using 1(3) s Done False by (simp add: write_all.simps [of c])
        from 1(1) [OF False s [symmetric] Done True this]
        obtain k where k: "k \<le> length bytes - n" "outgoing c' = outgoing c1 @ take k (drop n bytes)"
          "r = Inr () \<longrightarrow> k = length bytes - n" "incoming c' = incoming c1" by auto
        then show ?thesis using c1 by (intro exI [of _ "n + k"]) (auto simp: take_add)
      next
        case False
        then show ?thesis using 1(3) s Done c1 \<open>bytes \<noteq> []\<close> by (intro exI [of _ 0]) (auto simp: write_all.simps [of c])
      qed
    next
      case EINTR
      then have c1: "outgoing c1 = outgoing c" "incoming c1 = incoming c"
        using s by (auto simp: sys_write_def next_event_def Let_def split: list.splits io_event.splits)
      have "write_all c1 bytes = (r, c')" using 1(3) s EINTR False by (simp add: write_all.simps [of c])
      with 1(2) [OF False s [symmetric] EINTR this] c1 show ?thesis by auto
    next
      case (Error msg)
      then have "outgoing c1 = outgoing c" "incoming c1 = incoming c"
        using s by (auto simp: sys_write_def next_event_def Let_def split: list.splits io_event.splits)
      then show ?thesis using 1(3) s Error False by (intro exI [of _ 0]) (auto simp: write_all.simps [of c])
    qed
  qed
qed

lemma read_all_consumes:
  assumes "read_all allow c got n = (Inr bs, c')"
  shows "length (incoming c') + n = length (incoming c) \<and> outgoing c' = outgoing c"
  using assms
proof (induction allow c got n arbitrary: c' rule: read_all.induct)
  case (1 allow c got n)
  show ?case
  proof (cases "n = 0")
    case True
    with 1(3) show ?thesis by (simp add: read_all.simps)
  next
    case False
    obtain res c1 where s: "sys_read c n = (res, c1)" by fastforce
    have c1: "outgoing c1 = outgoing c" "res = EINTR \<Longrightarrow> incoming c1 = incoming c"
      "res = Done xs \<Longrightarrow> length (incoming c1) + length xs = length (incoming c) \<and> length xs \<le> n" for xs
      using s by (auto simp: sys_read_def next_event_def Let_def split: list.splits io_event.splits)
    show ?thesis
    proof (cases res)
      case (Done xs)
      then have "xs \<noteq> []" using 1(3) s False by (auto simp: read_all.simps [of _ c] split: if_splits)
      moreover from this have "read_all allow c1 (got @ xs) (n - length xs) = (Inr bs, c')"
        using 1(3) s Done False by (simp add: read_all.simps [of _ c])
      ultimately show ?thesis using 1(1) [OF False s [symmetric] Done] c1(1) c1(3) [OF Done] by fastforce
    next
      case EINTR
      then have "read_all allow c1 got n = (Inr bs, c')" using 1(3) s False by (simp add: read_all.simps [of _ c])
      then show ?thesis using 1(2) [OF False s [symmetric] EINTR] c1(1,2) EINTR by auto
    next
      case (Error msg)
      then show ?thesis using 1(3) s False by (simp add: read_all.simps [of _ c])
    qed
  qed
qed

lemma receive_consumes:
  assumes "receive c = (Inr m, c')"
  shows "length (incoming c') < length (incoming c) \<and> outgoing c' = outgoing c"
proof -
  obtain hdr c1 where 1: "read_all True c [] 8 = (Inr hdr, c1)"
    using assms by (auto simp: receive_def split: prod.splits sum.splits)
  show ?thesis
    using read_all_consumes [OF 1] assms 1 read_all_consumes [of False c1 "[]" "unat (decode_length hdr)" m c']
    by (auto simp: receive_def Let_def split: if_splits)
qed

section \<open>Properties\<close>

text \<open>C38. Framing survives the byte stream: whatever messages are sent, and however the kernel splits,
  delays or interrupts the writes on one side and the reads on the other, the receiver gets exactly these
  messages in this order; once the sender closes, the next receive reports a clean close.\<close>

theorem framing_roundtrip:
  assumes "no_failure (write_script a)" "no_failure (read_script b)" "outgoing a = []" "\<forall>m \<in> set ms. length m < 2 ^ 64"
  shows "\<exists>a' b'. send_all a ms = (Inr (), a') \<and> receive_n (length ms) (b\<lparr>incoming := outgoing a'\<rparr>) = (Inr ms, b')
     \<and> fst (receive b') = Inl PeerClosedError"
proof -
  obtain es where a: "send_all a ms = (Inr (), a\<lparr>write_script := es, outgoing := concat (map frame ms)\<rparr>)"
    using send_all_ok [OF assms(1), of ms] assms(3) by auto
  let ?b = "b\<lparr>incoming := concat (map frame ms)\<rparr>"
  obtain es' where b: "no_failure es'" "receive_n (length ms) ?b = (Inr ms, ?b\<lparr>read_script := es', incoming := []\<rparr>)"
    using receive_n_frames [of ?b ms "[]"] assms(2,4) by auto
  have "fst (receive (?b\<lparr>read_script := es', incoming := []\<rparr>)) = Inl PeerClosedError"
    using read_all_result [of "?b\<lparr>read_script := es', incoming := []\<rparr>" True "[]" 8] b(1) by (auto simp: receive_def)
  with a b(2) show ?thesis by auto
qed

definition demo_writer :: Conn where
  "demo_writer = \<lparr>incoming = [], read_script = [], outgoing = [], write_script = [Chunk 2, Interrupted, Chunk 0]\<rparr>"

definition demo_reader :: Conn where
  "demo_reader = \<lparr>incoming = [], read_script = [Interrupted, Chunk 4], outgoing = [], write_script = []\<rparr>"

theorem framing_roundtrip_witness:
  "\<exists>a' b'. send_all demo_writer [[1, 2, 3], []] = (Inr (), a')
     \<and> receive_n (length [[1 :: u8, 2, 3], []]) (demo_reader\<lparr>incoming := outgoing a'\<rparr>) = (Inr [[1, 2, 3], []], b')"
proof -
  have "no_failure (write_script demo_writer)" "no_failure (read_script demo_reader)" "outgoing demo_writer = []"
    "\<forall>m \<in> set [[1 :: u8, 2, 3], []]. length m < 2 ^ 64"
    by (simp_all add: demo_writer_def demo_reader_def)
  from framing_roundtrip [OF this] show ?thesis by blast
qed

text \<open>C40. A peer that dies in the middle of a message is never mistaken for a clean close or a short message:
  when no system call fails, a stream that ends strictly inside a frame makes \<open>receive\<close> report the framing error.\<close>

theorem mid_message_close_detected:
  assumes "no_failure (read_script c)" "length m < 2 ^ 64" "0 < k" "k < length (frame m)" "incoming c = take k (frame m)"
  shows "fst (receive c) = Inl mid_message"
proof (cases "k < 8")
  case True
  then have "length (incoming c) = k" "incoming c \<noteq> []" using assms(3,4,5) by auto
  then show ?thesis using read_all_result [OF assms(1), of True "[]" 8] True by (auto simp: receive_def)
next
  case False
  let ?h = "encode_length (length m)"
  have len: "unat (decode_length ?h) = length m" using decode_encode_length assms(2) by blast
  have inc: "incoming c = ?h @ take (k - 8) m" using assms(5) False by (simp add: frame_def)
  have short: "k - 8 < length m" using assms(4) False by (simp add: frame_def)
  obtain es1 where 1: "no_failure es1" "read_all True c [] 8 = (Inr ?h, c\<lparr>read_script := es1, incoming := take (k - 8) m\<rparr>)"
    using read_all_result [OF assms(1), of True "[]" 8] inc by auto
  let ?c = "c\<lparr>read_script := es1, incoming := take (k - 8) m\<rparr>"
  have pos: "0 < decode_length ?h" using len short by (cases m) (simp_all add: word_less_nat_alt)
  have "no_failure (read_script ?c)" using 1(1) by simp
  from read_all_result [OF this, of False "[]" "length m"] short
  have "fst (read_all False ?c [] (length m)) = Inl mid_message" by auto
  then show ?thesis using 1(2) pos len by (simp add: receive_def Let_def)
qed

theorem mid_message_close_detected_witness:
  "fst (receive \<lparr>incoming = take 9 (frame [7, 8]), read_script = [Chunk 0], outgoing = [], write_script = []\<rparr>) = Inl mid_message"
  using mid_message_close_detected [of "\<lparr>incoming = take 9 (frame [7, 8]), read_script = [Chunk 0], outgoing = [], write_script = []\<rparr>" "[7, 8]" 9]
  by (simp add: frame_def)

text \<open>A send never corrupts the stream: whatever the kernel answers, the bytes put out are a prefix of the
  frame, the whole frame when the send returns normally.\<close>

theorem send_writes_prefix:
  assumes "send c m = (r, c')"
  shows "\<exists>k \<le> length (frame m). outgoing c' = outgoing c @ take k (frame m) \<and> (r = Inr () \<longrightarrow> k = length (frame m))"
proof -
  obtain r1 c1 where 1: "write_all c (encode_length (length m)) = (r1, c1)" by fastforce
  obtain k1 where k1: "k1 \<le> 8" "outgoing c1 = outgoing c @ take k1 (encode_length (length m))" "r1 = Inr () \<longrightarrow> k1 = 8"
    using write_all_prefix [OF 1] by auto
  show ?thesis
  proof (cases r1)
    case (Inl e)
    then show ?thesis using assms 1 k1 by (intro exI [of _ k1]) (auto simp: send_def frame_def)
  next
    case (Inr u)
    then have "k1 = 8" using k1 by simp
    show ?thesis
    proof (cases "m = []")
      case True
      then show ?thesis using assms 1 k1 Inr by (intro exI [of _ 8]) (auto simp: send_def frame_def)
    next
      case False
      then have "write_all c1 m = (r, c')" using assms 1 Inr by (simp add: send_def)
      then obtain k where "k \<le> length m" "outgoing c' = outgoing c1 @ take k m" "r = Inr () \<longrightarrow> k = length m"
        using write_all_prefix by blast
      then show ?thesis using k1 \<open>k1 = 8\<close> by (intro exI [of _ "8 + k"]) (simp add: frame_def)
    qed
  qed
qed

theorem send_writes_prefix_witness:
  "\<exists>k \<le> length (frame [7, 8]). outgoing (snd (send (demo_writer\<lparr>write_script := [Chunk 3, Failed ''EPIPE'']\<rparr>) [7, 8]))
     = take k (frame [7, 8])"
proof -
  let ?c = "demo_writer\<lparr>write_script := [Chunk 3, Failed ''EPIPE'']\<rparr>"
  have "send ?c [7, 8] = (fst (send ?c [7, 8]), snd (send ?c [7, 8]))" "outgoing ?c = []" by (simp_all add: demo_writer_def)
  from send_writes_prefix [OF this(1)] this(2) show ?thesis by auto
qed

end
