(* ===== verification/Worker.thy ===== *)
theory Worker
  imports Transport
begin

text \<open>
  The worker side of a shard (\<open>src/orchestration/worker_shard.hpp\<close>): the placeholder computation and the
  loop that answers batches until its router goes away, over the socket transport. Negating a float flips
  its sign bit.
\<close>

section \<open>Model\<close>

definition negate_float :: "u32 \<Rightarrow> u32" where
  "negate_float v = v XOR 0x80000000"

definition process_token_placeholder :: "RoutedToken \<Rightarrow> u32 \<Rightarrow> RoutedResult" where
  "process_token_placeholder t shard_id =
     \<lparr>r_token_id = token_id t, r_batch_position = batch_position t, processed_by_shard = shard_id,
      effective_expert = 0, r_payload = map negate_float (payload t), failed = False, failure_reason = []\<rparr>"

lemma write_all_incoming: "write_all c bs = (r, c') \<Longrightarrow> incoming c' = incoming c"
  using write_all_prefix by blast

lemma send_incoming: "send c m = (r, c') \<Longrightarrow> incoming c' = incoming c"
  by (auto simp: send_def dest!: write_all_incoming split: prod.splits sum.splits if_splits)

text \<open>The loop from a number of batches processed so far. A failed receive or send ends it normally; an
  exception of \<open>decode_token_batch\<close> leaves it.\<close>

function run_worker_loop_from :: "u32 \<Rightarrow> nat \<Rightarrow> Conn \<Rightarrow> (cpp_exn + nat) \<times> Conn" where
  "run_worker_loop_from shard_id batches c =
     (case receive c of
        (Inl _, c1) \<Rightarrow> (Inr batches, c1)
      | (Inr raw, c1) \<Rightarrow>
          (case decode_token_batch raw of
             Inl e \<Rightarrow> (Inl e, c1)
           | Inr tokens \<Rightarrow>
               (let results = map (\<lambda>t. process_token_placeholder t shard_id) tokens
                in case send c1 (encode_result_batch results) of
                     (Inl _, c2) \<Rightarrow> (Inr batches, c2)
                   | (Inr _, c2) \<Rightarrow> run_worker_loop_from shard_id (batches + 1) c2)))"
  by auto

termination
  by (relation "measure (\<lambda>(i, n, c). length (incoming c))")
    (auto dest!: receive_consumes [OF sym] send_incoming [OF sym])

declare run_worker_loop_from.simps [simp del]

definition run_worker_loop :: "Conn \<Rightarrow> u32 \<Rightarrow> (cpp_exn + nat) \<times> Conn" where
  "run_worker_loop c shard_id = run_worker_loop_from shard_id 0 c"

section \<open>Properties\<close>

definition wire_batch :: "RoutedToken list \<Rightarrow> bool" where
  "wire_batch ts \<longleftrightarrow> length ts < 2 ^ 32 \<and> (\<forall>t \<in> set ts. length (payload t) < 2 ^ 32)
     \<and> length (encode_token_batch ts) < 2 ^ 64"

lemma decode_wire_batch: "wire_batch ts \<Longrightarrow> decode_token_batch (encode_token_batch ts) = Inr ts"
  using token.batch_roundtrip [of ts "[]"] by (simp add: wire_batch_def list_all_iff)

lemma worker_loop_answers:
  assumes "no_failure (read_script c)" "no_failure (write_script c)" "\<forall>ts \<in> set batches. wire_batch ts"
    "incoming c = concat (map (\<lambda>ts. frame (encode_token_batch ts)) batches)"
  shows "\<exists>c'. run_worker_loop_from i n c = (Inr (n + length batches), c') \<and> incoming c' = []
     \<and> no_failure (read_script c') \<and> no_failure (write_script c')
     \<and> outgoing c' = outgoing c
         @ concat (map (\<lambda>ts. frame (encode_result_batch (map (\<lambda>t. process_token_placeholder t i) ts))) batches)"
  using assms
proof (induction batches arbitrary: n c)
  case Nil
  then obtain es where "no_failure es" "read_all True c [] 8 = (Inl PeerClosedError, c\<lparr>read_script := es, incoming := []\<rparr>)"
    using read_all_result [of c True "[]" 8] by auto
  then show ?case using Nil.prems by (simp add: run_worker_loop_from.simps receive_def)
next
  case (Cons ts batches)
  let ?rest = "concat (map (\<lambda>ts. frame (encode_token_batch ts)) batches)"
  let ?reply = "encode_result_batch (map (\<lambda>t. process_token_placeholder t i) ts)"
  have ts: "length (encode_token_batch ts) < 2 ^ 64" "decode_token_batch (encode_token_batch ts) = Inr ts"
    using Cons.prems(3) decode_wire_batch by (auto simp: wire_batch_def)
  obtain es where r: "no_failure es" "receive c = (Inr (encode_token_batch ts), c\<lparr>read_script := es, incoming := ?rest\<rparr>)"
    using receive_frame [OF Cons.prems(1), of "encode_token_batch ts" ?rest] Cons.prems(4) ts(1) by auto
  let ?c1 = "c\<lparr>read_script := es, incoming := ?rest\<rparr>"
  obtain es' where s: "no_failure es'" "send ?c1 ?reply = (Inr (), ?c1\<lparr>write_script := es', outgoing := outgoing c @ frame ?reply\<rparr>)"
    using send_ok [of ?c1 ?reply] Cons.prems(2) by auto
  let ?c2 = "?c1\<lparr>write_script := es', outgoing := outgoing c @ frame ?reply\<rparr>"
  have "run_worker_loop_from i n c = run_worker_loop_from i (n + 1) ?c2"
    by (subst run_worker_loop_from.simps) (simp add: r(2) ts(2) s(2) Let_def)
  moreover obtain c' where "run_worker_loop_from i (n + 1) ?c2 = (Inr (n + 1 + length batches), c')" "incoming c' = []"
    "no_failure (read_script c')" "no_failure (write_script c')"
    "outgoing c' = (outgoing c @ frame ?reply)
       @ concat (map (\<lambda>ts. frame (encode_result_batch (map (\<lambda>t. process_token_placeholder t i) ts))) batches)"
    using Cons.IH [of ?c2 "n + 1"] r(1) s(1) Cons.prems(3) by auto
  ultimately show ?case by simp
qed

text \<open>A worker answers every batch its router sends, in order, with one result per token in the order of
  the tokens, and then ends normally with the number of batches, whatever the fragmentation of the stream.\<close>

theorem worker_answers_every_batch:
  assumes "no_failure (read_script c)" "no_failure (write_script c)" "\<forall>ts \<in> set batches. wire_batch ts"
    "incoming c = concat (map (\<lambda>ts. frame (encode_token_batch ts)) batches)"
  shows "\<exists>c'. run_worker_loop c i = (Inr (length batches), c')
     \<and> outgoing c' = outgoing c
         @ concat (map (\<lambda>ts. frame (encode_result_batch (map (\<lambda>t. process_token_placeholder t i) ts))) batches)"
  using worker_loop_answers [OF assms, of i 0] by (auto simp: run_worker_loop_def)

definition demo_worker_conn :: Conn where
  "demo_worker_conn = \<lparr>incoming = frame (encode_token_batch [demo_token]), read_script = [Chunk 4, Interrupted],
     outgoing = [], write_script = [Chunk 0]\<rparr>"

theorem worker_answers_every_batch_witness:
  "\<exists>c'. run_worker_loop demo_worker_conn 5 = (Inr 1, c')
     \<and> outgoing c' = frame (encode_result_batch [process_token_placeholder demo_token 5])"
proof -
  have "wire_batch [demo_token]"
    by (simp add: wire_batch_def demo_token_def encode_token_batch_def encode_token_def put_u32_def put_u64_def put_floats_def)
  then show ?thesis
    using worker_answers_every_batch [of demo_worker_conn "[[demo_token]]" 5] by (simp add: demo_worker_conn_def)
qed

text \<open>The loop always ends (there is a value for every connection), and the only exception that leaves it
  is the truncation error of a batch that does not decode; no failure of the transport does.\<close>

theorem worker_only_decode_errors_escape:
  assumes "run_worker_loop c i = (Inl e, c')"
  shows "e = truncated"
proof -
  have "run_worker_loop_from i n c = (Inl e, c') \<Longrightarrow> e = truncated" for n c
  proof (induction i n c rule: run_worker_loop_from.induct)
    case (1 i n c)
    obtain r c1 where r: "receive c = (r, c1)" by fastforce
    obtain raw where raw: "r = Inr raw" using 1(2) r by (cases r) (auto simp: run_worker_loop_from.simps [of i n c])
    show ?case
    proof (cases "decode_token_batch raw")
      case (Inl e')
      then show ?thesis using 1(2) r raw token.batch_error by (simp add: run_worker_loop_from.simps [of i n c])
    next
      case (Inr ts)
      obtain q c2 where s: "send c1 (encode_result_batch (map (\<lambda>t. process_token_placeholder t i) ts)) = (q, c2)" by fastforce
      then show ?thesis using 1 r raw Inr by (cases q) (auto simp: run_worker_loop_from.simps [of i n c] Let_def)
    qed
  qed
  then show ?thesis using assms by (simp add: run_worker_loop_def)
qed

theorem worker_only_decode_errors_escape_witness:
  "fst (run_worker_loop (demo_worker_conn\<lparr>incoming := frame [1]\<rparr>) 5) = Inl truncated"
proof -
  let ?c = "demo_worker_conn\<lparr>incoming := frame [1]\<rparr>"
  have nf: "no_failure (read_script ?c)" by (simp add: demo_worker_conn_def)
  obtain es where r: "receive ?c = (Inr [1], ?c\<lparr>read_script := es, incoming := []\<rparr>)"
    using receive_frame [OF nf, of "[1]" "[]"] by auto
  have d: "decode_token_batch [1] = Inl truncated" by (simp add: decode_token_batch_def get_u32_def)
  obtain e c' where e: "run_worker_loop ?c 5 = (Inl e, c')"
    using r d by (simp add: run_worker_loop_def run_worker_loop_from.simps)
  from worker_only_decode_errors_escape [OF e] e show ?thesis by simp
qed

end
