(* ===== verification/Cpp_Numbers.thy ===== *)
theory Cpp_Numbers
  imports Prelude
begin

text \<open>
  Numbers as text, the way the C++ library reads and prints them: \<open>std::to_string\<close> of unsigned values, and
  \<open>std::atoi\<close>, \<open>std::stoi\<close> and \<open>std::stoull\<close> in base 10, which skip white space, take a sign and digits, and ignore
  what follows the digits. \<open>atoi\<close> gives 0 without digits and has undefined behaviour out of range; the other two
  throw; \<open>stoull\<close> negates modulo \<open>2^64\<close>.
\<close>

section \<open>Printing\<close>

fun dec_digits :: "nat \<Rightarrow> string" where
  "dec_digits n = (if n < 10 then [char_of (48 + n)] else dec_digits (n div 10) @ [char_of (48 + n mod 10)])"

declare dec_digits.simps [simp del]

definition std_to_string :: "u32 \<Rightarrow> string" where
  "std_to_string v = dec_digits (unat v)"

section \<open>Reading\<close>

definition is_digit :: "char \<Rightarrow> bool" where
  "is_digit c \<longleftrightarrow> 48 \<le> (of_char c :: nat) \<and> (of_char c :: nat) \<le> 57"

definition is_space :: "char \<Rightarrow> bool" where
  "is_space c \<longleftrightarrow> (of_char c :: nat) \<in> {9, 10, 11, 12, 13, 32}"

fun read_digits :: "nat \<Rightarrow> string \<Rightarrow> nat" where
  "read_digits v [] = v"
| "read_digits v (c # cs) = (if is_digit c then read_digits (10 * v + (of_char c - 48)) cs else v)"

text \<open>The sign and the magnitude, \<open>None\<close> when there are no digits.\<close>

definition scan_integer :: "string \<Rightarrow> (bool \<times> nat) option" where
  "scan_integer s =
     (let t = dropWhile is_space s;
          (neg, u) = (case t of [] \<Rightarrow> (False, [])
                      | c # cs \<Rightarrow> if c = CHR ''-'' then (True, cs) else if c = CHR ''+'' then (False, cs) else (False, t))
      in case u of [] \<Rightarrow> None | c # cs \<Rightarrow> if is_digit c then Some (neg, read_digits 0 u) else None)"

definition signed_value :: "bool \<Rightarrow> nat \<Rightarrow> int" where
  "signed_value neg n = (if neg then - int n else int n)"

definition fits_int :: "int \<Rightarrow> bool" where
  "fits_int v \<longleftrightarrow> - (2 ^ 31) \<le> v \<and> v < 2 ^ 31"

definition atoi :: "string \<Rightarrow> cpp_exn + int" where
  "atoi s = (case scan_integer s of
       None \<Rightarrow> Inr 0
     | Some (neg, n) \<Rightarrow> if fits_int (signed_value neg n) then Inr (signed_value neg n) else Inl UndefinedBehaviour)"

definition stoi :: "string \<Rightarrow> cpp_exn + int" where
  "stoi s = (case scan_integer s of
       None \<Rightarrow> Inl (InvalidArgument ''stoi'')
     | Some (neg, n) \<Rightarrow> if fits_int (signed_value neg n) then Inr (signed_value neg n) else Inl (OutOfRange ''stoi''))"

definition stoull :: "string \<Rightarrow> cpp_exn + u64" where
  "stoull s = (case scan_integer s of
       None \<Rightarrow> Inl (InvalidArgument ''stoull'')
     | Some (neg, n) \<Rightarrow> if n < 2 ^ 64 then Inr (word_of_int (signed_value neg n)) else Inl (OutOfRange ''stoull''))"

section \<open>Reading what was printed\<close>

lemma read_digits_append:
  "list_all is_digit ds \<Longrightarrow> read_digits v (ds @ cs) = read_digits (read_digits v ds) cs"
  by (induction ds arbitrary: v) auto

lemma digit_facts:
  assumes "d < 10"
  shows "is_digit (char_of (48 + d))" "(of_char (char_of (48 + d) :: char) :: nat) = 48 + d"
proof -
  show of_char: "(of_char (char_of (48 + d) :: char) :: nat) = 48 + d" using assms by (simp add: take_bit_nat_eq_self)
  then show "is_digit (char_of (48 + d))" using assms by (simp add: is_digit_def)
qed

lemma dec_digits_facts: "dec_digits n \<noteq> [] \<and> list_all is_digit (dec_digits n) \<and> read_digits 0 (dec_digits n) = n"
proof (induction n rule: dec_digits.induct)
  case (1 n)
  have "n mod 10 < 10" by simp
  note m = digit_facts [OF this]
  show ?case
  proof (cases "n < 10")
    case True
    then show ?thesis using digit_facts [OF True] by (simp add: dec_digits.simps [of n])
  next
    case False
    then have "dec_digits n = dec_digits (n div 10) @ [char_of (48 + n mod 10)]" by (simp add: dec_digits.simps [of n])
    moreover have "10 * (n div 10) + n mod 10 = n" by simp
    ultimately show ?thesis using 1 [OF False] m by (simp add: read_digits_append)
  qed
qed

lemma scan_integer_digits:
  assumes "ds \<noteq> []" "list_all is_digit ds"
  shows "scan_integer ds = Some (False, read_digits 0 ds)"
proof -
  obtain c cs where ds: "ds = c # cs" using assms(1) by (cases ds) auto
  then have "is_digit c" using assms(2) by simp
  then have "\<not> is_space c" "c \<noteq> CHR ''-''" "c \<noteq> CHR ''+''" by (auto simp: is_digit_def is_space_def)
  with ds \<open>is_digit c\<close> show ?thesis by (simp add: scan_integer_def)
qed

lemma stoull_digits:
  assumes "ds \<noteq> []" "list_all is_digit ds"
  shows "stoull ds = (if read_digits 0 ds < 2 ^ 64 then Inr (word_of_nat (read_digits 0 ds)) else Inl (OutOfRange ''stoull''))"
  using scan_integer_digits [OF assms] by (simp add: stoull_def signed_value_def)

lemma stoull_dec_digits:
  "stoull (dec_digits n) = (if n < 2 ^ 64 then Inr (word_of_nat n) else Inl (OutOfRange ''stoull''))"
  using stoull_digits [of "dec_digits n"] dec_digits_facts [of n] by simp

end
