(* ===== verification/Router.thy ===== *)
theory Router
  imports Worker Cpp_Numbers
begin

text \<open>
  Scatter and gather over the expert shards (\<open>src/orchestration/router.hpp\<close>). The transports are reached
  through the interface \<open>ICollectiveTransport\<close>: the two operations on the transport of a shard are arguments
  (\<open>tsend\<close>, \<open>treceive\<close>) that act on a world \<open>w\<close> and may throw. The order in which an \<open>unordered_map\<close> is
  traversed is the argument \<open>ord\<close>, which permutes the list of its keys. \<open>std::sort\<close> orders the indices of an
  expert by position; for equal positions its order is unspecified and the model takes the one of the batch.
  \<open>junk\<close> stands for the value of the field \<open>processed_by_shard\<close> that failure results leave uninitialised.
\<close>

section \<open>Model\<close>

record RouterConfig =
  expert_capacity :: nat

record Router =
  expert_to_shard :: "u32 \<rightharpoonup> u32"
  shard_transports :: "u32 set"
  router_config :: RouterConfig
  unhealthy_shards :: "u32 set"

text \<open>The constructor; the map of transports is known by the shards it has.\<close>

definition new_Router :: "(u32 \<rightharpoonup> u32) \<Rightarrow> u32 set \<Rightarrow> RouterConfig \<Rightarrow> Router" where
  "new_Router experts transports config =
     \<lparr>expert_to_shard = experts, shard_transports = transports, router_config = config, unhealthy_shards = {}\<rparr>"

text \<open>\<open>m[k].push_back(x)\<close> on a map of vectors, kept in the order the keys were created.\<close>

definition push_group :: "('k \<times> 'a list) list \<Rightarrow> 'k \<Rightarrow> 'a \<Rightarrow> ('k \<times> 'a list) list" where
  "push_group m k x =
     (case map_of m k of None \<Rightarrow> m @ [(k, [x])] | Some xs \<Rightarrow> AList.update k (xs @ [x]) m)"

fun rank_loop :: "RouterConfig \<Rightarrow> RoutedToken list \<Rightarrow> nat \<Rightarrow> nat list \<Rightarrow> u32 list \<Rightarrow> u32 list" where
  "rank_loop cfg ts rank [] eff = eff"
| "rank_loop cfg ts rank (idx # is) eff =
     rank_loop cfg ts (rank + 1) is
       (eff[idx := if rank < expert_capacity cfg then primary_expert (ts ! idx) else secondary_expert (ts ! idx)])"

definition indices_by_primary :: "RoutedToken list \<Rightarrow> (u32 \<times> nat list) list" where
  "indices_by_primary ts = foldl (\<lambda>m i. push_group m (primary_expert (ts ! i)) i) [] [0..<length ts]"

definition assign_effective_experts :: "(u32 list \<Rightarrow> u32 list) \<Rightarrow> RouterConfig \<Rightarrow> RoutedToken list \<Rightarrow> u32 list" where
  "assign_effective_experts ord cfg ts =
     (let m = indices_by_primary ts
      in foldl (\<lambda>eff e. rank_loop cfg ts 0 (sort_key (\<lambda>i. batch_position (ts ! i)) (the (map_of m e))) eff)
           (replicate (length ts) 0) (ord (map fst m)))"

definition shard_for_expert :: "Router \<Rightarrow> u32 \<Rightarrow> cpp_exn + u32" where
  "shard_for_expert rt expert_id =
     (case expert_to_shard rt expert_id of
        None \<Rightarrow> Inl (RuntimeError (''Router: no shard mapping for expert '' @ std_to_string expert_id))
      | Some s \<Rightarrow> Inr s)"

definition no_transport :: "u32 \<Rightarrow> cpp_exn" where
  "no_transport shard_id = RuntimeError (''Router: no transport registered for shard '' @ std_to_string shard_id)"

type_synonym 'w send_op = "u32 \<Rightarrow> u8 list \<Rightarrow> 'w \<Rightarrow> (cpp_exn + unit) \<times> 'w"
type_synonym 'w receive_op = "u32 \<Rightarrow> 'w \<Rightarrow> (cpp_exn + u8 list) \<times> 'w"

text \<open>\<open>transport_for_shard(s).send(m)\<close> and \<open>transport_for_shard(s).receive()\<close>.\<close>

definition shard_send :: "'w send_op \<Rightarrow> Router \<Rightarrow> 'w send_op" where
  "shard_send tsend rt s m w = (if s \<in> shard_transports rt then tsend s m w else (Inl (no_transport s), w))"

definition shard_receive :: "'w receive_op \<Rightarrow> Router \<Rightarrow> 'w receive_op" where
  "shard_receive treceive rt s w = (if s \<in> shard_transports rt then treceive s w else (Inl (no_transport s), w))"

text \<open>The scatter loop of \<open>route_batch\<close> and \<open>route_batch_tolerant\<close>: the value \<open>f i\<close> goes to the shard of
  token \<open>i\<close>.\<close>

fun scatter ::
    "Router \<Rightarrow> u32 list \<Rightarrow> (nat \<Rightarrow> 'a) \<Rightarrow> nat list \<Rightarrow> (u32 \<times> 'a list) list \<Rightarrow> cpp_exn + (u32 \<times> 'a list) list" where
  "scatter rt eff f [] m = Inr m"
| "scatter rt eff f (i # is) m =
     (case shard_for_expert rt (eff ! i) of
        Inl e \<Rightarrow> Inl e
      | Inr s \<Rightarrow> scatter rt eff f is (push_group m s (f i)))"

fun send_groups ::
    "'w send_op \<Rightarrow> Router \<Rightarrow> (u32 \<times> RoutedToken list) list \<Rightarrow> u32 list \<Rightarrow> 'w \<Rightarrow> (cpp_exn + unit) \<times> 'w" where
  "send_groups tsend rt m [] w = (Inr (), w)"
| "send_groups tsend rt m (s # ss) w =
     (case shard_send tsend rt s (encode_token_batch (the (map_of m s))) w of
        (Inl e, w') \<Rightarrow> (Inl e, w')
      | (Inr _, w') \<Rightarrow> send_groups tsend rt m ss w')"

fun gather ::
    "'w receive_op \<Rightarrow> Router \<Rightarrow> u32 list \<Rightarrow> RoutedResult list \<Rightarrow> 'w \<Rightarrow> (cpp_exn + RoutedResult list) \<times> 'w" where
  "gather treceive rt [] flat w = (Inr flat, w)"
| "gather treceive rt (s # ss) flat w =
     (case shard_receive treceive rt s w of
        (Inl e, w') \<Rightarrow> (Inl e, w')
      | (Inr raw, w') \<Rightarrow>
          (case decode_result_batch raw of
             Inl e \<Rightarrow> (Inl e, w')
           | Inr rs \<Rightarrow> gather treceive rt ss (flat @ rs) w'))"

definition default_RoutedResult :: RoutedResult where
  "default_RoutedResult = \<lparr>r_token_id = 0, r_batch_position = 0, processed_by_shard = 0, effective_expert = 0,
     r_payload = [], failed = False, failure_reason = []\<rparr>"

fun place_results :: "nat \<Rightarrow> RoutedResult list \<Rightarrow> RoutedResult list \<times> bool list \<Rightarrow> cpp_exn + RoutedResult list \<times> bool list" where
  "place_results n [] (ordered, filled) = Inr (ordered, filled)"
| "place_results n (r # rs) (ordered, filled) =
     (let p = unat (r_batch_position r)
      in if p \<ge> n
         then Inl (RuntimeError (''Router: result batch_position '' @ std_to_string (r_batch_position r)
                @ '' out of range for batch of size '' @ dec_digits n))
         else if filled ! p
         then Inl (RuntimeError (''Router: duplicate result for batch_position '' @ std_to_string (r_batch_position r)
                @ '' (dropped/duplicated token bug)''))
         else place_results n rs (ordered[p := r], filled[p := True]))"

fun check_filled :: "bool list \<Rightarrow> nat list \<Rightarrow> cpp_exn + unit" where
  "check_filled filled [] = Inr ()"
| "check_filled filled (i # is) =
     (if \<not> filled ! i
      then Inl (RuntimeError (''Router: missing result for batch_position '' @ dec_digits i @ '' (dropped token bug)''))
      else check_filled filled is)"

definition reassemble :: "nat \<Rightarrow> RoutedResult list \<Rightarrow> cpp_exn + RoutedResult list" where
  "reassemble n flat =
     (case place_results n flat (replicate n default_RoutedResult, replicate n False) of
        Inl e \<Rightarrow> Inl e
      | Inr (ordered, filled) \<Rightarrow>
          (case check_filled filled [0..<n] of Inl e \<Rightarrow> Inl e | Inr _ \<Rightarrow> Inr ordered))"

definition annotate :: "u32 list \<Rightarrow> RoutedResult list \<Rightarrow> RoutedResult list" where
  "annotate eff ordered = map (\<lambda>i. (ordered ! i)\<lparr>effective_expert := eff ! i\<rparr>) [0..<length ordered]"

definition route_batch ::
    "'w send_op \<Rightarrow> 'w receive_op \<Rightarrow> (u32 list \<Rightarrow> u32 list) \<Rightarrow> Router \<Rightarrow> RoutedToken list \<Rightarrow> 'w
       \<Rightarrow> (cpp_exn + RoutedResult list) \<times> 'w" where
  "route_batch tsend treceive ord rt tokens w =
     (let eff = assign_effective_experts ord (router_config rt) tokens
      in case scatter rt eff (\<lambda>i. tokens ! i) [0..<length tokens] [] of
           Inl e \<Rightarrow> (Inl e, w)
         | Inr by_shard \<Rightarrow>
             (let shards_sent = ord (map fst by_shard)
              in case send_groups tsend rt by_shard shards_sent w of
                   (Inl e, w1) \<Rightarrow> (Inl e, w1)
                 | (Inr _, w1) \<Rightarrow>
                     (case gather treceive rt shards_sent [] w1 of
                        (Inl e, w2) \<Rightarrow> (Inl e, w2)
                      | (Inr flat, w2) \<Rightarrow>
                          (case reassemble (length tokens) flat of
                             Inl e \<Rightarrow> (Inl e, w2)
                           | Inr ordered \<Rightarrow> (Inr (annotate eff ordered), w2)))))"

subsection \<open>Graceful degradation\<close>

text \<open>\<open>e.what()\<close> of the exceptions.\<close>

definition what :: "cpp_exn \<Rightarrow> string" where
  "what e = (case e of LogicError s \<Rightarrow> s | RuntimeError s \<Rightarrow> s | InvalidArgument s \<Rightarrow> s | OutOfRange s \<Rightarrow> s
     | JsonError s \<Rightarrow> s | PeerClosedError \<Rightarrow> ''transport peer closed the connection'' | Spin \<Rightarrow> [] | UndefinedBehaviour \<Rightarrow> [])"

definition failure_result :: "u32 \<Rightarrow> RoutedToken list \<Rightarrow> u32 list \<Rightarrow> nat \<Rightarrow> string \<Rightarrow> RoutedResult" where
  "failure_result junk tokens eff i reason =
     \<lparr>r_token_id = token_id (tokens ! i), r_batch_position = batch_position (tokens ! i), processed_by_shard = junk,
      effective_expert = eff ! i, r_payload = [], failed = True, failure_reason = reason\<rparr>"

text \<open>The closure \<open>fail_group\<close>; the write at the token's position is undefined beyond the batch.\<close>

fun fail_group ::
    "u32 \<Rightarrow> RoutedToken list \<Rightarrow> u32 list \<Rightarrow> nat list \<Rightarrow> string \<Rightarrow> RoutedResult list \<times> bool list
       \<Rightarrow> cpp_exn + RoutedResult list \<times> bool list" where
  "fail_group junk tokens eff [] reason (ordered, filled) = Inr (ordered, filled)"
| "fail_group junk tokens eff (i # is) reason (ordered, filled) =
     (let p = unat (batch_position (tokens ! i))
      in if p \<ge> length ordered then Inl UndefinedBehaviour
         else fail_group junk tokens eff is reason
                (ordered[p := failure_result junk tokens eff i reason], filled[p := True]))"

text \<open>The loop over the results a shard returned; \<open>pos\<close> is \<open>pos_to_effective\<close>.\<close>

fun place_tolerant ::
    "(u32 \<rightharpoonup> u32) \<Rightarrow> RoutedResult list \<Rightarrow> RoutedResult list \<times> bool list \<Rightarrow> RoutedResult list \<times> bool list" where
  "place_tolerant pos [] (ordered, filled) = (ordered, filled)"
| "place_tolerant pos (r # rs) (ordered, filled) =
     (let p = unat (r_batch_position r)
      in if p < length filled \<and> \<not> filled ! p
         then let r' = (case pos (r_batch_position r) of None \<Rightarrow> r | Some e \<Rightarrow> r\<lparr>effective_expert := e\<rparr>)
              in place_tolerant pos rs (ordered[p := r'], filled[p := True])
         else place_tolerant pos rs (ordered, filled))"

fun fill_missing ::
    "u32 \<Rightarrow> RoutedToken list \<Rightarrow> u32 list \<Rightarrow> string \<Rightarrow> nat list \<Rightarrow> RoutedResult list \<times> bool list
       \<Rightarrow> cpp_exn + RoutedResult list \<times> bool list" where
  "fill_missing junk tokens eff reason [] (ordered, filled) = Inr (ordered, filled)"
| "fill_missing junk tokens eff reason (i # is) (ordered, filled) =
     (let p = unat (batch_position (tokens ! i))
      in if p \<ge> length filled then Inl UndefinedBehaviour
         else if \<not> filled ! p
         then fill_missing junk tokens eff reason is
                (ordered[p := failure_result junk tokens eff i reason], filled[p := True])
         else fill_missing junk tokens eff reason is (ordered, filled))"

text \<open>The body of the \<open>try\<close> block.\<close>

definition exchange ::
    "'w send_op \<Rightarrow> 'w receive_op \<Rightarrow> Router \<Rightarrow> u32 \<Rightarrow> RoutedToken list \<Rightarrow> 'w \<Rightarrow> (cpp_exn + RoutedResult list) \<times> 'w" where
  "exchange tsend treceive rt s grp w =
     (case shard_send tsend rt s (encode_token_batch grp) w of
        (Inl e, w1) \<Rightarrow> (Inl e, w1)
      | (Inr _, w1) \<Rightarrow>
          (case shard_receive treceive rt s w1 of
             (Inl e, w2) \<Rightarrow> (Inl e, w2)
           | (Inr raw, w2) \<Rightarrow> (decode_result_batch raw, w2)))"

definition unhealthy_reason :: "u32 \<Rightarrow> string" where
  "unhealthy_reason s = ''shard '' @ std_to_string s
     @ '' marked unhealthy from a previous failure in this Router's lifetime''"

definition missing_reason :: "u32 \<Rightarrow> string" where
  "missing_reason s = ''missing result from shard '' @ std_to_string s"

definition pos_to_effective :: "RoutedToken list \<Rightarrow> u32 list \<Rightarrow> nat list \<Rightarrow> u32 \<rightharpoonup> u32" where
  "pos_to_effective tokens eff idxs = foldl (\<lambda>m i. m(batch_position (tokens ! i) \<mapsto> eff ! i)) Map.empty idxs"

text \<open>One turn of the loop over the shards.\<close>

definition tolerant_group ::
    "'w send_op \<Rightarrow> 'w receive_op \<Rightarrow> u32 \<Rightarrow> RoutedToken list \<Rightarrow> u32 list \<Rightarrow> u32 \<Rightarrow> nat list
       \<Rightarrow> Router \<times> RoutedResult list \<times> bool list \<times> 'w
       \<Rightarrow> cpp_exn + Router \<times> RoutedResult list \<times> bool list \<times> 'w" where
  "tolerant_group tsend treceive junk tokens eff s idxs = (\<lambda>(rt, ordered, filled, w).
     if s \<in> unhealthy_shards rt
     then (case fail_group junk tokens eff idxs (unhealthy_reason s) (ordered, filled) of
             Inl e \<Rightarrow> Inl e
           | Inr (ordered', filled') \<Rightarrow> Inr (rt, ordered', filled', w))
     else (case exchange tsend treceive rt s (map (\<lambda>i. tokens ! i) idxs) w of
             (Inl e, w') \<Rightarrow>
               (case fail_group junk tokens eff idxs (what e) (ordered, filled) of
                  Inl e' \<Rightarrow> Inl e'
                | Inr (ordered', filled') \<Rightarrow>
                    Inr (rt\<lparr>unhealthy_shards := insert s (unhealthy_shards rt)\<rparr>, ordered', filled', w'))
           | (Inr rs, w') \<Rightarrow>
               (case fill_missing junk tokens eff (missing_reason s) idxs
                       (place_tolerant (pos_to_effective tokens eff idxs) rs (ordered, filled)) of
                  Inl e' \<Rightarrow> Inl e'
                | Inr (ordered', filled') \<Rightarrow> Inr (rt, ordered', filled', w'))))"

fun tolerant_loop ::
    "'w send_op \<Rightarrow> 'w receive_op \<Rightarrow> u32 \<Rightarrow> RoutedToken list \<Rightarrow> u32 list \<Rightarrow> (u32 \<times> nat list) list \<Rightarrow> u32 list
       \<Rightarrow> Router \<times> RoutedResult list \<times> bool list \<times> 'w
       \<Rightarrow> cpp_exn + Router \<times> RoutedResult list \<times> bool list \<times> 'w" where
  "tolerant_loop tsend treceive junk tokens eff m [] st = Inr st"
| "tolerant_loop tsend treceive junk tokens eff m (s # ss) st =
     (case tolerant_group tsend treceive junk tokens eff s (the (map_of m s)) st of
        Inl e \<Rightarrow> Inl e
      | Inr st' \<Rightarrow> tolerant_loop tsend treceive junk tokens eff m ss st')"

definition route_batch_tolerant ::
    "'w send_op \<Rightarrow> 'w receive_op \<Rightarrow> (u32 list \<Rightarrow> u32 list) \<Rightarrow> u32 \<Rightarrow> Router \<Rightarrow> RoutedToken list \<Rightarrow> 'w
       \<Rightarrow> cpp_exn + RoutedResult list \<times> Router \<times> 'w" where
  "route_batch_tolerant tsend treceive ord junk rt tokens w =
     (let eff = assign_effective_experts ord (router_config rt) tokens; n = length tokens
      in case scatter rt eff (\<lambda>i. i) [0..<n] [] of
           Inl e \<Rightarrow> Inl e
         | Inr indices_by_shard \<Rightarrow>
             (case tolerant_loop tsend treceive junk tokens eff indices_by_shard (ord (map fst indices_by_shard))
                     (rt, replicate n default_RoutedResult, replicate n False, w) of
                Inl e \<Rightarrow> Inl e
              | Inr (rt', ordered, filled, w') \<Rightarrow> Inr (ordered, rt', w')))"

definition is_shard_unhealthy :: "Router \<Rightarrow> u32 \<Rightarrow> bool" where
  "is_shard_unhealthy rt s \<longleftrightarrow> s \<in> unhealthy_shards rt"

definition unhealthy_shard_count :: "Router \<Rightarrow> nat" where
  "unhealthy_shard_count rt = card (unhealthy_shards rt)"

end
