(* ===== verification/Router_Properties.thy ===== *)
theory Router_Properties
  imports Router
begin

text \<open>
  The properties of the router: the capacity ceiling, reassembly, a whole batch over shards that answer, and
  graceful degradation when some do not.
\<close>

section \<open>Grouping\<close>

text \<open>A traversal order visits every key once.\<close>

definition perm_ord :: "(u32 list \<Rightarrow> u32 list) \<Rightarrow> bool" where
  "perm_ord ord \<longleftrightarrow> (\<forall>ks. mset (ord ks) = mset ks)"

lemma perm_ordD:
  assumes "perm_ord ord"
  shows "set (ord ks) = set ks" "distinct (ord ks) \<longleftrightarrow> distinct ks"
  using assms unfolding perm_ord_def by (metis mset_eq_setD, metis mset_eq_imp_distinct_iff)

lemma perm_ord_id: "perm_ord (\<lambda>ks. ks)" and perm_ord_rev: "perm_ord rev"
  by (simp_all add: perm_ord_def)

lemma push_group_facts:
  assumes "distinct (map fst m)"
  shows "distinct (map fst (push_group m k x))" "set (map fst (push_group m k x)) = insert k (set (map fst m))"
    "map_of (push_group m k x) s =
       (if s = k then Some ((case map_of m k of None \<Rightarrow> [] | Some xs \<Rightarrow> xs) @ [x]) else map_of m s)"
proof -
  show "distinct (map fst (push_group m k x))" "set (map fst (push_group m k x)) = insert k (set (map fst m))"
    using assms by (auto simp: push_group_def map_of_eq_None_iff distinct_update dom_update
        image_iff update_keys split: option.split dest: map_of_SomeD)
  show "map_of (push_group m k x) s =
      (if s = k then Some ((case map_of m k of None \<Rightarrow> [] | Some xs \<Rightarrow> xs) @ [x]) else map_of m s)"
    by (auto simp: push_group_def update_conv' map_add_def split: option.split)
qed

definition group_by :: "(nat \<Rightarrow> u32) \<Rightarrow> (nat \<Rightarrow> 'a) \<Rightarrow> nat list \<Rightarrow> (u32 \<times> 'a list) list" where
  "group_by k f is = foldl (\<lambda>m i. push_group m (k i) (f i)) [] is"

lemma group_by_facts:
  "distinct (map fst (group_by k f is)) \<and> set (map fst (group_by k f is)) = k ` set is
   \<and> (\<forall>s. map_of (group_by k f is) s = (if s \<in> k ` set is then Some (map f (filter (\<lambda>i. k i = s) is)) else None))"
proof (induction "is" rule: rev_induct)
  case Nil
  then show ?case by (simp add: group_by_def)
next
  case (snoc i "is")
  have g: "group_by k f (is @ [i]) = push_group (group_by k f is) (k i) (f i)" by (simp add: group_by_def)
  note IH = snoc
  have d: "distinct (map fst (group_by k f is))" using IH by simp
  note pg = push_group_facts [OF d, of "k i" "f i"]
  show ?case
  proof (intro conjI allI)
    show "distinct (map fst (group_by k f (is @ [i])))" using pg(1) by (simp only: g)
    show "set (map fst (group_by k f (is @ [i]))) = k ` set (is @ [i])" using pg(2) IH by (simp only: g) auto
    fix s
    show "map_of (group_by k f (is @ [i])) s
        = (if s \<in> k ` set (is @ [i]) then Some (map f (filter (\<lambda>i. k i = s) (is @ [i]))) else None)"
    proof (cases "s = k i")
      case True
      have "filter (\<lambda>j. k j = k i) is = []" if "k i \<notin> k ` set is" using that by (metis (mono_tags, lifting) filter_False imageI)
      with True IH show ?thesis by (auto simp: g pg(3))
    next
      case False
      with IH show ?thesis by (auto simp: g pg(3))
    qed
  qed
qed

lemma scatter_ok:
  "\<forall>i \<in> set is. expert_to_shard rt (eff ! i) \<noteq> None \<Longrightarrow>
     scatter rt eff f is m = Inr (foldl (\<lambda>m i. push_group m (the (expert_to_shard rt (eff ! i))) (f i)) m is)"
  by (induction "is" arbitrary: m) (auto simp: shard_for_expert_def)

section \<open>The capacity ceiling\<close>

lemma takeWhile_sorted_key:
  fixes key :: "nat \<Rightarrow> u32"
  assumes "sorted (map key ys)" "distinct (map key ys)" "j \<in> set ys"
  shows "takeWhile (\<lambda>i. i \<noteq> j) ys = filter (\<lambda>i. key i < key j) ys"
  using assms
proof (induction ys)
  case (Cons y ys)
  show ?case
  proof (cases "y = j")
    case True
    then have "\<forall>i \<in> set ys. \<not> key i < key j" using Cons.prems(1) by auto
    then have "filter (\<lambda>i. key i < key j) ys = []" by (simp add: filter_empty_conv)
    with True show ?thesis by simp
  next
    case False
    then have j: "j \<in> set ys" using Cons.prems(3) by simp
    then have "key y < key j" using Cons.prems(1,2) by (fastforce simp: order_le_less)
    with False Cons j show ?thesis by simp
  qed
qed simp

lemma rank_in_sorted:
  fixes key :: "nat \<Rightarrow> u32"
  assumes "inj_on key (set xs)" "distinct xs" "j \<in> set xs"
  shows "length (takeWhile (\<lambda>i. i \<noteq> j) (sort_key key xs)) = length (filter (\<lambda>i. key i < key j) xs)"
proof -
  have "distinct (map key (sort_key key xs))" using assms by (simp add: distinct_map)
  then have "takeWhile (\<lambda>i. i \<noteq> j) (sort_key key xs) = filter (\<lambda>i. key i < key j) (sort_key key xs)"
    using assms(3) by (intro takeWhile_sorted_key) simp_all
  then show ?thesis by (metis mset_filter mset_sort size_mset)
qed

definition expert_choice :: "RouterConfig \<Rightarrow> RoutedToken list \<Rightarrow> nat \<Rightarrow> nat \<Rightarrow> u32" where
  "expert_choice cfg ts rank i = (if rank < expert_capacity cfg then primary_expert (ts ! i) else secondary_expert (ts ! i))"

lemma length_rank_loop [simp]: "length (rank_loop cfg ts r is eff) = length eff"
  by (induction "is" arbitrary: r eff) simp_all

lemma rank_loop_nth:
  assumes "distinct is" "set is \<subseteq> {0..<length eff}" "j < length eff"
  shows "rank_loop cfg ts r is eff ! j =
     (if j \<in> set is then expert_choice cfg ts (r + length (takeWhile (\<lambda>i. i \<noteq> j) is)) j else eff ! j)"
  using assms
proof (induction "is" arbitrary: r eff)
  case (Cons i "is")
  have "rank_loop cfg ts (r + 1) is (eff[i := expert_choice cfg ts r i]) ! j
      = (if j \<in> set is then expert_choice cfg ts (r + 1 + length (takeWhile (\<lambda>i. i \<noteq> j) is)) j
         else eff[i := expert_choice cfg ts r i] ! j)"
    using Cons.prems by (intro Cons.IH) auto
  with Cons.prems show ?case by (auto simp: expert_choice_def)
qed simp

lemma length_foldl_rank_loop: "length (foldl (\<lambda>eff e. rank_loop cfg ts 0 (g e) eff) eff es) = length eff"
  by (induction es arbitrary: eff) simp_all

lemma foldl_rank_loop:
  assumes "distinct es" "\<And>e. e \<in> set es \<Longrightarrow> distinct (g e) \<and> set (g e) \<subseteq> {i. i < length eff \<and> p i = e}" "j < length eff"
  shows "foldl (\<lambda>eff e. rank_loop cfg ts 0 (g e) eff) eff es ! j =
     (if p j \<in> set es \<and> j \<in> set (g (p j)) then expert_choice cfg ts (length (takeWhile (\<lambda>i. i \<noteq> j) (g (p j)))) j else eff ! j)"
  using assms
proof (induction es arbitrary: eff)
  case (Cons e es)
  let ?eff = "rank_loop cfg ts 0 (g e) eff"
  have ge: "distinct (g e)" "set (g e) \<subseteq> {i. i < length eff \<and> p i = e}" using Cons.prems(2) [of e] by simp_all
  have here: "?eff ! j = (if j \<in> set (g e) then expert_choice cfg ts (length (takeWhile (\<lambda>i. i \<noteq> j) (g e))) j else eff ! j)"
    using rank_loop_nth [of "g e" eff j cfg ts 0] ge Cons.prems(3) by (auto simp: subset_iff)
  have rest: "foldl (\<lambda>eff e. rank_loop cfg ts 0 (g e) eff) ?eff es ! j =
      (if p j \<in> set es \<and> j \<in> set (g (p j)) then expert_choice cfg ts (length (takeWhile (\<lambda>i. i \<noteq> j) (g (p j)))) j else ?eff ! j)"
    using Cons.prems by (intro Cons.IH) auto
  have "p j = e" if "j \<in> set (g e)" using ge(2) that by auto
  then show ?case using here rest Cons.prems(1) by auto
qed simp

definition positions_ok :: "RoutedToken list \<Rightarrow> bool" where
  "positions_ok ts \<longleftrightarrow> distinct (map batch_position ts) \<and> (\<forall>t \<in> set ts. unat (batch_position t) < length ts)"

text \<open>How many tokens of the same primary expert come before token \<open>i\<close>.\<close>

definition expert_rank :: "RoutedToken list \<Rightarrow> nat \<Rightarrow> nat" where
  "expert_rank ts i = length (filter (\<lambda>j. primary_expert (ts ! j) = primary_expert (ts ! i)
     \<and> batch_position (ts ! j) < batch_position (ts ! i)) [0..<length ts])"

lemma inj_on_position:
  "distinct (map batch_position ts) \<Longrightarrow> inj_on (\<lambda>i. batch_position (ts ! i)) {0..<length ts}"
  by (auto simp: inj_on_def distinct_conv_nth) (metis)

lemma assign_effective_experts_eq:
  assumes "perm_ord ord" "distinct (map batch_position ts)"
  shows "assign_effective_experts ord cfg ts = map (\<lambda>i. expert_choice cfg ts (expert_rank ts i) i) [0..<length ts]"
proof (rule nth_equalityI)
  let ?p = "\<lambda>i. primary_expert (ts ! i)" and ?pos = "\<lambda>i. batch_position (ts ! i)" and ?n = "length ts"
  define m where "m = group_by ?p (\<lambda>i. i) [0..<?n]"
  define g where "g e = sort_key ?pos (the (map_of m e))" for e
  have m: "indices_by_primary ts = m" by (simp add: indices_by_primary_def m_def group_by_def)
  note gf = group_by_facts [of ?p "\<lambda>i. i" "[0..<?n]", folded m_def]
  have mo: "the (map_of m e) = filter (\<lambda>i. ?p i = e) [0..<?n]" if "e \<in> ?p ` {0..<?n}" for e using gf that by simp
  have es: "distinct (ord (map fst m))" "set (ord (map fst m)) = ?p ` {0..<?n}"
    using gf perm_ordD [OF assms(1)] by auto
  have grp: "distinct (g e) \<and> set (g e) \<subseteq> {i. i < length (replicate ?n (0 :: u32)) \<and> ?p i = e}"
    if "e \<in> set (ord (map fst m))" for e
    using that es(2) by (auto simp: g_def mo)
  have fold: "assign_effective_experts ord cfg ts = foldl (\<lambda>eff e. rank_loop cfg ts 0 (g e) eff) (replicate ?n 0) (ord (map fst m))"
    by (simp add: assign_effective_experts_def m Let_def g_def)
  show len: "length (assign_effective_experts ord cfg ts) = length (map (\<lambda>i. expert_choice cfg ts (expert_rank ts i) i) [0..<?n])"
    by (simp add: fold length_foldl_rank_loop)
  fix j assume "j < length (assign_effective_experts ord cfg ts)"
  then have j: "j < ?n" using len by simp
  have gj: "g (?p j) = sort_key ?pos (filter (\<lambda>i. ?p i = ?p j) [0..<?n])" using j by (simp add: g_def mo)
  have "length (takeWhile (\<lambda>i. i \<noteq> j) (g (?p j))) = length (filter (\<lambda>i. ?pos i < ?pos j) (filter (\<lambda>i. ?p i = ?p j) [0..<?n]))"
    unfolding gj using inj_on_position [OF assms(2)] j by (intro rank_in_sorted) (auto simp: inj_on_def)
  also have "\<dots> = expert_rank ts j" by (simp add: expert_rank_def conj_commute)
  finally show "assign_effective_experts ord cfg ts ! j = map (\<lambda>i. expert_choice cfg ts (expert_rank ts i) i) [0..<?n] ! j"
    using foldl_rank_loop [OF es(1) grp, of j cfg ts] j es(2) gj by (simp add: fold)
qed

lemma expert_rank_card:
  "expert_rank ts i = card {j. j < length ts \<and> primary_expert (ts ! j) = primary_expert (ts ! i)
     \<and> batch_position (ts ! j) < batch_position (ts ! i)}"
proof -
  have "expert_rank ts i = card (set (filter (\<lambda>j. primary_expert (ts ! j) = primary_expert (ts ! i)
      \<and> batch_position (ts ! j) < batch_position (ts ! i)) [0..<length ts]))"
    unfolding expert_rank_def by (intro distinct_card [symmetric]) simp
  also have "set (filter (\<lambda>j. primary_expert (ts ! j) = primary_expert (ts ! i)
      \<and> batch_position (ts ! j) < batch_position (ts ! i)) [0..<length ts])
    = {j. j < length ts \<and> primary_expert (ts ! j) = primary_expert (ts ! i)
      \<and> batch_position (ts ! j) < batch_position (ts ! i)}" by auto
  finally show ?thesis .
qed

lemma expert_rank_less:
  assumes "i < length ts" "primary_expert (ts ! i) = primary_expert (ts ! j)" "batch_position (ts ! i) < batch_position (ts ! j)"
  shows "expert_rank ts i < expert_rank ts j"
  unfolding expert_rank_card using assms by (intro psubset_card_mono) auto

lemma kept_at_most_capacity:
  assumes "distinct (map batch_position ts)"
  shows "card {i. i < length ts \<and> primary_expert (ts ! i) = e \<and> expert_rank ts i < cap} \<le> cap"
proof -
  let ?K = "{i. i < length ts \<and> primary_expert (ts ! i) = e \<and> expert_rank ts i < cap}"
  have "inj_on (expert_rank ts) ?K"
  proof (rule inj_onI)
    fix i j assume ij: "i \<in> ?K" "j \<in> ?K" "expert_rank ts i = expert_rank ts j"
    then have "batch_position (ts ! i) = batch_position (ts ! j)"
      using expert_rank_less [of i ts j] expert_rank_less [of j ts i] by (metis (mono_tags, lifting) mem_Collect_eq
          less_irrefl linorder_neqE)
    then show "i = j" using assms ij by (auto simp: distinct_conv_nth)
  qed
  then have "card ?K = card (expert_rank ts ` ?K)" by (rule card_image [symmetric])
  also have "\<dots> \<le> card {0..<cap}" by (rule card_mono) auto
  finally show ?thesis by simp
qed

text \<open>C25. The capacity ceiling: for a batch with distinct positions the tokens of an expert are ranked by
  position, those of rank below the capacity keep their primary expert and the others go to their own
  secondary expert; at most \<open>expert_capacity\<close> tokens keep an expert, and the traversal order of the hash
  table has no influence.\<close>

theorem capacity_ceiling:
  assumes "perm_ord ord" "distinct (map batch_position ts)"
  shows "length (assign_effective_experts ord cfg ts) = length ts
    \<and> (\<forall>i < length ts. assign_effective_experts ord cfg ts ! i =
         (if expert_rank ts i < expert_capacity cfg then primary_expert (ts ! i) else secondary_expert (ts ! i)))
    \<and> (\<forall>e. card {i. i < length ts \<and> primary_expert (ts ! i) = e \<and> expert_rank ts i < expert_capacity cfg}
         \<le> expert_capacity cfg)"
  using kept_at_most_capacity [OF assms(2)] by (simp add: assign_effective_experts_eq [OF assms] expert_choice_def)

definition demo_batch :: "RoutedToken list" where
  "demo_batch =
     [\<lparr>token_id = 10, batch_position = 1, primary_expert = 0, secondary_expert = 1, payload = [1]\<rparr>,
      \<lparr>token_id = 11, batch_position = 0, primary_expert = 0, secondary_expert = 2, payload = [2]\<rparr>]"

theorem capacity_ceiling_witness:
  "assign_effective_experts rev \<lparr>expert_capacity = 1\<rparr> demo_batch ! 0 = 1
     \<and> assign_effective_experts rev \<lparr>expert_capacity = 1\<rparr> demo_batch ! 1 = 0"
proof -
  have "distinct (map batch_position demo_batch)" "length demo_batch = 2" "expert_rank demo_batch 0 = 1" "expert_rank demo_batch 1 = 0"
    by (simp_all add: demo_batch_def expert_rank_def)
  with capacity_ceiling [OF perm_ord_rev this(1), of "\<lparr>expert_capacity = 1\<rparr>"] show ?thesis by (simp add: demo_batch_def)
qed

section \<open>Reassembly\<close>

abbreviation rpos :: "RoutedResult \<Rightarrow> nat" where
  "rpos r \<equiv> unat (r_batch_position r)"

lemma place_results_ok:
  assumes "length ordered = n" "length filled = n" "\<forall>r \<in> set rs. rpos r < n \<and> \<not> filled ! rpos r" "distinct (map rpos rs)"
  shows "\<exists>ordered' filled'. place_results n rs (ordered, filled) = Inr (ordered', filled') \<and> length ordered' = n \<and> length filled' = n
     \<and> (\<forall>r \<in> set rs. ordered' ! rpos r = r) \<and> (\<forall>p < n. p \<notin> rpos ` set rs \<longrightarrow> ordered' ! p = ordered ! p)
     \<and> (\<forall>p < n. filled' ! p \<longleftrightarrow> filled ! p \<or> p \<in> rpos ` set rs)"
  using assms
proof (induction rs arbitrary: ordered filled)
  case (Cons r rs)
  have "\<exists>ordered' filled'. place_results n rs (ordered[rpos r := r], filled[rpos r := True]) = Inr (ordered', filled')
      \<and> length ordered' = n \<and> length filled' = n
      \<and> (\<forall>q \<in> set rs. ordered' ! rpos q = q) \<and> (\<forall>p < n. p \<notin> rpos ` set rs \<longrightarrow> ordered' ! p = ordered[rpos r := r] ! p)
      \<and> (\<forall>p < n. filled' ! p \<longleftrightarrow> filled[rpos r := True] ! p \<or> p \<in> rpos ` set rs)"
    using Cons.prems by (intro Cons.IH) (auto simp: nth_list_update)
  then obtain ordered' filled' where *: "place_results n rs (ordered[rpos r := r], filled[rpos r := True]) = Inr (ordered', filled')"
    "length ordered' = n" "length filled' = n" "\<forall>q \<in> set rs. ordered' ! rpos q = q"
    "\<forall>p < n. p \<notin> rpos ` set rs \<longrightarrow> ordered' ! p = ordered[rpos r := r] ! p"
    "\<forall>p < n. filled' ! p \<longleftrightarrow> filled[rpos r := True] ! p \<or> p \<in> rpos ` set rs" by blast
  have r: "rpos r < n" "\<not> filled ! rpos r" "rpos r \<notin> rpos ` set rs" using Cons.prems(3,4) by auto
  show ?case
    using * r Cons.prems(1,2) by (intro exI [of _ ordered'] exI [of _ filled']) (auto simp: nth_list_update)
qed simp

lemma place_results_Inr:
  assumes "place_results n rs (ordered, filled) = Inr st" "length filled = n"
  shows "(\<forall>r \<in> set rs. rpos r < n \<and> \<not> filled ! rpos r) \<and> distinct (map rpos rs)"
  using assms
proof (induction rs arbitrary: ordered filled)
  case (Cons r rs)
  then have r: "rpos r < n" "\<not> filled ! rpos r" "place_results n rs (ordered[rpos r := r], filled[rpos r := True]) = Inr st"
    by (auto simp: Let_def split: if_splits)
  have IH: "(\<forall>q \<in> set rs. rpos q < n \<and> \<not> filled[rpos r := True] ! rpos q) \<and> distinct (map rpos rs)"
    using Cons.IH [OF r(3)] Cons.prems(2) by simp
  have "rpos r \<notin> rpos ` set rs"
  proof
    assume "rpos r \<in> rpos ` set rs"
    then obtain q where "q \<in> set rs" "rpos q = rpos r" by auto
    with IH r(1) Cons.prems(2) show False by (metis nth_list_update_eq)
  qed
  moreover from this have "\<not> filled ! rpos q" if "q \<in> set rs" for q
    using IH that by (metis imageI nth_list_update_neq)
  ultimately show ?case using r IH by auto
qed simp

lemma check_filled_iff: "check_filled filled is = Inr () \<longleftrightarrow> (\<forall>i \<in> set is. filled ! i)"
  by (induction "is") auto

definition exact_cover :: "nat \<Rightarrow> RoutedResult list \<Rightarrow> bool" where
  "exact_cover n flat \<longleftrightarrow> distinct (map rpos flat) \<and> set (map rpos flat) = {0..<n}"

lemma reassemble_ok:
  assumes "exact_cover n flat"
  shows "\<exists>ordered. reassemble n flat = Inr ordered \<and> length ordered = n \<and> (\<forall>r \<in> set flat. ordered ! rpos r = r)"
proof -
  have c: "distinct (map rpos flat)" "set (map rpos flat) = {0..<n}" using assms by (auto simp: exact_cover_def)
  have "rpos r < n" if "r \<in> set flat" for r
  proof -
    have "rpos r \<in> set (map rpos flat)" using that by simp
    then show ?thesis unfolding c(2) by simp
  qed
  then have "\<forall>r \<in> set flat. rpos r < n \<and> \<not> replicate n False ! rpos r" by simp
  then obtain ordered filled where p: "place_results n flat (replicate n default_RoutedResult, replicate n False) = Inr (ordered, filled)"
    "length ordered = n" "\<forall>r \<in> set flat. ordered ! rpos r = r" "\<forall>p < n. filled ! p \<longleftrightarrow> replicate n False ! p \<or> p \<in> rpos ` set flat"
    using place_results_ok [of "replicate n default_RoutedResult" n "replicate n False" flat] c(1) by auto
  have "\<forall>p < n. filled ! p" using p(4) c(2) by auto
  then have "check_filled filled [0..<n] = Inr ()" by (simp add: check_filled_iff)
  with p show ?thesis by (simp add: reassemble_def)
qed

lemma reassemble_Inr:
  assumes "reassemble n flat = Inr ordered"
  shows "exact_cover n flat"
proof -
  obtain o' f' where p: "place_results n flat (replicate n default_RoutedResult, replicate n False) = Inr (o', f')"
    "check_filled f' [0..<n] = Inr ()"
    using assms by (auto simp: reassemble_def split: sum.splits)
  have r: "\<forall>r \<in> set flat. rpos r < n \<and> \<not> replicate n False ! rpos r" "distinct (map rpos flat)"
    using place_results_Inr [OF p(1)] by simp_all
  then have "\<forall>p < n. f' ! p \<longleftrightarrow> p \<in> rpos ` set flat"
    using place_results_ok [of "replicate n default_RoutedResult" n "replicate n False" flat] p(1) by auto
  with p(2) r show ?thesis by (auto simp: check_filled_iff exact_cover_def)
qed

text \<open>Reassembly is exact: it succeeds exactly when the results' positions are the numbers below the batch
  size, each once, and then puts every result at its position; a missing, duplicated or out-of-range result
  is an exception, never a wrong batch.\<close>

theorem reassemble_exact:
  "case reassemble n flat of
     Inr ordered \<Rightarrow> distinct (map rpos flat) \<and> set (map rpos flat) = {0..<n}
       \<and> length ordered = n \<and> (\<forall>r \<in> set flat. ordered ! rpos r = r)
   | Inl e \<Rightarrow> \<not> (distinct (map rpos flat) \<and> set (map rpos flat) = {0..<n})"
proof (cases "reassemble n flat")
  case (Inl e)
  then show ?thesis using reassemble_ok [of n flat] by (auto simp: exact_cover_def)
next
  case (Inr ordered)
  then show ?thesis using reassemble_Inr [OF Inr] reassemble_ok [OF reassemble_Inr [OF Inr]] by (auto simp: exact_cover_def)
qed

theorem reassemble_exact_witness:
  "\<exists>ordered. reassemble 2 [default_RoutedResult\<lparr>r_batch_position := 1\<rparr>, default_RoutedResult] = Inr ordered
     \<and> ordered ! 1 = default_RoutedResult\<lparr>r_batch_position := 1\<rparr>"
proof -
  let ?flat = "[default_RoutedResult\<lparr>r_batch_position := 1\<rparr>, default_RoutedResult]"
  have "distinct (map rpos ?flat) \<and> set (map rpos ?flat) = {0..<2}" by (auto simp: default_RoutedResult_def)
  with reassemble_exact [where n = 2 and flat = ?flat] show ?thesis by (cases "reassemble 2 ?flat") auto
qed

section \<open>Graceful degradation: every token is accounted for\<close>

abbreviation tpos :: "RoutedToken list \<Rightarrow> nat \<Rightarrow> nat" where
  "tpos ts i \<equiv> unat (batch_position (ts ! i))"

lemma tpos_facts:
  assumes "positions_ok ts"
  shows "i < length ts \<Longrightarrow> tpos ts i < length ts"
    "i < length ts \<Longrightarrow> j < length ts \<Longrightarrow> tpos ts i = tpos ts j \<longleftrightarrow> i = j"
    "tpos ts ` {0..<length ts} = {0..<length ts}"
proof -
  show lt: "i < length ts \<Longrightarrow> tpos ts i < length ts" for i using assms by (simp add: positions_ok_def)
  show inj: "i < length ts \<Longrightarrow> j < length ts \<Longrightarrow> tpos ts i = tpos ts j \<longleftrightarrow> i = j" for i j
    using assms by (auto simp: positions_ok_def distinct_conv_nth simp flip: word_unat_eq_iff)
  have "inj_on (tpos ts) {0..<length ts}" using inj by (auto simp: inj_on_def)
  then show "tpos ts ` {0..<length ts} = {0..<length ts}"
    using lt by (intro endo_inj_surj) auto
qed

text \<open>A filled position holds a result for that position; a failure names the token and its expert.\<close>

definition slots_ok :: "RoutedToken list \<Rightarrow> u32 list \<Rightarrow> RoutedResult list \<times> bool list \<Rightarrow> bool" where
  "slots_ok ts eff st \<longleftrightarrow> length (fst st) = length ts \<and> length (snd st) = length ts
     \<and> (\<forall>i < length ts. snd st ! tpos ts i \<longrightarrow> r_batch_position (fst st ! tpos ts i) = batch_position (ts ! i)
          \<and> (failed (fst st ! tpos ts i) \<longrightarrow> r_token_id (fst st ! tpos ts i) = token_id (ts ! i)
               \<and> effective_expert (fst st ! tpos ts i) = eff ! i))"

definition covers :: "RoutedToken list \<Rightarrow> nat list \<Rightarrow> bool list \<Rightarrow> bool list \<Rightarrow> bool" where
  "covers ts idxs old new \<longleftrightarrow> (\<forall>p. old ! p \<and> p < length old \<longrightarrow> new ! p) \<and> (\<forall>i \<in> set idxs. new ! tpos ts i)"

lemma slots_ok_failure:
  assumes "positions_ok ts" "slots_ok ts eff (ordered, filled)" "i < length ts"
  shows "slots_ok ts eff (ordered[tpos ts i := failure_result junk ts eff i reason], filled[tpos ts i := True])"
  using assms tpos_facts(1,2) [OF assms(1)]
  by (auto simp: slots_ok_def failure_result_def nth_list_update)

lemma fail_group_ok:
  assumes "positions_ok ts" "slots_ok ts eff (ordered, filled)" "set idxs \<subseteq> {0..<length ts}"
  shows "\<exists>st. fail_group junk ts eff idxs reason (ordered, filled) = Inr st \<and> slots_ok ts eff st \<and> covers ts idxs filled (snd st)"
  using assms(2,3)
proof (induction idxs arbitrary: ordered filled)
  case Nil
  then show ?case by (simp add: covers_def)
next
  case (Cons i idxs)
  let ?p = "tpos ts i"
  have i: "i < length ts" using Cons.prems(2) by simp
  have p: "?p < length ordered" "?p < length filled" "length filled = length ts"
    using tpos_facts(1) [OF assms(1) i] Cons.prems(1) by (auto simp: slots_ok_def)
  obtain st where st: "fail_group junk ts eff idxs reason (ordered[?p := failure_result junk ts eff i reason], filled[?p := True]) = Inr st"
    "slots_ok ts eff st" "covers ts idxs (filled[?p := True]) (snd st)"
    using Cons.IH [OF slots_ok_failure [OF assms(1) Cons.prems(1) i, where junk = junk and reason = reason]] Cons.prems(2) by auto
  moreover have "covers ts (i # idxs) filled (snd st)"
    using st(3) p by (auto simp: covers_def nth_list_update)
  ultimately show ?case using p by auto
qed

lemma fill_missing_ok:
  assumes "positions_ok ts" "slots_ok ts eff (ordered, filled)" "set idxs \<subseteq> {0..<length ts}"
  shows "\<exists>st. fill_missing junk ts eff reason idxs (ordered, filled) = Inr st \<and> slots_ok ts eff st \<and> covers ts idxs filled (snd st)"
  using assms(2,3)
proof (induction idxs arbitrary: ordered filled)
  case Nil
  then show ?case by (simp add: covers_def)
next
  case (Cons i idxs)
  let ?p = "tpos ts i"
  have i: "i < length ts" using Cons.prems(2) by simp
  have p: "?p < length filled" "length filled = length ts"
    using tpos_facts(1) [OF assms(1) i] Cons.prems(1) by (auto simp: slots_ok_def)
  show ?case
  proof (cases "filled ! ?p")
    case True
    then show ?thesis using Cons.IH [OF Cons.prems(1)] Cons.prems(2) p by (auto simp: covers_def)
  next
    case False
    obtain st where st: "fill_missing junk ts eff reason idxs (ordered[?p := failure_result junk ts eff i reason], filled[?p := True]) = Inr st"
      "slots_ok ts eff st" "covers ts idxs (filled[?p := True]) (snd st)"
      using Cons.IH [OF slots_ok_failure [OF assms(1) Cons.prems(1) i, where junk = junk and reason = reason]] Cons.prems(2) by auto
    moreover have "covers ts (i # idxs) filled (snd st)"
      using st(3) p by (auto simp: covers_def nth_list_update)
    ultimately show ?thesis using p False by auto
  qed
qed

lemma place_tolerant_ok:
  assumes "positions_ok ts" "slots_ok ts eff (ordered, filled)" "\<forall>r \<in> set rs. \<not> failed r"
  shows "slots_ok ts eff (place_tolerant pos rs (ordered, filled)) \<and> covers ts [] filled (snd (place_tolerant pos rs (ordered, filled)))"
  using assms(2,3)
proof (induction rs arbitrary: ordered filled)
  case Nil
  then show ?case by (simp add: covers_def)
next
  case (Cons r rs)
  let ?p = "rpos r"
  define r' where "r' = (case pos (r_batch_position r) of None \<Rightarrow> r | Some e \<Rightarrow> r\<lparr>effective_expert := e\<rparr>)"
  show ?case
  proof (cases "?p < length filled \<and> \<not> filled ! ?p")
    case True
    have r': "r_batch_position r' = r_batch_position r" "\<not> failed r'"
      using Cons.prems(2) by (simp_all add: r'_def split: option.split)
    have "slots_ok ts eff (ordered[?p := r'], filled[?p := True])"
      using Cons.prems(1) True r' by (auto simp: slots_ok_def nth_list_update word_unat_eq_iff)
    from Cons.IH [OF this] Cons.prems(2) have IH:
      "slots_ok ts eff (place_tolerant pos rs (ordered[?p := r'], filled[?p := True]))"
      "covers ts [] (filled[?p := True]) (snd (place_tolerant pos rs (ordered[?p := r'], filled[?p := True])))" by auto
    have "place_tolerant pos (r # rs) (ordered, filled) = place_tolerant pos rs (ordered[?p := r'], filled[?p := True])"
      using True by (simp add: r'_def Let_def)
    moreover have "filled[?p := True] ! p" if "filled ! p" for p
      using that by (cases "p = ?p") (use True in auto)
    then have "covers ts [] filled (snd (place_tolerant pos rs (ordered[?p := r'], filled[?p := True])))"
      using IH(2) unfolding covers_def by simp
    ultimately show ?thesis using IH(1) by (simp only: simp_thms)
  next
    case False
    have "place_tolerant pos (r # rs) (ordered, filled) = place_tolerant pos rs (ordered, filled)"
      using False by (auto simp: Let_def)
    with Cons.IH [OF Cons.prems(1)] Cons.prems(2) show ?thesis by simp
  qed
qed

lemma covers_trans:
  "covers ts is a b \<Longrightarrow> covers ts js b c \<Longrightarrow> length a = length b \<Longrightarrow> set is \<subseteq> {0..<length ts} \<Longrightarrow> length b = length ts
     \<Longrightarrow> positions_ok ts \<Longrightarrow> covers ts (is @ js) a c"
  using tpos_facts(1) by (fastforce simp: covers_def)

lemma decoded_not_failed: "decode_result_batch raw = Inr rs \<Longrightarrow> \<forall>r \<in> set rs. \<not> failed r"
  using result.batch_canonical by (fastforce simp: list_all_iff on_wire_def)

lemma exchange_not_failed:
  "exchange tsend treceive rt s grp w = (Inr rs, w') \<Longrightarrow> \<forall>r \<in> set rs. \<not> failed r"
  using decoded_not_failed by (auto simp: exchange_def split: prod.splits sum.splits)

text \<open>One turn answers for its group, whatever the transport does; only the turn's own shard may become
  unhealthy.\<close>

lemma tolerant_group_ok:
  assumes "positions_ok ts" "slots_ok ts eff (ordered, filled)" "set idxs \<subseteq> {0..<length ts}"
  shows "\<exists>rt' ordered' filled' w'. tolerant_group tsend treceive junk ts eff s idxs (rt, ordered, filled, w) = Inr (rt', ordered', filled', w')
     \<and> slots_ok ts eff (ordered', filled') \<and> covers ts idxs filled filled'
     \<and> (rt' = rt \<or> rt' = rt\<lparr>unhealthy_shards := insert s (unhealthy_shards rt)\<rparr>)"
proof (cases "s \<in> unhealthy_shards rt")
  case True
  then show ?thesis using fail_group_ok [OF assms, of junk "unhealthy_reason s"]
    by (auto simp: tolerant_group_def)
next
  case healthy: False
  obtain r w' where x: "exchange tsend treceive rt s (map (\<lambda>i. ts ! i) idxs) w = (r, w')" by fastforce
  show ?thesis
  proof (cases r)
    case (Inl e)
    then show ?thesis using fail_group_ok [OF assms, of junk "what e"] x healthy
      by (auto simp: tolerant_group_def)
  next
    case (Inr rs)
    let ?p = "place_tolerant (pos_to_effective ts eff idxs) rs (ordered, filled)"
    have p: "slots_ok ts eff (fst ?p, snd ?p)" "covers ts [] filled (snd ?p)"
      using place_tolerant_ok [OF assms(1,2)] exchange_not_failed x Inr by fastforce+
    obtain st where st: "fill_missing junk ts eff (missing_reason s) idxs (fst ?p, snd ?p) = Inr st" "slots_ok ts eff st" "covers ts idxs (snd ?p) (snd st)"
      using fill_missing_ok [OF assms(1) p(1) assms(3)] by blast
    have "covers ts ([] @ idxs) filled (snd st)"
      using covers_trans [OF p(2) st(3)] p(1) assms(1,2) by (simp add: slots_ok_def)
    then show ?thesis using st x Inr healthy by (cases st) (simp add: tolerant_group_def)
  qed
qed

lemma tolerant_loop_ok:
  assumes "positions_ok ts" "slots_ok ts eff (ordered, filled)" "\<forall>s \<in> set ss. set (the (map_of m s)) \<subseteq> {0..<length ts}"
  shows "\<exists>rt' ordered' filled' w'. tolerant_loop tsend treceive junk ts eff m ss (rt, ordered, filled, w) = Inr (rt', ordered', filled', w')
     \<and> slots_ok ts eff (ordered', filled') \<and> covers ts (concat (map (\<lambda>s. the (map_of m s)) ss)) filled filled'
     \<and> unhealthy_shards rt \<subseteq> unhealthy_shards rt' \<and> unhealthy_shards rt' \<subseteq> unhealthy_shards rt \<union> set ss
     \<and> expert_to_shard rt' = expert_to_shard rt \<and> shard_transports rt' = shard_transports rt \<and> router_config rt' = router_config rt"
  using assms(2,3)
proof (induction ss arbitrary: rt ordered filled w)
  case Nil
  then show ?case by (simp add: covers_def)
next
  case (Cons s ss)
  have i: "set (the (map_of m s)) \<subseteq> {0..<length ts}"
    and rest: "\<forall>s \<in> set ss. set (the (map_of m s)) \<subseteq> {0..<length ts}" using Cons.prems(2) by simp_all
  obtain rt1 o1 f1 w1 where g: "tolerant_group tsend treceive junk ts eff s (the (map_of m s)) (rt, ordered, filled, w) = Inr (rt1, o1, f1, w1)"
    "slots_ok ts eff (o1, f1)" "covers ts (the (map_of m s)) filled f1"
    "rt1 = rt \<or> rt1 = rt\<lparr>unhealthy_shards := insert s (unhealthy_shards rt)\<rparr>"
    using tolerant_group_ok [OF assms(1) Cons.prems(1) i, where tsend = tsend and treceive = treceive and junk = junk
        and s = s and rt = rt and w = w] by (elim exE conjE)
  obtain rt2 o2 f2 w2 where l: "tolerant_loop tsend treceive junk ts eff m ss (rt1, o1, f1, w1) = Inr (rt2, o2, f2, w2)"
    "slots_ok ts eff (o2, f2)" "covers ts (concat (map (\<lambda>s. the (map_of m s)) ss)) f1 f2"
    "unhealthy_shards rt1 \<subseteq> unhealthy_shards rt2" "unhealthy_shards rt2 \<subseteq> unhealthy_shards rt1 \<union> set ss"
    "expert_to_shard rt2 = expert_to_shard rt1" "shard_transports rt2 = shard_transports rt1" "router_config rt2 = router_config rt1"
    using Cons.IH [OF g(2) rest, of rt1 w1] by (elim exE conjE)
  have "covers ts (concat (map (\<lambda>s. the (map_of m s)) (s # ss))) filled f2"
    using covers_trans [OF g(3) l(3)] i g(2) Cons.prems(1) assms(1) by (simp add: slots_ok_def)
  then show ?case using g(1,4) l by auto
qed

text \<open>The shard a token goes to, and the groups of a batch whose experts all have one.\<close>

definition token_shard :: "Router \<Rightarrow> u32 list \<Rightarrow> nat \<Rightarrow> u32" where
  "token_shard rt eff i = the (expert_to_shard rt (eff ! i))"

definition experts_mapped :: "Router \<Rightarrow> RoutedToken list \<Rightarrow> bool" where
  "experts_mapped rt ts \<longleftrightarrow> (\<forall>t \<in> set ts. expert_to_shard rt (primary_expert t) \<noteq> None \<and> expert_to_shard rt (secondary_expert t) \<noteq> None)"

lemma scatter_groups:
  assumes "perm_ord ord" "positions_ok ts" "experts_mapped rt ts"
  shows "scatter rt (assign_effective_experts ord cfg ts) f [0..<length ts] [] =
     Inr (group_by (token_shard rt (assign_effective_experts ord cfg ts)) f [0..<length ts])"
proof -
  have "expert_to_shard rt (assign_effective_experts ord cfg ts ! i) \<noteq> None" if "i < length ts" for i
    using that assms(2,3)
    by (simp add: assign_effective_experts_eq [OF assms(1)] positions_ok_def expert_choice_def experts_mapped_def)
  then show ?thesis by (subst scatter_ok) (simp_all add: group_by_def token_shard_def)
qed

text \<open>C19. Nothing is lost under faults: whatever the transports do - exceptions, short, wrong or foreign
  answers - \<open>route_batch_tolerant\<close> on a batch whose positions number it and whose experts are mapped
  returns, with exactly one result per position, carrying that position; a failed one names its token and the
  expert it was assigned, and the set of unhealthy shards only grows.\<close>

theorem tolerant_accounts_for_every_token:
  assumes "perm_ord ord" "positions_ok ts" "experts_mapped rt ts"
  shows "\<exists>results rt' w'. route_batch_tolerant tsend treceive ord junk rt ts w = Inr (results, rt', w')
    \<and> length results = length ts
    \<and> (\<forall>i < length ts. let r = results ! unat (batch_position (ts ! i))
         in r_batch_position r = batch_position (ts ! i)
            \<and> (failed r \<longrightarrow> r_token_id r = token_id (ts ! i)
                 \<and> effective_expert r = assign_effective_experts ord (router_config rt) ts ! i))
    \<and> unhealthy_shards rt \<subseteq> unhealthy_shards rt'"
proof -
  let ?n = "length ts" and ?eff = "assign_effective_experts ord (router_config rt) ts"
  define m where "m = group_by (token_shard rt ?eff) (\<lambda>i. i) [0..<?n]"
  note gf = group_by_facts [of "token_shard rt ?eff" "\<lambda>i. i" "[0..<?n]", folded m_def]
  have keys: "set (ord (map fst m)) = token_shard rt ?eff ` {0..<?n}" using gf perm_ordD [OF assms(1)] by simp
  have mo: "the (map_of m s) = filter (\<lambda>i. token_shard rt ?eff i = s) [0..<?n]" if "s \<in> set (ord (map fst m))" for s
    using gf that keys by simp
  have sl: "slots_ok ts ?eff (replicate ?n default_RoutedResult, replicate ?n False)"
    using tpos_facts(1) [OF assms(2)] by (simp add: slots_ok_def)
  have sub: "\<forall>s \<in> set (ord (map fst m)). set (the (map_of m s)) \<subseteq> {0..<?n}" using mo by auto
  obtain rt' ordered filled w' where l:
    "tolerant_loop tsend treceive junk ts ?eff m (ord (map fst m)) (rt, replicate ?n default_RoutedResult, replicate ?n False, w) = Inr (rt', ordered, filled, w')"
    "slots_ok ts ?eff (ordered, filled)" "covers ts (concat (map (\<lambda>s. the (map_of m s)) (ord (map fst m)))) (replicate ?n False) filled"
    "unhealthy_shards rt \<subseteq> unhealthy_shards rt'"
    using tolerant_loop_ok [OF assms(2) sl sub, where tsend = tsend and treceive = treceive and junk = junk and rt = rt and w = w]
    by (elim exE conjE)
  have run: "route_batch_tolerant tsend treceive ord junk rt ts w = Inr (ordered, rt', w')"
    using l(1) scatter_groups [OF assms, of "router_config rt" "\<lambda>i. i"] by (simp add: route_batch_tolerant_def Let_def m_def)
  have "i \<in> set (concat (map (\<lambda>s. the (map_of m s)) (ord (map fst m))))" if "i < ?n" for i
  proof -
    have "token_shard rt ?eff i \<in> set (ord (map fst m))" using that keys by simp
    then show ?thesis using mo that by (auto intro!: bexI [of _ "token_shard rt ?eff i"])
  qed
  then have "filled ! tpos ts i" if "i < ?n" for i using that l(3) unfolding covers_def by blast
  then have "\<forall>i < ?n. let r = ordered ! tpos ts i in r_batch_position r = batch_position (ts ! i)
      \<and> (failed r \<longrightarrow> r_token_id r = token_id (ts ! i) \<and> effective_expert r = ?eff ! i)"
    using l(2) by (simp add: slots_ok_def Let_def)
  moreover have "length ordered = ?n" using l(2) by (simp add: slots_ok_def)
  ultimately show ?thesis using run l(4) by blast
qed

definition demo_router :: Router where
  "demo_router = new_Router (\<lambda>e. Some (e mod 2)) {0, 1} \<lparr>expert_capacity = 1\<rparr>"

lemma demo_batch_ok: "positions_ok demo_batch" "experts_mapped demo_router demo_batch"
  by (simp_all add: positions_ok_def demo_batch_def experts_mapped_def demo_router_def new_Router_def)

theorem tolerant_accounts_for_every_token_witness:
  "\<exists>results rt' w'. route_batch_tolerant (\<lambda>s m w. (Inl PeerClosedError, w)) (\<lambda>s w. (Inr [], w)) rev 7 demo_router demo_batch (0 :: nat)
       = Inr (results, rt', w') \<and> r_batch_position (results ! 1) = 1"
proof -
  have "batch_position (demo_batch ! 0) = 1" "0 < length demo_batch" by (simp_all add: demo_batch_def)
  then show ?thesis
    using tolerant_accounts_for_every_token [OF perm_ord_rev demo_batch_ok, of "\<lambda>s m w. (Inl PeerClosedError, w)"
        "\<lambda>s w. (Inr [], w)" 7 "0 :: nat"] by (fastforce simp: Let_def)
qed

end
