(* ===== verification/Router_Delivery.thy ===== *)
theory Router_Delivery
  imports Router_Properties
begin

text \<open>
  The router over shards that serve: the contract of a cluster of workers behind transports is the locale
  \<open>shard_service\<close>, the guarantees of \<open>route_batch\<close> and \<open>route_batch_tolerant\<close> are proved in it, and it is
  interpreted on sockets (\<open>Transport\<close>) with the worker loop (\<open>Worker\<close>) at the other end.
\<close>

section \<open>Batches on the wire\<close>

lemma length_encode_token_batch:
  "length (encode_token_batch ts) = 4 + (\<Sum>t \<leftarrow> ts. 24 + length (payload t) * 4)"
  by (simp add: token.enc_split encode_token_eq put_u32_def put_u64_def put_floats_eq length_concat
      comp_def algebra_simps sum_list_triv)

lemma length_encode_result_batch:
  "length (encode_result_batch rs) = 4 + (\<Sum>r \<leftarrow> rs. 20 + length (r_payload r) * 4)"
  by (simp add: result.enc_split encode_result_eq put_u32_def put_u64_def put_floats_eq length_concat
      comp_def algebra_simps sum_list_triv)

definition reply :: "u32 \<Rightarrow> RoutedToken list \<Rightarrow> RoutedResult list" where
  "reply s ts = map (\<lambda>t. process_token_placeholder t s) ts"

lemma reply_fits: "wire_batch ts \<Longrightarrow> length (encode_result_batch (reply s ts)) < 2 ^ 64"
proof -
  assume "wire_batch ts"
  moreover have "(\<Sum>r \<leftarrow> reply s ts. 20 + length (r_payload r) * 4) \<le> (\<Sum>t \<leftarrow> ts. 24 + length (payload t) * 4)"
    unfolding reply_def by (induction ts) (simp_all add: process_token_placeholder_def)
  ultimately show ?thesis by (simp add: wire_batch_def length_encode_token_batch length_encode_result_batch)
qed

lemma decode_reply: "wire_batch ts \<Longrightarrow> decode_result_batch (encode_result_batch (reply s ts)) = Inr (reply s ts)"
  using result.batch_roundtrip [of "reply s ts" "[]"]
  by (simp add: wire_batch_def reply_def list_all_iff on_wire_def process_token_placeholder_def)

text \<open>The tokens of one shard fit on the wire when the batch does.\<close>

lemma sum_list_filter_le_nat: "(\<Sum>i \<leftarrow> filter P is. f i) \<le> (\<Sum>i \<leftarrow> is. f i :: nat)"
  by (induction "is") simp_all

lemma wire_batch_group:
  assumes "wire_batch ts"
  shows "wire_batch (map (\<lambda>i. ts ! i) (filter P [0..<length ts]))"
proof -
  let ?is = "filter P [0..<length ts]" and ?f = "\<lambda>t. 24 + length (payload t) * 4"
  have "(\<Sum>t \<leftarrow> map (\<lambda>i. ts ! i) ?is. ?f t) \<le> (\<Sum>i \<leftarrow> [0..<length ts]. ?f (ts ! i))"
    using sum_list_filter_le_nat [of "\<lambda>i. ?f (ts ! i)" P "[0..<length ts]"] by (simp add: comp_def)
  also have "\<dots> = (\<Sum>t \<leftarrow> ts. ?f t)"
    using arg_cong [OF map_nth [of ts], of "map ?f"] by (simp add: comp_def)
  finally have "(\<Sum>t \<leftarrow> map (\<lambda>i. ts ! i) ?is. ?f t) \<le> (\<Sum>t \<leftarrow> ts. ?f t)" .
  moreover have "length ?is \<le> length ts" using length_filter_le [of P "[0..<length ts]"] by simp
  moreover have "\<forall>t \<in> set (map (\<lambda>i. ts ! i) ?is). length (payload t) < 2 ^ 32" using assms by (auto simp: wire_batch_def)
  ultimately show ?thesis using assms unfolding wire_batch_def length_encode_token_batch by simp
qed

section \<open>Groups\<close>

lemma concat_groups:
  assumes "distinct is" "distinct ss"
  shows "distinct (concat (map (\<lambda>s. filter (\<lambda>i. k i = s) is) ss))"
    "set (concat (map (\<lambda>s. filter (\<lambda>i. k i = s) is) ss)) = {i \<in> set is. k i \<in> set ss}"
  using assms by (induction ss) auto

text \<open>The answers of all groups cover the batch exactly.\<close>

lemma answers_cover:
  assumes "positions_ok ts" "distinct ss" "shard ` {0..<length ts} = set ss"
    "flat = concat (map (\<lambda>s. reply s (map (\<lambda>i. ts ! i) (filter (\<lambda>i. shard i = s) [0..<length ts]))) ss)"
  shows "exact_cover (length ts) flat" "\<forall>i < length ts. process_token_placeholder (ts ! i) (shard i) \<in> set flat"
proof -
  let ?all = "concat (map (\<lambda>s. filter (\<lambda>i. shard i = s) [0..<length ts]) ss)"
  have all: "distinct ?all" "set ?all = {0..<length ts}"
    using concat_groups [of "[0..<length ts]" ss shard] assms(2,3) by (auto simp del: set_concat)
  have "map rpos flat = map (tpos ts) ?all"
    by (simp add: assms(4) reply_def map_concat comp_def process_token_placeholder_def)
  moreover have "inj_on (tpos ts) {0..<length ts}" using tpos_facts(2) [OF assms(1)] by (auto simp: inj_on_def)
  ultimately show "exact_cover (length ts) flat"
    using all tpos_facts(3) [OF assms(1)] by (simp add: exact_cover_def distinct_map del: set_concat set_map) simp
  show "\<forall>i < length ts. process_token_placeholder (ts ! i) (shard i) \<in> set flat"
    using assms(3) by (fastforce simp: assms(4) reply_def)
qed

section \<open>The contract of a cluster\<close>

text \<open>The cluster is seen as a map from shards to the batches they have not answered yet; a shard outside it is
  dead. A live shard takes any batch that fits on the wire and answers the oldest one; a dead one never
  delivers an answer; no operation touches another shard.\<close>

type_synonym cluster = "u32 \<rightharpoonup> RoutedToken list list"

locale shard_service =
  fixes tsend :: "'w send_op" and treceive :: "'w receive_op" and link :: "'w \<Rightarrow> cluster \<Rightarrow> bool"
  assumes send_up: "link w cl \<Longrightarrow> cl s = Some bs \<Longrightarrow> wire_batch ts \<Longrightarrow>
      \<exists>w'. tsend s (encode_token_batch ts) w = (Inr (), w') \<and> link w' (cl(s \<mapsto> bs @ [ts]))"
    and receive_up: "link w cl \<Longrightarrow> cl s = Some (ts # bs) \<Longrightarrow>
      \<exists>w'. treceive s w = (Inr (encode_result_batch (reply s ts)), w') \<and> link w' (cl(s \<mapsto> bs))"
    and send_down: "link w cl \<Longrightarrow> cl s = None \<Longrightarrow> \<exists>r w'. tsend s m w = (r, w') \<and> link w' cl"
    and receive_down: "link w cl \<Longrightarrow> cl s = None \<Longrightarrow> \<exists>e w'. treceive s w = (Inl e, w') \<and> link w' cl"
begin

lemma exchange_up:
  assumes "link w cl" "cl s = Some []" "s \<in> shard_transports rt" "wire_batch grp"
  shows "\<exists>w'. exchange tsend treceive rt s grp w = (Inr (reply s grp), w') \<and> link w' cl"
proof -
  obtain w1 where 1: "tsend s (encode_token_batch grp) w = (Inr (), w1)" "link w1 (cl(s \<mapsto> [] @ [grp]))"
    using send_up [OF assms(1,2,4)] by blast
  obtain w2 where 2: "treceive s w1 = (Inr (encode_result_batch (reply s grp)), w2)" "link w2 ((cl(s \<mapsto> [] @ [grp]))(s \<mapsto> []))"
    using receive_up [OF 1(2), of s grp "[]"] by auto
  have "(cl(s \<mapsto> [] @ [grp]))(s \<mapsto> []) = cl" using assms(2) by (auto simp: fun_eq_iff)
  then show ?thesis using 1 2 assms(3) decode_reply [OF assms(4)] by (simp add: exchange_def shard_send_def shard_receive_def)
qed

lemma exchange_down:
  assumes "link w cl" "cl s = None \<or> s \<notin> shard_transports rt"
  shows "\<exists>e w'. exchange tsend treceive rt s grp w = (Inl e, w') \<and> link w' cl"
proof (cases "s \<in> shard_transports rt")
  case True
  then have n: "cl s = None" using assms(2) by simp
  obtain r w1 where 1: "tsend s (encode_token_batch grp) w = (r, w1)" "link w1 cl" using send_down [OF assms(1) n] by blast
  obtain e w2 where 2: "treceive s w1 = (Inl e, w2)" "link w2 cl" using receive_down [OF 1(2) n] by blast
  show ?thesis using 1 2 True by (cases r) (simp_all add: exchange_def shard_send_def shard_receive_def)
next
  case False
  then show ?thesis using assms(1) by (simp add: exchange_def shard_send_def)
qed

text \<open>The two loops of \<open>route_batch\<close>: every group is sent, then every shard's answer is collected in the order
  of the sends.\<close>

lemma send_groups_up:
  assumes "link w cl" "distinct ss" "\<forall>s \<in> set ss. s \<in> shard_transports rt \<and> cl s = Some [] \<and> wire_batch (the (map_of m s))"
  shows "\<exists>w'. send_groups tsend rt m ss w = (Inr (), w')
     \<and> link w' (\<lambda>s. if s \<in> set ss then Some [the (map_of m s)] else cl s)"
  using assms
proof (induction ss arbitrary: w cl)
  case (Cons s ss)
  let ?g = "the (map_of m s)"
  obtain w1 where 1: "tsend s (encode_token_batch ?g) w = (Inr (), w1)" "link w1 (cl(s \<mapsto> [] @ [?g]))"
    using send_up [OF Cons.prems(1), of s "[]" ?g] Cons.prems(3) by auto
  have rest: "\<forall>q \<in> set ss. q \<in> shard_transports rt \<and> (cl(s \<mapsto> [] @ [?g])) q = Some [] \<and> wire_batch (the (map_of m q))"
    using Cons.prems(2,3) by auto
  obtain w2 where 2: "send_groups tsend rt m ss w1 = (Inr (), w2)"
    "link w2 (\<lambda>q. if q \<in> set ss then Some [the (map_of m q)] else (cl(s \<mapsto> [] @ [?g])) q)"
    using Cons.IH [OF 1(2) _ rest] Cons.prems(2) by auto
  have "(\<lambda>q. if q \<in> set ss then Some [the (map_of m q)] else (cl(s \<mapsto> [] @ [?g])) q)
      = (\<lambda>q. if q \<in> set (s # ss) then Some [the (map_of m q)] else cl q)" by (auto simp: fun_eq_iff)
  with 1(1) 2 Cons.prems(3) show ?case by (simp add: shard_send_def)
qed simp

lemma gather_up:
  assumes "link w cl" "distinct ss" "\<forall>s \<in> set ss. s \<in> shard_transports rt \<and> cl s = Some [grp s] \<and> wire_batch (grp s)"
  shows "\<exists>w'. gather treceive rt ss flat w = (Inr (flat @ concat (map (\<lambda>s. reply s (grp s)) ss)), w')
     \<and> link w' (\<lambda>s. if s \<in> set ss then Some [] else cl s)"
  using assms
proof (induction ss arbitrary: w cl flat)
  case (Cons s ss)
  obtain w1 where 1: "treceive s w = (Inr (encode_result_batch (reply s (grp s))), w1)" "link w1 (cl(s \<mapsto> []))"
    using receive_up [OF Cons.prems(1), of s "grp s" "[]"] Cons.prems(3) by auto
  have rest: "\<forall>q \<in> set ss. q \<in> shard_transports rt \<and> (cl(s \<mapsto> [])) q = Some [grp q] \<and> wire_batch (grp q)"
    using Cons.prems(2,3) by auto
  obtain w2 where 2: "gather treceive rt ss (flat @ reply s (grp s)) w1
      = (Inr ((flat @ reply s (grp s)) @ concat (map (\<lambda>s. reply s (grp s)) ss)), w2)"
    "link w2 (\<lambda>q. if q \<in> set ss then Some [] else (cl(s \<mapsto> [])) q)"
    using Cons.IH [OF 1(2) _ rest, of "flat @ reply s (grp s)"] Cons.prems(2) by auto
  have "(\<lambda>q. if q \<in> set ss then Some [] else (cl(s \<mapsto> [])) q) = (\<lambda>q. if q \<in> set (s # ss) then Some [] else cl q)"
    by (auto simp: fun_eq_iff)
  with 1(1) 2 Cons.prems(3) decode_reply show ?case by (simp add: shard_receive_def)
qed simp

end

definition all_served :: "Router \<Rightarrow> cluster \<Rightarrow> RoutedToken list \<Rightarrow> u32 list \<Rightarrow> bool" where
  "all_served rt cl ts eff \<longleftrightarrow> (\<forall>i < length ts. token_shard rt eff i \<in> shard_transports rt \<and> cl (token_shard rt eff i) = Some [])"

context shard_service
begin

lemma route_batch_served:
  assumes "perm_ord ord" "positions_ok ts" "experts_mapped rt ts" "wire_batch ts" "link w cl"
    "all_served rt cl ts (assign_effective_experts ord (router_config rt) ts)"
  defines "eff \<equiv> assign_effective_experts ord (router_config rt) ts"
  shows "\<exists>results w'. route_batch tsend treceive ord rt ts w = (Inr results, w') \<and> link w' cl \<and> length results = length ts
     \<and> (\<forall>i < length ts. results ! tpos ts i =
          (process_token_placeholder (ts ! i) (token_shard rt eff i))\<lparr>effective_expert := eff ! tpos ts i\<rparr>)"
proof -
  let ?n = "length ts" and ?shard = "token_shard rt eff"
  define m where "m = group_by ?shard (\<lambda>i. ts ! i) [0..<?n]"
  define ss where "ss = ord (map fst m)"
  define grp where "grp s = map (\<lambda>i. ts ! i) (filter (\<lambda>i. ?shard i = s) [0..<?n])" for s
  note gf = group_by_facts [of ?shard "\<lambda>i. ts ! i" "[0..<?n]", folded m_def]
  have ss: "distinct ss" "set ss = ?shard ` {0..<?n}" using gf perm_ordD [OF assms(1)] by (simp_all add: ss_def)
  have mo: "the (map_of m s) = grp s" if "s \<in> set ss" for s using gf that ss(2) by (simp add: grp_def)
  have served: "\<forall>s \<in> set ss. s \<in> shard_transports rt \<and> cl s = Some [] \<and> wire_batch (the (map_of m s))"
    using assms(6) wire_batch_group [OF assms(4)] mo ss(2) by (auto simp: all_served_def eff_def grp_def)
  obtain w1 where 1: "send_groups tsend rt m ss w = (Inr (), w1)"
    "link w1 (\<lambda>s. if s \<in> set ss then Some [the (map_of m s)] else cl s)"
    using send_groups_up [OF assms(5) ss(1) served] by blast
  have "\<forall>s \<in> set ss. s \<in> shard_transports rt \<and> (if s \<in> set ss then Some [the (map_of m s)] else cl s) = Some [grp s] \<and> wire_batch (grp s)"
    using served mo by simp
  from gather_up [OF 1(2) ss(1) this, of "[]"] obtain w2 where 2:
    "gather treceive rt ss [] w1 = (Inr (concat (map (\<lambda>s. reply s (grp s)) ss)), w2)"
    "link w2 (\<lambda>s. if s \<in> set ss then Some [] else if s \<in> set ss then Some [the (map_of m s)] else cl s)" by auto
  have idle: "(\<lambda>s. if s \<in> set ss then Some [] else if s \<in> set ss then Some [the (map_of m s)] else cl s) = cl"
    using served by (auto simp: fun_eq_iff)
  let ?flat = "concat (map (\<lambda>s. reply s (grp s)) ss)"
  have cover: "exact_cover ?n ?flat" "\<forall>i < ?n. process_token_placeholder (ts ! i) (?shard i) \<in> set ?flat"
    using answers_cover [OF assms(2) ss(1) ss(2) [symmetric], of ?flat] by (simp_all add: grp_def)
  then obtain ordered where o: "reassemble ?n ?flat = Inr ordered" "length ordered = ?n" "\<forall>r \<in> set ?flat. ordered ! rpos r = r"
    using reassemble_ok by blast
  have "ordered ! tpos ts i = process_token_placeholder (ts ! i) (?shard i)" if "i < ?n" for i
    using o(3) cover(2) that by (force simp: process_token_placeholder_def)
  then have "\<forall>i < ?n. annotate eff ordered ! tpos ts i = (process_token_placeholder (ts ! i) (?shard i))\<lparr>effective_expert := eff ! tpos ts i\<rparr>"
    using o(2) tpos_facts(1) [OF assms(2)] by (simp add: annotate_def)
  moreover have "route_batch tsend treceive ord rt ts w = (Inr (annotate eff ordered), w2)"
    using 1(1) 2(1) o(1) scatter_groups [OF assms(1-3), of "router_config rt" "\<lambda>i. ts ! i"]
    by (simp add: route_batch_def Let_def m_def [symmetric] ss_def eff_def [symmetric])
  ultimately show ?thesis using 2(2) idle o(2) by (simp add: annotate_def)
qed

end

section \<open>Isolation of a failed shard\<close>

text \<open>Writing a value for each index of a group at its position.\<close>

definition upd_all :: "RoutedToken list \<Rightarrow> (nat \<Rightarrow> 'a) \<Rightarrow> nat list \<Rightarrow> 'a list \<Rightarrow> 'a list" where
  "upd_all ts g is xs = foldl (\<lambda>xs i. xs[tpos ts i := g i]) xs is"

lemma upd_all_simps [simp]:
  "upd_all ts g [] xs = xs" "upd_all ts g (i # is) xs = upd_all ts g is (xs[tpos ts i := g i])"
  by (simp_all add: upd_all_def)

lemma length_upd_all [simp]: "length (upd_all ts g is xs) = length xs"
  by (induction "is" arbitrary: xs) simp_all

lemma nth_upd_all:
  assumes "positions_ok ts" "length xs = length ts" "set is \<subseteq> {0..<length ts}" "j < length ts"
  shows "upd_all ts g is xs ! tpos ts j = (if j \<in> set is then g j else xs ! tpos ts j)"
  using assms(2,3)
proof (induction "is" arbitrary: xs)
  case (Cons i "is")
  then have "upd_all ts g (i # is) xs ! tpos ts j = (if j \<in> set is then g j else xs[tpos ts i := g i] ! tpos ts j)" by simp
  moreover have "tpos ts i = tpos ts j \<longleftrightarrow> i = j" using tpos_facts(2) [OF assms(1)] Cons.prems(2) assms(4) by simp
  ultimately show ?case using Cons.prems(1) tpos_facts(1) [OF assms(1,4)] by (cases "i = j") simp_all
qed simp

lemma nth_upd_group:
  assumes "positions_ok ts" "i < length ts" "length xs = length ts"
  shows "upd_all ts h (filter (\<lambda>i. shard i = s) [0..<length ts]) xs ! tpos ts i = (if shard i = s then h i else xs ! tpos ts i)"
  using nth_upd_all [OF assms(1,3) _ assms(2), of "filter (\<lambda>i. shard i = s) [0..<length ts]" h] assms(2)
  by (auto simp: subset_iff)

lemma fail_group_eq:
  assumes "positions_ok ts" "length ordered = length ts" "set is \<subseteq> {0..<length ts}"
  shows "fail_group junk ts eff is reason (ordered, filled) =
     Inr (upd_all ts (\<lambda>i. failure_result junk ts eff i reason) is ordered, upd_all ts (\<lambda>_. True) is filled)"
  using assms(2,3)
proof (induction "is" arbitrary: ordered filled)
  case (Cons i "is")
  then have "tpos ts i < length ordered" using tpos_facts(1) [OF assms(1), of i] by simp
  with Cons show ?case by (simp add: Let_def)
qed simp

lemma fill_missing_noop:
  assumes "\<forall>i \<in> set is. tpos ts i < length filled \<and> filled ! tpos ts i"
  shows "fill_missing junk ts eff reason is (ordered, filled) = Inr (ordered, filled)"
  using assms by (induction "is") (simp_all add: Let_def)

definition genuine :: "RoutedToken list \<Rightarrow> u32 list \<Rightarrow> u32 \<Rightarrow> nat \<Rightarrow> RoutedResult" where
  "genuine ts eff s i = (process_token_placeholder (ts ! i) s)\<lparr>effective_expert := eff ! i\<rparr>"

lemma place_tolerant_reply:
  assumes "positions_ok ts" "length filled = length ts" "set is \<subseteq> {0..<length ts}" "distinct is"
    "\<forall>i \<in> set is. \<not> filled ! tpos ts i \<and> pos (batch_position (ts ! i)) = Some (eff ! i)"
  shows "place_tolerant pos (reply s (map (\<lambda>i. ts ! i) is)) (ordered, filled) =
     (upd_all ts (genuine ts eff s) is ordered, upd_all ts (\<lambda>_. True) is filled)"
  using assms(2-5)
proof (induction "is" arbitrary: ordered filled)
  case (Cons i "is")
  have i: "tpos ts i < length filled" using tpos_facts(1) [OF assms(1), of i] Cons.prems(1,2) by simp
  have "\<not> filled[tpos ts i := True] ! tpos ts j" if "j \<in> set is" for j
  proof -
    have "tpos ts j \<noteq> tpos ts i" using tpos_facts(2) [OF assms(1), of j i] that Cons.prems(2,3) by auto
    then show ?thesis using Cons.prems(4) that by simp
  qed
  then have "place_tolerant pos (reply s (map (\<lambda>i. ts ! i) is)) (ordered[tpos ts i := genuine ts eff s i], filled[tpos ts i := True])
      = (upd_all ts (genuine ts eff s) is (ordered[tpos ts i := genuine ts eff s i]), upd_all ts (\<lambda>_. True) is (filled[tpos ts i := True]))"
    using Cons.prems by (intro Cons.IH) auto
  moreover have "r_batch_position (process_token_placeholder t s) = batch_position t" for t
    by (simp add: process_token_placeholder_def)
  ultimately show ?case using Cons.prems(4) i by (simp add: reply_def Let_def genuine_def [symmetric])
qed (simp add: reply_def)

lemma pos_to_effective_eq:
  assumes "positions_ok ts" "set is \<subseteq> {0..<length ts}" "i \<in> set is"
  shows "pos_to_effective ts eff is (batch_position (ts ! i)) = Some (eff ! i)"
  using assms(2,3) unfolding pos_to_effective_def
proof (induction "is" rule: rev_induct)
  case (snoc j "is")
  have "batch_position (ts ! j) = batch_position (ts ! i) \<longleftrightarrow> j = i"
    using tpos_facts(2) [OF assms(1), of j i] snoc.prems by (auto simp: word_unat_eq_iff)
  with snoc show ?case by auto
qed simp

definition healthy :: "Router \<Rightarrow> cluster \<Rightarrow> u32 \<Rightarrow> bool" where
  "healthy rt cl s \<longleftrightarrow> s \<notin> unhealthy_shards rt \<and> s \<in> shard_transports rt \<and> cl s = Some []"

context shard_service
begin

lemma tolerant_group_served:
  assumes "link w cl" "cl s = None \<or> cl s = Some []" "positions_ok ts" "length ordered = length ts" "length filled = length ts"
    "set is \<subseteq> {0..<length ts}" "distinct is" "wire_batch (map (\<lambda>i. ts ! i) is)" "\<forall>i \<in> set is. \<not> filled ! tpos ts i"
  shows "\<exists>g rt' w'. tolerant_group tsend treceive junk ts eff s is (rt, ordered, filled, w)
       = Inr (rt', upd_all ts g is ordered, upd_all ts (\<lambda>_. True) is filled, w')
     \<and> link w' cl \<and> (if healthy rt cl s then g = genuine ts eff s \<and> rt' = rt
          else (\<exists>reason. g = (\<lambda>i. failure_result junk ts eff i reason)) \<and> rt' = rt\<lparr>unhealthy_shards := insert s (unhealthy_shards rt)\<rparr>)"
proof (cases "healthy rt cl s")
  case True
  then have h: "s \<notin> unhealthy_shards rt" "s \<in> shard_transports rt" "cl s = Some []" by (simp_all add: healthy_def)
  obtain w' where w': "exchange tsend treceive rt s (map (\<lambda>i. ts ! i) is) w = (Inr (reply s (map (\<lambda>i. ts ! i) is)), w')" "link w' cl"
    using exchange_up [OF assms(1) h(3,2) assms(8)] by blast
  let ?f = "upd_all ts (\<lambda>_. True) is filled"
  have "place_tolerant (pos_to_effective ts eff is) (reply s (map (\<lambda>i. ts ! i) is)) (ordered, filled) = (upd_all ts (genuine ts eff s) is ordered, ?f)"
    using assms pos_to_effective_eq [OF assms(3,6)] by (intro place_tolerant_reply) auto
  moreover have "tpos ts i < length ?f \<and> ?f ! tpos ts i" if "i \<in> set is" for i
    using nth_upd_all [OF assms(3,5,6), of i] tpos_facts(1) [OF assms(3), of i] that assms(5,6) by auto
  ultimately have "tolerant_group tsend treceive junk ts eff s is (rt, ordered, filled, w) = Inr (rt, upd_all ts (genuine ts eff s) is ordered, ?f, w')"
    using w'(1) h(1) by (simp add: tolerant_group_def fill_missing_noop)
  then show ?thesis using w'(2) True by auto
next
  case False
  show ?thesis
  proof (cases "s \<in> unhealthy_shards rt")
    case True
    then have "rt = rt\<lparr>unhealthy_shards := insert s (unhealthy_shards rt)\<rparr>" by (simp add: insert_absorb)
    then show ?thesis using True False assms(1) fail_group_eq [OF assms(3,4,6)]
      by (intro exI [of _ "\<lambda>i. failure_result junk ts eff i (unhealthy_reason s)"] exI [of _ rt] exI [of _ w])
        (auto simp: tolerant_group_def)
  next
    case ok: False
    then have "cl s = None \<or> s \<notin> shard_transports rt" using False assms(2) by (auto simp: healthy_def)
    then obtain e w' where "exchange tsend treceive rt s (map (\<lambda>i. ts ! i) is) w = (Inl e, w')" "link w' cl"
      using exchange_down [OF assms(1), of s rt "map (\<lambda>i. ts ! i) is"] by blast
    then show ?thesis using ok False fail_group_eq [OF assms(3,4,6)]
      by (intro exI [of _ "\<lambda>i. failure_result junk ts eff i (what e)"] exI [of _ "rt\<lparr>unhealthy_shards := insert s (unhealthy_shards rt)\<rparr>"] exI [of _ w'])
        (auto simp: tolerant_group_def)
  qed
qed

end

text \<open>What the slot of token \<open>i\<close> holds once the turn of its shard is over.\<close>

definition outcome :: "Router \<Rightarrow> cluster \<Rightarrow> RoutedToken list \<Rightarrow> u32 list \<Rightarrow> u32 \<Rightarrow> nat \<Rightarrow> RoutedResult \<Rightarrow> bool" where
  "outcome rt cl ts eff junk i r \<longleftrightarrow>
     (if healthy rt cl (token_shard rt eff i) then r = genuine ts eff (token_shard rt eff i) i
      else \<exists>reason. r = failure_result junk ts eff i reason)"

lemma outcome_other_shard:
  "token_shard rt eff i \<noteq> s \<Longrightarrow>
     outcome (rt\<lparr>unhealthy_shards := insert s (unhealthy_shards rt)\<rparr>) cl ts eff junk i r = outcome rt cl ts eff junk i r"
  by (simp add: outcome_def healthy_def token_shard_def)

lemma token_shard_unhealthy [simp]: "token_shard (rt\<lparr>unhealthy_shards := u\<rparr>) eff = token_shard rt eff"
  by (simp add: token_shard_def fun_eq_iff)

context shard_service
begin

lemma tolerant_loop_served:
  assumes "positions_ok ts" "wire_batch ts" "link w cl" "distinct ss" "\<forall>s \<in> set ss. cl s = None \<or> cl s = Some []"
    "\<forall>s \<in> set ss. the (map_of m s) = filter (\<lambda>i. token_shard rt eff i = s) [0..<length ts]"
    "length ordered = length ts" "length filled = length ts" "\<forall>i < length ts. token_shard rt eff i \<in> set ss \<longrightarrow> \<not> filled ! tpos ts i"
  shows "\<exists>rt' ordered' filled' w'. tolerant_loop tsend treceive junk ts eff m ss (rt, ordered, filled, w) = Inr (rt', ordered', filled', w')
     \<and> link w' cl \<and> length ordered' = length ts \<and> unhealthy_shards rt' = unhealthy_shards rt \<union> {s \<in> set ss. \<not> healthy rt cl s}
     \<and> (\<forall>i < length ts. if token_shard rt eff i \<in> set ss then outcome rt cl ts eff junk i (ordered' ! tpos ts i)
          else ordered' ! tpos ts i = ordered ! tpos ts i)"
  using assms(3-9)
proof (induction ss arbitrary: rt ordered filled w)
  case (Cons s ss)
  let ?is = "filter (\<lambda>i. token_shard rt eff i = s) [0..<length ts]" and ?u = "rt\<lparr>unhealthy_shards := insert s (unhealthy_shards rt)\<rparr>"
  have "cl s = None \<or> cl s = Some []" "set ?is \<subseteq> {0..<length ts}" "distinct ?is" "\<forall>i \<in> set ?is. \<not> filled ! tpos ts i"
    using Cons.prems(3,7) by auto
  from tolerant_group_served [OF Cons.prems(1) this(1) assms(1) Cons.prems(5,6) this(2,3) wire_batch_group [OF assms(2)] this(4),
      where junk = junk and eff = eff and rt = rt]
  obtain g rt1 w1 where g: "tolerant_group tsend treceive junk ts eff s ?is (rt, ordered, filled, w)
      = Inr (rt1, upd_all ts g ?is ordered, upd_all ts (\<lambda>_. True) ?is filled, w1)" "link w1 cl"
    "if healthy rt cl s then g = genuine ts eff s \<and> rt1 = rt else (\<exists>reason. g = (\<lambda>i. failure_result junk ts eff i reason)) \<and> rt1 = ?u"
    by blast
  have rt1: "rt1 = rt \<or> rt1 = ?u" "token_shard rt1 eff = token_shard rt eff"
    "q \<noteq> s \<Longrightarrow> healthy rt1 cl q = healthy rt cl q" for q using g(3) by (auto simp: healthy_def split: if_splits)
  let ?o = "upd_all ts g ?is ordered" and ?f = "upd_all ts (\<lambda>_. True) ?is filled"
  note nth = nth_upd_group [OF assms(1)]
  have unfilled: "\<not> ?f ! tpos ts i" if "i < length ts" "token_shard rt eff i \<in> set ss" for i
    using nth [OF that(1) Cons.prems(6), of "\<lambda>_. True" "token_shard rt eff" s] Cons.prems(2,7) that by auto
  have "\<exists>rt' ordered' filled' w'. tolerant_loop tsend treceive junk ts eff m ss (rt1, ?o, ?f, w1) = Inr (rt', ordered', filled', w')
     \<and> link w' cl \<and> length ordered' = length ts \<and> unhealthy_shards rt' = unhealthy_shards rt1 \<union> {q \<in> set ss. \<not> healthy rt1 cl q}
     \<and> (\<forall>i < length ts. if token_shard rt1 eff i \<in> set ss then outcome rt1 cl ts eff junk i (ordered' ! tpos ts i)
          else ordered' ! tpos ts i = ?o ! tpos ts i)"
    using Cons.prems(2-6) rt1(2) unfilled by (intro Cons.IH g(2)) simp_all
  then obtain rt2 o2 f2 w2 where l: "tolerant_loop tsend treceive junk ts eff m ss (rt1, ?o, ?f, w1) = Inr (rt2, o2, f2, w2)"
    "link w2 cl" "length o2 = length ts" "unhealthy_shards rt2 = unhealthy_shards rt1 \<union> {q \<in> set ss. \<not> healthy rt1 cl q}"
    "\<forall>i < length ts. if token_shard rt eff i \<in> set ss then outcome rt1 cl ts eff junk i (o2 ! tpos ts i)
          else o2 ! tpos ts i = ?o ! tpos ts i" unfolding rt1(2) by (elim exE conjE)
  have s: "s \<notin> set ss" using Cons.prems(2) by simp
  have "unhealthy_shards rt2 = unhealthy_shards rt \<union> {q \<in> set (s # ss). \<not> healthy rt cl q}"
    using l(4) g(3) rt1(3) s by (auto simp: healthy_def split: if_splits)
  moreover have "if token_shard rt eff i \<in> set (s # ss) then outcome rt cl ts eff junk i (o2 ! tpos ts i)
      else o2 ! tpos ts i = ordered ! tpos ts i" if "i < length ts" for i
  proof (cases "token_shard rt eff i = s")
    case True
    then have "o2 ! tpos ts i = g i" using l(5) that s nth [OF that Cons.prems(5), of g "token_shard rt eff" s] by auto
    then show ?thesis using g(3) True by (auto simp: outcome_def split: if_splits)
  next
    case False
    then have "outcome rt1 cl ts eff junk i r = outcome rt cl ts eff junk i r" for r
      using rt1(1) outcome_other_shard by blast
    then show ?thesis using l(5) False that nth [OF that Cons.prems(5), of g "token_shard rt eff" s] by auto
  qed
  moreover have "tolerant_loop tsend treceive junk ts eff m (s # ss) (rt, ordered, filled, w) = Inr (rt2, o2, f2, w2)"
    using g(1) l(1) Cons.prems(4) by simp
  ultimately show ?case using l(2,3) by blast
qed simp

end

context shard_service
begin

lemma route_batch_tolerant_served:
  assumes "perm_ord ord" "positions_ok ts" "experts_mapped rt ts" "wire_batch ts" "link w cl"
    "\<forall>s. cl s = None \<or> cl s = Some []"
  defines "eff \<equiv> assign_effective_experts ord (router_config rt) ts"
  shows "\<exists>results rt' w'. route_batch_tolerant tsend treceive ord junk rt ts w = Inr (results, rt', w')
     \<and> link w' cl \<and> length results = length ts
     \<and> (\<forall>i < length ts. outcome rt cl ts eff junk i (results ! tpos ts i))
     \<and> unhealthy_shards rt' = unhealthy_shards rt \<union> {s. \<exists>i < length ts. s = token_shard rt eff i \<and> \<not> healthy rt cl s}"
proof -
  let ?n = "length ts" and ?shard = "token_shard rt eff"
  define m where "m = group_by ?shard (\<lambda>i. i) [0..<?n]"
  define ss where "ss = ord (map fst m)"
  note gf = group_by_facts [of ?shard "\<lambda>i. i" "[0..<?n]", folded m_def]
  have ss: "distinct ss" "set ss = ?shard ` {0..<?n}" using gf perm_ordD [OF assms(1)] by (simp_all add: ss_def)
  have mo: "\<forall>s \<in> set ss. the (map_of m s) = filter (\<lambda>i. ?shard i = s) [0..<?n]" using gf ss(2) by simp
  have "\<exists>rt' ordered' filled' w'. tolerant_loop tsend treceive junk ts eff m ss (rt, replicate ?n default_RoutedResult, replicate ?n False, w)
        = Inr (rt', ordered', filled', w')
     \<and> link w' cl \<and> length ordered' = ?n \<and> unhealthy_shards rt' = unhealthy_shards rt \<union> {s \<in> set ss. \<not> healthy rt cl s}
     \<and> (\<forall>i < ?n. if ?shard i \<in> set ss then outcome rt cl ts eff junk i (ordered' ! tpos ts i)
          else ordered' ! tpos ts i = replicate ?n default_RoutedResult ! tpos ts i)"
    using assms(6) mo tpos_facts(1) [OF assms(2)] by (intro tolerant_loop_served [OF assms(2,4,5) ss(1)]) simp_all
  then obtain rt' ordered filled w' where l: "tolerant_loop tsend treceive junk ts eff m ss
      (rt, replicate ?n default_RoutedResult, replicate ?n False, w) = Inr (rt', ordered, filled, w')" "link w' cl" "length ordered = ?n"
    "unhealthy_shards rt' = unhealthy_shards rt \<union> {s \<in> set ss. \<not> healthy rt cl s}"
    "\<forall>i < ?n. if ?shard i \<in> set ss then outcome rt cl ts eff junk i (ordered ! tpos ts i)
          else ordered ! tpos ts i = replicate ?n default_RoutedResult ! tpos ts i" by (elim exE conjE)
  have "route_batch_tolerant tsend treceive ord junk rt ts w = Inr (ordered, rt', w')"
    using l(1) scatter_groups [OF assms(1-3), of "router_config rt" "\<lambda>i. i"]
    by (simp add: route_batch_tolerant_def Let_def m_def ss_def eff_def)
  moreover have "\<forall>i < ?n. outcome rt cl ts eff junk i (ordered ! tpos ts i)" using l(5) ss(2) by simp
  moreover have "unhealthy_shards rt' = unhealthy_shards rt \<union> {s. \<exists>i < ?n. s = ?shard i \<and> \<not> healthy rt cl s}"
    using l(4) ss(2) by auto
  ultimately show ?thesis using l(2,3) by blast
qed

end

section \<open>A cluster of sockets and worker loops\<close>

text \<open>Each shard has the router's end of its socket and the worker's end. Before the router reads, the worker
  runs its loop over the bytes that were written to it since, and its answers reach the router's end; the
  worker of a dead shard does not run.\<close>

record Shard =
  router_end :: Conn
  worker_end :: Conn
  alive :: bool

definition sock_send :: "(u32 \<Rightarrow> Shard) send_op" where
  "sock_send s m w = (let (r, c) = send (router_end (w s)) m in (r, w(s := (w s)\<lparr>router_end := c\<rparr>)))"

definition worker_turn :: "u32 \<Rightarrow> Shard \<Rightarrow> Shard" where
  "worker_turn s sh =
     (if alive sh
      then let c = router_end sh;
               (r, wc) = run_worker_loop ((worker_end sh)\<lparr>incoming := outgoing c, outgoing := []\<rparr>) s
           in sh\<lparr>router_end := c\<lparr>incoming := incoming c @ outgoing wc, outgoing := []\<rparr>, worker_end := wc\<rparr>
      else sh)"

definition sock_receive :: "(u32 \<Rightarrow> Shard) receive_op" where
  "sock_receive s w = (let sh = worker_turn s (w s); (r, c) = receive (router_end sh) in (r, w(s := sh\<lparr>router_end := c\<rparr>)))"

abbreviation token_frames :: "RoutedToken list list \<Rightarrow> u8 list" where
  "token_frames bs \<equiv> concat (map (\<lambda>ts. frame (encode_token_batch ts)) bs)"

abbreviation reply_frames :: "u32 \<Rightarrow> RoutedToken list list \<Rightarrow> u8 list" where
  "reply_frames s bs \<equiv> concat (map (\<lambda>ts. frame (encode_result_batch (reply s ts))) bs)"

definition serving :: "u32 \<Rightarrow> Shard \<Rightarrow> RoutedToken list list \<Rightarrow> bool" where
  "serving s sh bs \<longleftrightarrow> alive sh \<and> no_failure (read_script (router_end sh)) \<and> no_failure (write_script (router_end sh))
     \<and> no_failure (read_script (worker_end sh)) \<and> no_failure (write_script (worker_end sh))
     \<and> (\<forall>ts \<in> set bs. wire_batch ts)
     \<and> (\<exists>ready todo. bs = ready @ todo \<and> incoming (router_end sh) = reply_frames s ready \<and> outgoing (router_end sh) = token_frames todo)"

definition sock_link :: "(u32 \<Rightarrow> Shard) \<Rightarrow> cluster \<Rightarrow> bool" where
  "sock_link w cl \<longleftrightarrow> (\<forall>s. (\<forall>bs. cl s = Some bs \<longrightarrow> serving s (w s) bs)
     \<and> (cl s = None \<longrightarrow> \<not> alive (w s) \<and> incoming (router_end (w s)) = []))"

lemma sock_link_upd:
  "sock_link w cl \<Longrightarrow> serving s sh bs \<Longrightarrow> sock_link (w(s := sh)) (cl(s \<mapsto> bs))"
  "sock_link w cl \<Longrightarrow> cl s = None \<Longrightarrow> \<not> alive sh \<Longrightarrow> incoming (router_end sh) = [] \<Longrightarrow> sock_link (w(s := sh)) cl"
  by (simp_all add: sock_link_def)

lemma read_all_empty:
  assumes "incoming c = []" "0 < n"
  shows "\<exists>e c'. read_all allow c got n = (Inl e, c') \<and> incoming c' = []"
  using assms
proof (induction allow c got n rule: read_all.induct)
  case (1 allow c got n)
  obtain r c1 where s: "sys_read c n = (r, c1)" by fastforce
  have c1: "incoming c1 = []" "r = Done bs \<Longrightarrow> bs = []" for bs
    using s 1(3) by (auto simp: sys_read_def next_event_def Let_def split: list.splits io_event.splits)
  show ?case
  proof (cases r)
    case EINTR
    then show ?thesis using 1(2) [OF _ s [symmetric] EINTR c1(1) 1(4)] 1(4) s by (simp add: read_all.simps [of allow c])
  qed (use s c1 1(4) in \<open>simp_all add: read_all.simps [of allow c]\<close>)
qed

lemma serving_send:
  assumes "serving s sh bs" "wire_batch ts"
  shows "\<exists>c. send (router_end sh) (encode_token_batch ts) = (Inr (), c) \<and> serving s (sh\<lparr>router_end := c\<rparr>) (bs @ [ts])"
proof -
  obtain ready todo where b: "bs = ready @ todo" "incoming (router_end sh) = reply_frames s ready" "outgoing (router_end sh) = token_frames todo"
    using assms(1) by (auto simp: serving_def)
  obtain es where es: "no_failure es" "send (router_end sh) (encode_token_batch ts) =
      (Inr (), (router_end sh)\<lparr>write_script := es, outgoing := outgoing (router_end sh) @ frame (encode_token_batch ts)\<rparr>)"
    using send_ok [of "router_end sh" "encode_token_batch ts"] assms(1) by (auto simp: serving_def)
  have "\<exists>ready' todo'. bs @ [ts] = ready' @ todo' \<and> incoming (router_end sh) = reply_frames s ready'
      \<and> outgoing (router_end sh) @ frame (encode_token_batch ts) = token_frames todo'"
    using b by (intro exI [of _ ready] exI [of _ "todo @ [ts]"]) simp
  then show ?thesis using es assms by (simp add: serving_def)
qed

lemma serving_worker_turn:
  assumes "serving s sh bs"
  shows "serving s (worker_turn s sh) bs \<and> incoming (router_end (worker_turn s sh)) = reply_frames s bs \<and> outgoing (router_end (worker_turn s sh)) = []"
proof -
  obtain ready todo where b: "bs = ready @ todo" "incoming (router_end sh) = reply_frames s ready" "outgoing (router_end sh) = token_frames todo"
    using assms by (auto simp: serving_def)
  let ?c = "(worker_end sh)\<lparr>incoming := outgoing (router_end sh), outgoing := []\<rparr>"
  obtain wc where wc: "run_worker_loop ?c s = (Inr (length todo), wc)" "no_failure (read_script wc)" "no_failure (write_script wc)"
    "outgoing wc = reply_frames s todo"
    using worker_loop_answers [of ?c todo s 0] assms b by (auto simp: serving_def run_worker_loop_def reply_def)
  have "worker_turn s sh = sh\<lparr>router_end := (router_end sh)\<lparr>incoming := reply_frames s bs, outgoing := []\<rparr>, worker_end := wc\<rparr>"
    using assms wc b by (simp add: worker_turn_def serving_def Let_def)
  then show ?thesis using assms wc(2,3) by (auto simp: serving_def intro: exI [of _ bs] exI [of _ "[]"])
qed

interpretation sock: shard_service sock_send sock_receive sock_link
proof
  fix w :: "u32 \<Rightarrow> Shard" and cl s bs ts m
  assume link: "sock_link w cl"
  show "\<exists>w'. sock_send s (encode_token_batch ts) w = (Inr (), w') \<and> sock_link w' (cl(s \<mapsto> bs @ [ts]))"
    if "cl s = Some bs" "wire_batch ts"
  proof -
    have "serving s (w s) bs" using link that(1) by (simp add: sock_link_def)
    from serving_send [OF this that(2)] sock_link_upd(1) [OF link] show ?thesis by (auto simp: sock_send_def)
  qed
  show "\<exists>w'. sock_receive s w = (Inr (encode_result_batch (reply s ts)), w') \<and> sock_link w' (cl(s \<mapsto> bs))" if "cl s = Some (ts # bs)"
  proof -
    let ?sh = "worker_turn s (w s)"
    have "serving s (w s) (ts # bs)" using link that by (simp add: sock_link_def)
    from serving_worker_turn [OF this] have sv: "serving s ?sh (ts # bs)" "outgoing (router_end ?sh) = []"
      "incoming (router_end ?sh) = frame (encode_result_batch (reply s ts)) @ reply_frames s bs" by simp_all
    obtain es where es: "no_failure es" "receive (router_end ?sh) = (Inr (encode_result_batch (reply s ts)),
        (router_end ?sh)\<lparr>read_script := es, incoming := reply_frames s bs\<rparr>)"
      using receive_frame [OF _ sv(3)] sv(1) reply_fits by (auto simp: serving_def)
    have "serving s (?sh\<lparr>router_end := (router_end ?sh)\<lparr>read_script := es, incoming := reply_frames s bs\<rparr>\<rparr>) bs"
      using sv es(1) by (auto simp: serving_def intro: exI [of _ bs] exI [of _ "[]"])
    from sock_link_upd(1) [OF link this] show ?thesis using es(2) by (simp add: sock_receive_def Let_def)
  qed
  assume none: "cl s = None"
  then have dead: "\<not> alive (w s)" "incoming (router_end (w s)) = []"
    using link by (simp_all add: sock_link_def)
  show "\<exists>r w'. sock_send s m w = (r, w') \<and> sock_link w' cl"
    using sock_link_upd(2) [OF link none] dead send_incoming [of "router_end (w s)" m] by (auto simp: sock_send_def split: prod.splits)
  obtain e c where "read_all True (router_end (w s)) [] 8 = (Inl e, c)" "incoming c = []"
    using read_all_empty [OF dead(2), of 8 True "[]"] by auto
  then show "\<exists>e w'. sock_receive s w = (Inl e, w') \<and> sock_link w' cl"
    using sock_link_upd(2) [OF link none] dead(1) by (simp add: sock_receive_def worker_turn_def receive_def)
qed

section \<open>Properties\<close>

text \<open>C14. A whole batch end to end: over sockets with worker loops at the other end, \<open>route_batch\<close> succeeds on
  a batch whose positions number it and whose shards all serve; the result at a token's position is the
  worker's own computation for that token, made by the shard of the token's assigned expert, and afterwards
  nothing is left unread. Its label \<open>effective_expert\<close> is the expert assigned to the token whose index in the
  batch is that position.\<close>

theorem route_batch_delivers:
  assumes "perm_ord ord" "positions_ok ts" "experts_mapped rt ts" "wire_batch ts" "sock_link w cl"
    "all_served rt cl ts (assign_effective_experts ord (router_config rt) ts)"
  shows "\<exists>results w'. route_batch sock_send sock_receive ord rt ts w = (Inr results, w') \<and> sock_link w' cl
    \<and> length results = length ts
    \<and> (\<forall>i < length ts. results ! unat (batch_position (ts ! i)) =
         (process_token_placeholder (ts ! i) (the (expert_to_shard rt (assign_effective_experts ord (router_config rt) ts ! i))))
           \<lparr>effective_expert := assign_effective_experts ord (router_config rt) ts ! unat (batch_position (ts ! i))\<rparr>)"
  using sock.route_batch_served [OF assms] unfolding token_shard_def .

definition demo_shard :: Shard where
  "demo_shard = \<lparr>router_end = \<lparr>incoming = [], read_script = [Chunk 3], outgoing = [], write_script = [Interrupted]\<rparr>,
     worker_end = \<lparr>incoming = [], read_script = [Interrupted], outgoing = [], write_script = [Chunk 5]\<rparr>, alive = True\<rparr>"

definition demo_cluster :: "(u32 \<Rightarrow> Shard) \<times> cluster" where
  "demo_cluster = (\<lambda>s. demo_shard\<lparr>alive := s \<noteq> 1\<rparr>, \<lambda>s. if s = 1 then None else Some [])"

lemma demo_link: "sock_link (fst demo_cluster) (snd demo_cluster)" "sock_link (\<lambda>s. demo_shard) (\<lambda>s. Some [])"
  by (simp_all add: sock_link_def demo_cluster_def serving_def demo_shard_def)

lemma demo_batch_wire: "wire_batch demo_batch" "length demo_batch = 2"
  by (simp_all add: wire_batch_def length_encode_token_batch demo_batch_def)

lemma demo_eff: "assign_effective_experts rev (router_config demo_router) demo_batch = [1, 0]"
  by (simp add: assign_effective_experts_eq [OF perm_ord_rev] demo_batch_def demo_router_def new_Router_def expert_choice_def expert_rank_def
      numeral_2_eq_2)

theorem route_batch_delivers_witness:
  "\<exists>results w'. route_batch sock_send sock_receive rev demo_router demo_batch (\<lambda>s. demo_shard) = (Inr results, w')
     \<and> r_payload (results ! 1) = [negate_float 1]"
proof -
  have "all_served demo_router (\<lambda>s. Some []) demo_batch (assign_effective_experts rev (router_config demo_router) demo_batch)"
    unfolding demo_eff by (auto simp: all_served_def demo_batch_wire(2) token_shard_def demo_router_def new_Router_def less_2_cases_iff)
  from route_batch_delivers [OF perm_ord_rev demo_batch_ok demo_batch_wire(1) demo_link(2) this]
  obtain results w' where r: "route_batch sock_send sock_receive rev demo_router demo_batch (\<lambda>s. demo_shard) = (Inr results, w')"
    "\<forall>i < length demo_batch. results ! unat (batch_position (demo_batch ! i)) =
       (process_token_placeholder (demo_batch ! i) (the (expert_to_shard demo_router (assign_effective_experts rev (router_config demo_router) demo_batch ! i))))
       \<lparr>effective_expert := assign_effective_experts rev (router_config demo_router) demo_batch ! unat (batch_position (demo_batch ! i))\<rparr>"
    by blast
  have "batch_position (demo_batch ! 0) = 1" "payload (demo_batch ! 0) = [1]" by (simp_all add: demo_batch_def)
  with r(2) demo_batch_wire(2) have "r_payload (results ! 1) = [negate_float 1]"
    by (auto dest: spec [of _ 0] simp: process_token_placeholder_def)
  with r(1) show ?thesis by blast
qed

text \<open>C15. Faults are isolated: over sockets with worker loops, when some shards are dead, unknown or already
  marked, \<open>route_batch_tolerant\<close> still returns; every token of a healthy shard gets the worker's result, made
  by its own shard and labelled with its own expert, every other token gets a failure that names it, and
  exactly the shards that failed become unhealthy.\<close>

theorem failed_shard_is_isolated:
  assumes "perm_ord ord" "positions_ok ts" "experts_mapped rt ts" "wire_batch ts" "sock_link w cl"
    "\<forall>s. cl s = None \<or> cl s = Some []" "eff = assign_effective_experts ord (router_config rt) ts"
  shows "\<exists>results rt' w'. route_batch_tolerant sock_send sock_receive ord junk rt ts w = Inr (results, rt', w')
    \<and> sock_link w' cl \<and> length results = length ts
    \<and> (\<forall>i < length ts. let s = the (expert_to_shard rt (eff ! i)); r = results ! unat (batch_position (ts ! i))
         in if s \<notin> unhealthy_shards rt \<and> s \<in> shard_transports rt \<and> cl s = Some []
            then r = (process_token_placeholder (ts ! i) s)\<lparr>effective_expert := eff ! i\<rparr>
            else \<exists>reason. r = failure_result junk ts eff i reason)
    \<and> unhealthy_shards rt' = unhealthy_shards rt \<union> {s. \<exists>i < length ts. s = the (expert_to_shard rt (eff ! i))
         \<and> \<not> (s \<notin> unhealthy_shards rt \<and> s \<in> shard_transports rt \<and> cl s = Some [])}"
  using sock.route_batch_tolerant_served [OF assms(1-6), of junk]
  unfolding assms(7) token_shard_def outcome_def healthy_def genuine_def Let_def .

theorem failed_shard_is_isolated_witness:
  "\<exists>results rt' w'. route_batch_tolerant sock_send sock_receive rev 7 demo_router demo_batch (fst demo_cluster) = Inr (results, rt', w')
     \<and> results ! 0 = (process_token_placeholder (demo_batch ! 1) 0)\<lparr>effective_expert := 0\<rparr> \<and> failed (results ! 1)
     \<and> is_shard_unhealthy rt' 1"
proof -
  have idle: "\<forall>s. snd demo_cluster s = None \<or> snd demo_cluster s = Some []" by (simp add: demo_cluster_def)
  have e: "[1, 0] = assign_effective_experts rev (router_config demo_router) demo_batch" by (simp only: demo_eff)
  have b: "batch_position (demo_batch ! 0) = 1" "batch_position (demo_batch ! 1) = 0" by (simp_all add: demo_batch_def)
  from failed_shard_is_isolated [OF perm_ord_rev demo_batch_ok demo_batch_wire(1) demo_link(1) idle e, of 7]
  obtain results rt' w' where r: "route_batch_tolerant sock_send sock_receive rev 7 demo_router demo_batch (fst demo_cluster) = Inr (results, rt', w')"
    "\<forall>i < 2. let s = the (expert_to_shard demo_router ([1, 0] ! i)); r = results ! unat (batch_position (demo_batch ! i))
         in if s \<notin> unhealthy_shards demo_router \<and> s \<in> shard_transports demo_router \<and> snd demo_cluster s = Some []
            then r = (process_token_placeholder (demo_batch ! i) s)\<lparr>effective_expert := [1, 0] ! i\<rparr>
            else \<exists>reason. r = failure_result 7 demo_batch [1, 0] i reason"
    "unhealthy_shards rt' = unhealthy_shards demo_router \<union> {s. \<exists>i < 2. s = the (expert_to_shard demo_router ([1, 0] ! i))
         \<and> \<not> (s \<notin> unhealthy_shards demo_router \<and> s \<in> shard_transports demo_router \<and> snd demo_cluster s = Some [])}"
    unfolding demo_batch_wire(2) by blast
  have "results ! 0 = (process_token_placeholder (demo_batch ! 1) 0)\<lparr>effective_expert := 0\<rparr>"
    using r(2) [rule_format, of 1] b by (simp add: demo_router_def new_Router_def demo_cluster_def)
  moreover have "failed (results ! 1)"
    using r(2) [rule_format, of 0] b by (auto simp: demo_router_def new_Router_def demo_cluster_def failure_result_def)
  moreover have "1 \<in> unhealthy_shards rt'"
    unfolding r(3) by (auto intro: exI [of _ 0] simp: demo_router_def new_Router_def demo_cluster_def)
  ultimately show ?thesis using r(1) by (auto simp: is_shard_unhealthy_def)
qed

text \<open>\<open>route_batch\<close> labels results by index: on a batch listed out of position order the label of a result is
  the expert of another token. Here token 10, sent to its secondary expert 1 and computed by shard 1, comes
  back labelled with expert 0, and token 11 the other way round.\<close>

theorem route_batch_mislabels_out_of_order:
  "\<exists>results w'. route_batch sock_send sock_receive rev demo_router demo_batch (\<lambda>s. demo_shard) = (Inr results, w')
     \<and> map (\<lambda>r. (r_token_id r, processed_by_shard r, effective_expert r)) results = [(11, 0, 1), (10, 1, 0)]
     \<and> assign_effective_experts rev (router_config demo_router) demo_batch ! 0 = 1 \<and> token_id (demo_batch ! 0) = 10"
proof -
  have served: "all_served demo_router (\<lambda>s. Some []) demo_batch (assign_effective_experts rev (router_config demo_router) demo_batch)"
    unfolding demo_eff by (auto simp: all_served_def demo_batch_wire(2) token_shard_def demo_router_def new_Router_def less_2_cases_iff)
  from sock.route_batch_served [OF perm_ord_rev demo_batch_ok demo_batch_wire(1) demo_link(2) served, unfolded demo_eff demo_batch_wire(2)]
  obtain results w' where r: "route_batch sock_send sock_receive rev demo_router demo_batch (\<lambda>s. demo_shard) = (Inr results, w')"
    "length results = 2" "\<forall>i < 2. results ! tpos demo_batch i =
       (process_token_placeholder (demo_batch ! i) (token_shard demo_router [1, 0] i))\<lparr>effective_expert := [1, 0] ! tpos demo_batch i\<rparr>"
    by blast
  have b: "batch_position (demo_batch ! 0) = 1" "batch_position (demo_batch ! 1) = 0" "token_id (demo_batch ! 0) = 10" "token_id (demo_batch ! 1) = 11"
    by (simp_all add: demo_batch_def)
  obtain x y where xy: "results = [x, y]" using r(2) by (auto simp: numeral_2_eq_2 length_Suc_conv)
  have "x = (process_token_placeholder (demo_batch ! 1) 0)\<lparr>effective_expert := 1\<rparr>" "y = (process_token_placeholder (demo_batch ! 0) 1)\<lparr>effective_expert := 0\<rparr>"
    using r(3) [rule_format, of 1] r(3) [rule_format, of 0] b by (simp_all add: xy token_shard_def demo_router_def new_Router_def)
  then show ?thesis using r(1) b unfolding demo_eff by (simp add: xy process_token_placeholder_def)
qed

end
