(* ===== verification/Process_Spawn.thy ===== *)
theory Process_Spawn
  imports Prelude
begin

text \<open>
  Worker processes (\<open>src/orchestration/process_spawn.hpp\<close>): the socket pairs, the forks, the descriptors every
  process keeps, and the collection of exit statuses.

  The operating system is a table of processes. A live process has its open descriptors and whether it ignores
  \<open>SIGPIPE\<close>; a terminated one that was not waited for has its wait status. A descriptor refers to one end of a
  numbered socket pair. Whether the next \<open>socketpair\<close> or \<open>fork\<close> succeeds is read from a script; when it is
  exhausted, calls succeed. New descriptors are the lowest free ones.

  The parent runs \<open>spawn_workers\<close> statement by statement, each child runs its part of the loop body, and the
  steps of all processes interleave. A child may be killed or may end at any time.
\<close>

section \<open>Model\<close>

subsection \<open>System calls\<close>

type_synonym pid = nat

text \<open>\<open>End k False\<close> is the first descriptor of pair \<open>k\<close> (the router's), \<open>End k True\<close> the second.\<close>

datatype endpoint = End nat bool

type_synonym fd_table = "(nat \<times> endpoint) list"

datatype process = Live fd_table bool | Zombie int

record Os =
  procs :: "pid \<rightharpoonup> process"
  next_pid :: pid
  next_pair :: nat
  call_script :: "bool list"

fun fds_of :: "process option \<Rightarrow> fd_table" where
  "fds_of (Some (Live fds ign)) = fds"
| "fds_of p = []"

definition lowest_free :: "fd_table \<Rightarrow> nat" where
  "lowest_free fds = hd (filter (\<lambda>n. n \<notin> set (map fst fds)) [0..<Suc (length fds)])"

definition set_fds :: "pid \<Rightarrow> fd_table \<Rightarrow> Os \<Rightarrow> Os" where
  "set_fds p fds os =
     (case procs os p of
        Some (Live _ ign) \<Rightarrow> os\<lparr>procs := (procs os)(p \<mapsto> Live fds ign)\<rparr>
      | _ \<Rightarrow> os)"

definition next_call :: "Os \<Rightarrow> bool \<times> Os" where
  "next_call os = (case call_script os of [] \<Rightarrow> (True, os) | b # bs \<Rightarrow> (b, os\<lparr>call_script := bs\<rparr>))"

definition sys_socketpair :: "pid \<Rightarrow> Os \<Rightarrow> (nat \<times> nat) option \<times> Os" where
  "sys_socketpair self os =
     (let (ok, os') = next_call os
      in if \<not> ok then (None, os')
         else let fds = fds_of (procs os' self); k = next_pair os';
                  a = lowest_free fds; fds1 = (a, End k False) # fds;
                  b = lowest_free fds1; fds2 = (b, End k True) # fds1
              in (Some (a, b), set_fds self fds2 (os'\<lparr>next_pair := k + 1\<rparr>)))"

definition sys_fork :: "pid \<Rightarrow> Os \<Rightarrow> pid option \<times> Os" where
  "sys_fork self os =
     (let (ok, os') = next_call os
      in if \<not> ok then (None, os')
         else let p = next_pid os'
              in (Some p, os'\<lparr>procs := (procs os')(p := procs os' self), next_pid := p + 1\<rparr>))"

definition sys_close :: "pid \<Rightarrow> nat \<Rightarrow> Os \<Rightarrow> Os" where
  "sys_close self fd os = set_fds self (AList.delete fd (fds_of (procs os self))) os"

definition ignore_sigpipe :: "pid \<Rightarrow> Os \<Rightarrow> Os" where
  "ignore_sigpipe self os =
     (case procs os self of
        Some (Live fds _) \<Rightarrow> os\<lparr>procs := (procs os)(self \<mapsto> Live fds True)\<rparr>
      | _ \<Rightarrow> os)"

text \<open>Termination closes every descriptor. The wait status of an exit carries the low byte of the code, that of
  a kill the number of \<open>SIGKILL\<close>.\<close>

definition terminate :: "pid \<Rightarrow> int \<Rightarrow> Os \<Rightarrow> Os" where
  "terminate p status os =
     (case procs os p of
        Some (Live _ _) \<Rightarrow> os\<lparr>procs := (procs os)(p \<mapsto> Zombie status)\<rparr>
      | _ \<Rightarrow> os)"

definition sys_exit :: "pid \<Rightarrow> int \<Rightarrow> Os \<Rightarrow> Os" where
  "sys_exit p rc = terminate p (rc mod 256 * 256)"

definition sys_kill :: "pid \<Rightarrow> Os \<Rightarrow> Os" where
  "sys_kill p = terminate p 9"

text \<open>\<open>waitpid(pid, &status, 0)\<close>: \<open>None\<close> while the process runs (the call does not return), otherwise its
  status, after which the process is gone; it fails for a process that is not there.\<close>

definition sys_waitpid :: "pid \<Rightarrow> Os \<Rightarrow> (int option \<times> Os) option" where
  "sys_waitpid p os =
     (case procs os p of
        None \<Rightarrow> Some (None, os)
      | Some (Live _ _) \<Rightarrow> None
      | Some (Zombie st) \<Rightarrow> Some (Some st, os\<lparr>procs := (procs os)(p := None)\<rparr>))"

subsection \<open>Transports and workers\<close>

text \<open>The constructor and the destructor of \<open>UnixSocketTransport\<close>; a transport is its descriptor.\<close>

definition new_UnixSocketTransport :: "pid \<Rightarrow> nat \<Rightarrow> Os \<Rightarrow> nat \<times> Os" where
  "new_UnixSocketTransport self fd os = (fd, ignore_sigpipe self os)"

definition delete_UnixSocketTransport :: "pid \<Rightarrow> nat \<Rightarrow> Os \<Rightarrow> Os" where
  "delete_UnixSocketTransport self fd os = sys_close self fd os"

record SpawnedWorkers =
  transports :: "u32 \<rightharpoonup> nat"
  child_pids :: "pid list"
  shard_pids :: "u32 \<rightharpoonup> pid"

text \<open>\<open>SpawnedWorkers::join_all\<close>: \<open>None\<close> when it blocks on a running child.\<close>

fun join_children :: "pid list \<Rightarrow> int list \<Rightarrow> Os \<Rightarrow> ((cpp_exn + int list) \<times> Os) option" where
  "join_children [] statuses os = Some (Inr statuses, os)"
| "join_children (p # ps) statuses os =
     (case sys_waitpid p os of
        None \<Rightarrow> None
      | Some (None, os') \<Rightarrow> Some (Inl (RuntimeError ''process_spawn: waitpid failed''), os')
      | Some (Some st, os') \<Rightarrow> join_children ps (statuses @ [st]) os')"

definition join_all :: "SpawnedWorkers \<Rightarrow> Os \<Rightarrow> ((cpp_exn + int list) \<times> Os) option" where
  "join_all sw os = join_children (child_pids sw) [] os"

text \<open>The exit code of a child whose \<open>worker_fn\<close> ended with a value or an exception.\<close>

definition child_exit_code :: "cpp_exn + int \<Rightarrow> int" where
  "child_exit_code r = (case r of Inl _ \<Rightarrow> 1 | Inr rc \<Rightarrow> rc)"

datatype parent_pc = Pairs nat | Forks nat | Wraps nat | Ready | Threw cpp_exn
datatype child_pc = Closing nat | Serving

record Spawn =
  os :: Os
  parent :: parent_pc
  pairs :: "(nat \<times> nat) list"
  workers :: SpawnedWorkers
  children :: "pid \<rightharpoonup> nat \<times> child_pc"

abbreviation router_fd :: "nat \<times> nat \<Rightarrow> nat" where "router_fd pr \<equiv> fst pr"
abbreviation worker_fd :: "nat \<times> nat \<Rightarrow> nat" where "worker_fd pr \<equiv> snd pr"

definition new_Spawn :: "Os \<Rightarrow> Spawn" where
  "new_Spawn w = \<lparr>os = w, parent = Pairs 0, pairs = [],
     workers = \<lparr>transports = Map.empty, child_pids = [], shard_pids = Map.empty\<rparr>, children = Map.empty\<rparr>"

text \<open>Phase 1, one turn.\<close>

definition pair_step :: "pid \<Rightarrow> u32 list \<Rightarrow> nat \<Rightarrow> Spawn \<Rightarrow> Spawn" where
  "pair_step self shard_ids i s =
     (if i < length shard_ids
      then (case sys_socketpair self (os s) of
              (None, w) \<Rightarrow> s\<lparr>os := w, parent := Threw (RuntimeError ''process_spawn: socketpair() failed'')\<rparr>
            | (Some pr, w) \<Rightarrow> s\<lparr>os := w, pairs := pairs s @ [pr], parent := Pairs (i + 1)\<rparr>)
      else s\<lparr>parent := Forks 0\<rparr>)"

text \<open>Phase 2, one turn of the parent; the child starts with its closing loop.\<close>

definition fork_step :: "pid \<Rightarrow> u32 list \<Rightarrow> nat \<Rightarrow> Spawn \<Rightarrow> Spawn" where
  "fork_step self shard_ids i s =
     (if i < length shard_ids
      then (case sys_fork self (os s) of
              (None, w) \<Rightarrow> s\<lparr>os := w, parent := Threw (RuntimeError ''process_spawn: fork() failed'')\<rparr>
            | (Some p, w) \<Rightarrow>
                s\<lparr>os := w, children := (children s)(p \<mapsto> (i, Closing 0)), parent := Forks (i + 1),
                  workers := (workers s)\<lparr>child_pids := child_pids (workers s) @ [p],
                    shard_pids := (shard_pids (workers s))(shard_ids ! i \<mapsto> p)\<rparr>\<rparr>)
      else s\<lparr>parent := Wraps 0\<rparr>)"

text \<open>Phase 3, one turn: assigning to a shard that already has a transport destroys the old one.\<close>

definition wrap_step :: "pid \<Rightarrow> u32 list \<Rightarrow> nat \<Rightarrow> Spawn \<Rightarrow> Spawn" where
  "wrap_step self shard_ids i s =
     (if i < length shard_ids
      then let w1 = sys_close self (worker_fd (pairs s ! i)) (os s);
               (t, w2) = new_UnixSocketTransport self (router_fd (pairs s ! i)) w1;
               w3 = (case transports (workers s) (shard_ids ! i) of
                       None \<Rightarrow> w2 | Some old \<Rightarrow> delete_UnixSocketTransport self old w2)
           in s\<lparr>os := w3, parent := Wraps (i + 1),
                workers := (workers s)\<lparr>transports := (transports (workers s))(shard_ids ! i \<mapsto> t)\<rparr>\<rparr>
      else s\<lparr>parent := Ready\<rparr>)"

definition parent_step :: "pid \<Rightarrow> u32 list \<Rightarrow> Spawn \<Rightarrow> Spawn option" where
  "parent_step self shard_ids s =
     (case parent s of
        Pairs i \<Rightarrow> Some (pair_step self shard_ids i s)
      | Forks i \<Rightarrow> Some (fork_step self shard_ids i s)
      | Wraps i \<Rightarrow> Some (wrap_step self shard_ids i s)
      | Ready \<Rightarrow> None
      | Threw e \<Rightarrow> None)"

text \<open>The child of index \<open>i\<close>: one turn of its closing loop, then its transport.\<close>

definition child_step :: "pid \<Rightarrow> Spawn \<Rightarrow> Spawn option" where
  "child_step p s =
     (case children s p of
        Some (i, Closing j) \<Rightarrow>
          (if j < length (pairs s)
           then let w1 = sys_close p (router_fd (pairs s ! j)) (os s);
                    w2 = (if j \<noteq> i then sys_close p (worker_fd (pairs s ! j)) w1 else w1)
                in Some (s\<lparr>os := w2, children := (children s)(p \<mapsto> (i, Closing (j + 1)))\<rparr>)
           else Some (s\<lparr>os := snd (new_UnixSocketTransport p (worker_fd (pairs s ! i)) (os s)),
                        children := (children s)(p \<mapsto> (i, Serving))\<rparr>))
      | _ \<Rightarrow> None)"

definition drop_transport :: "pid \<Rightarrow> u32 \<Rightarrow> Spawn \<Rightarrow> Spawn" where
  "drop_transport self shard s =
     (case transports (workers s) shard of
        None \<Rightarrow> s
      | Some fd \<Rightarrow> s\<lparr>os := delete_UnixSocketTransport self fd (os s),
                    workers := (workers s)\<lparr>transports := (transports (workers s))(shard := None)\<rparr>\<rparr>)"

definition is_live :: "Os \<Rightarrow> pid \<Rightarrow> bool" where
  "is_live w p \<longleftrightarrow> (case procs w p of Some (Live _ _) \<Rightarrow> True | _ \<Rightarrow> False)"

inductive spawn_run :: "pid \<Rightarrow> u32 list \<Rightarrow> Os \<Rightarrow> Spawn \<Rightarrow> bool" for self shard_ids w0 where
  start: "spawn_run self shard_ids w0 (new_Spawn w0)"
| parent: "spawn_run self shard_ids w0 s \<Longrightarrow> parent_step self shard_ids s = Some t \<Longrightarrow> spawn_run self shard_ids w0 t"
| child: "spawn_run self shard_ids w0 s \<Longrightarrow> is_live (os s) p \<Longrightarrow> child_step p s = Some t \<Longrightarrow> spawn_run self shard_ids w0 t"
| ends: "spawn_run self shard_ids w0 s \<Longrightarrow> children s p = Some (i, Serving) \<Longrightarrow>
    spawn_run self shard_ids w0 (s\<lparr>os := sys_exit p (child_exit_code r) (os s)\<rparr>)"
| killed: "spawn_run self shard_ids w0 s \<Longrightarrow> p \<noteq> self \<Longrightarrow> spawn_run self shard_ids w0 (s\<lparr>os := sys_kill p (os s)\<rparr>)"
| drops: "spawn_run self shard_ids w0 s \<Longrightarrow> parent s = Ready \<Longrightarrow> spawn_run self shard_ids w0 (drop_transport self shard s)"

text \<open>The parent on its own, for a number of its steps, and \<open>spawn_workers\<close> as the parent runs it: three loops of
  \<open>n\<close> turns and their exits.\<close>

fun run_parent :: "nat \<Rightarrow> pid \<Rightarrow> u32 list \<Rightarrow> Spawn \<Rightarrow> Spawn" where
  "run_parent 0 self shard_ids s = s"
| "run_parent (Suc n) self shard_ids s =
     (case parent_step self shard_ids s of None \<Rightarrow> s | Some t \<Rightarrow> run_parent n self shard_ids t)"

definition spawn_workers :: "pid \<Rightarrow> u32 list \<Rightarrow> Os \<Rightarrow> Spawn" where
  "spawn_workers self shard_ids w = run_parent (3 * length shard_ids + 3) self shard_ids (new_Spawn w)"

section \<open>Descriptors\<close>

lemma set_delete: "set (AList.delete k al) = {p \<in> set al. fst p \<noteq> k}"
  by (auto simp: AList.delete_eq)

lemma lowest_free_fresh: "lowest_free fds \<notin> fst ` set fds"
proof -
  let ?ns = "filter (\<lambda>n. n \<notin> set (map fst fds)) [0..<Suc (length fds)]"
  have "\<not> {0..<Suc (length fds)} \<subseteq> set (map fst fds)"
  proof
    assume "{0..<Suc (length fds)} \<subseteq> set (map fst fds)"
    then have "card {0..<Suc (length fds)} \<le> card (set (map fst fds))" by (intro card_mono) auto
    also have "\<dots> \<le> length fds" using card_length [of "map fst fds"] by simp
    finally show False by simp
  qed
  then obtain t where "t < Suc (length fds)" "t \<notin> set (map fst fds)" unfolding subset_iff by (metis atLeastLessThan_iff)
  then have "t \<in> set ?ns" by (simp del: upt_Suc)
  then have "?ns \<noteq> []" by (metis empty_iff empty_set)
  then have "hd ?ns \<in> set ?ns" by (rule hd_in_set)
  then show ?thesis unfolding lowest_free_def by (simp del: upt_Suc)
qed

text \<open>The descriptors of a number of pairs, and a table that holds the inherited ones and some of these.\<close>

definition fd_of :: "(nat \<times> nat) list \<Rightarrow> nat \<times> bool \<Rightarrow> nat" where
  "fd_of prs x = (if snd x then worker_fd (prs ! fst x) else router_fd (prs ! fst x))"

abbreviation sides :: "(nat \<times> nat) list \<Rightarrow> (nat \<times> bool) set" where
  "sides prs \<equiv> {0..<length prs} \<times> UNIV"

definition fresh_fds :: "fd_table \<Rightarrow> (nat \<times> nat) list \<Rightarrow> bool" where
  "fresh_fds base prs \<longleftrightarrow> inj_on (fd_of prs) (sides prs) \<and> fd_of prs ` sides prs \<inter> fst ` set base = {}"

definition holds :: "fd_table \<Rightarrow> (nat \<times> nat) list \<Rightarrow> nat \<Rightarrow> (nat \<times> bool) set \<Rightarrow> (nat \<times> endpoint) set" where
  "holds base prs k0 S = set base \<union> (\<lambda>x. (fd_of prs x, End (k0 + fst x) (snd x))) ` S"

lemma close_holds:
  assumes "fresh_fds base prs" "x \<in> sides prs" "S \<subseteq> sides prs" "set tab = holds base prs k0 S"
  shows "set (AList.delete (fd_of prs x) tab) = holds base prs k0 (S - {x})"
proof -
  have inj: "fd_of prs y = fd_of prs x \<longleftrightarrow> y = x" if "y \<in> S" for y
    using assms(1,2,3) that by (auto simp: fresh_fds_def dest: inj_onD)
  have "fst q \<noteq> fd_of prs x" if "q \<in> set base" for q
    using assms(1,2) that by (auto simp: fresh_fds_def)
  then show ?thesis using inj by (auto simp: set_delete assms(4) holds_def)
qed

lemma fd_of_append: "x \<in> sides prs \<Longrightarrow> fd_of (prs @ [pr]) x = fd_of prs x"
  by (auto simp: fd_of_def nth_append)

lemma holds_append: "S \<subseteq> sides prs \<Longrightarrow> holds base (prs @ [pr]) k0 S = holds base prs k0 S"
  unfolding holds_def using fd_of_append by (intro arg_cong2 [of _ _ _ _ "(\<union>)"] image_cong refl) (metis subsetD)

lemma new_pair_holds:
  assumes "fresh_fds base prs" "set tab = holds base prs k0 (sides prs)" "a = lowest_free tab"
    "tab1 = (a, End (k0 + length prs) False) # tab" "b = lowest_free tab1" "tab2 = (b, End (k0 + length prs) True) # tab1"
  shows "fresh_fds base (prs @ [(a, b)]) \<and> set tab2 = holds base (prs @ [(a, b)]) k0 (sides (prs @ [(a, b)]))"
proof -
  let ?prs = "prs @ [(a, b)]" and ?n = "length prs"
  have a: "a \<notin> fst ` holds base prs k0 (sides prs)" using lowest_free_fresh [of tab] assms(2,3) by simp
  have b: "b \<notin> fst ` holds base prs k0 (sides prs)" "b \<noteq> a" using lowest_free_fresh [of tab1] assms(2,4,5) by auto
  have fs: "fst ` holds base prs k0 (sides prs) = fst ` set base \<union> fd_of prs ` sides prs"
    by (force simp: holds_def image_iff)
  have sd: "sides ?prs = sides prs \<union> {(?n, False), (?n, True)}" by (auto simp: less_Suc_eq)
  have new: "fd_of ?prs (?n, False) = a" "fd_of ?prs (?n, True) = b" by (simp_all add: fd_of_def)
  have old: "fd_of ?prs x = fd_of prs x" if "x \<in> sides prs" for x using that by (rule fd_of_append)
  have img: "fd_of ?prs ` sides ?prs = fd_of prs ` sides prs \<union> {a, b}"
    unfolding sd image_Un using new old by (simp cong: image_cong)
  have "inj_on (fd_of ?prs) (sides ?prs)"
    unfolding sd using a b assms(1) old new unfolding fs by (auto simp: inj_on_def fresh_fds_def)
  moreover have "fd_of ?prs ` sides ?prs \<inter> fst ` set base = {}"
    using a b assms(1) unfolding img fs by (auto simp: fresh_fds_def)
  moreover have "holds base ?prs k0 (sides ?prs) = holds base ?prs k0 (sides prs) \<union> {(a, End (k0 + ?n) False), (b, End (k0 + ?n) True)}"
    unfolding sd holds_def using new by auto
  ultimately show ?thesis using holds_append [of "sides prs" prs base "(a, b)" k0] assms(2,4,6) by (auto simp: fresh_fds_def)
qed

section \<open>Invariant\<close>

lemma procs_set_fds: "procs (set_fds p fds w) q = (if q = p then (case procs w p of Some (Live _ ign) \<Rightarrow> Some (Live fds ign) | x \<Rightarrow> x) else procs w q)"
  by (auto simp: set_fds_def split: option.splits process.splits)

lemma set_fds_other [simp]:
  "next_pid (set_fds p fds w) = next_pid w" "next_pair (set_fds p fds w) = next_pair w" "call_script (set_fds p fds w) = call_script w"
  by (simp_all add: set_fds_def split: option.split process.split)

lemma ignore_sigpipe_other [simp]:
  "next_pid (ignore_sigpipe p w) = next_pid w" "next_pair (ignore_sigpipe p w) = next_pair w"
  "procs (ignore_sigpipe p w) q = (if q = p then (case procs w p of Some (Live fds _) \<Rightarrow> Some (Live fds True) | x \<Rightarrow> x) else procs w q)"
  by (auto simp: ignore_sigpipe_def split: option.splits process.splits)

lemma terminate_other [simp]:
  "next_pid (terminate p st w) = next_pid w" "next_pair (terminate p st w) = next_pair w"
  "procs (terminate p st w) q = (if q = p then (case procs w p of Some (Live _ _) \<Rightarrow> Some (Zombie st) | x \<Rightarrow> x) else procs w q)"
  by (auto simp: terminate_def split: option.splits process.splits)

lemma next_call_other:
  "next_call w = (ok, w') \<Longrightarrow> procs w' = procs w \<and> next_pid w' = next_pid w \<and> next_pair w' = next_pair w"
  by (auto simp: next_call_def split: list.splits)

text \<open>Which descriptors of the pairs the parent and the child of an index keep.\<close>

definition parent_keep :: "u32 list \<Rightarrow> Spawn \<Rightarrow> (nat \<times> bool) set" where
  "parent_keep ids s = (let n = length ids in
     case parent s of
       Wraps i \<Rightarrow> {0..<n} \<times> {False} \<union> {i..<n} \<times> {True}
     | Ready \<Rightarrow> {x. \<exists>j < n. x = (j, False) \<and> transports (workers s) (ids ! j) \<noteq> None}
     | _ \<Rightarrow> sides (pairs s))"

definition child_keep :: "nat \<Rightarrow> nat \<Rightarrow> child_pc \<Rightarrow> (nat \<times> bool) set" where
  "child_keep n i c = insert (i, True) (case c of Closing j \<Rightarrow> {j..<n} \<times> UNIV | Serving \<Rightarrow> {})"

definition pairs_ok :: "u32 list \<Rightarrow> Spawn \<Rightarrow> bool" where
  "pairs_ok ids s \<longleftrightarrow> (case parent s of
       Pairs i \<Rightarrow> length (pairs s) = i \<and> i \<le> length ids \<and> child_pids (workers s) = []
     | Threw e \<Rightarrow> child_pids (workers s) = [] \<or> length (pairs s) = length ids
     | Forks i \<Rightarrow> length (pairs s) = length ids \<and> length (child_pids (workers s)) = i \<and> i \<le> length ids
     | _ \<Rightarrow> length (pairs s) = length ids \<and> length (child_pids (workers s)) = length ids)"

definition transports_ok :: "u32 list \<Rightarrow> Spawn \<Rightarrow> bool" where
  "transports_ok ids s \<longleftrightarrow> dom (transports (workers s)) \<subseteq> set ids \<and>
     (case parent s of
        Wraps i \<Rightarrow> i \<le> length ids \<and> (\<forall>j < length ids. transports (workers s) (ids ! j) = (if j < i then Some (router_fd (pairs s ! j)) else None))
      | Ready \<Rightarrow> (\<forall>j < length ids. transports (workers s) (ids ! j) \<in> {None, Some (router_fd (pairs s ! j))})
      | _ \<Rightarrow> transports (workers s) = Map.empty)"

definition children_ok :: "u32 list \<Rightarrow> Spawn \<Rightarrow> bool" where
  "children_ok ids s \<longleftrightarrow> length (child_pids (workers s)) \<le> length ids
     \<and> (\<forall>p i c. children s p = Some (i, c) \<longrightarrow> i < length (child_pids (workers s)) \<and> child_pids (workers s) ! i = p)
     \<and> (\<forall>i < length (child_pids (workers s)). (\<exists>c. children s (child_pids (workers s) ! i) = Some (i, c))
          \<and> shard_pids (workers s) (ids ! i) = Some (child_pids (workers s) ! i))"

definition must_ignore :: "u32 list \<Rightarrow> parent_pc \<Rightarrow> bool" where
  "must_ignore ids q \<longleftrightarrow> ids \<noteq> [] \<and> q = Ready \<or> (\<exists>i > 0. q = Wraps i)"

lemma must_ignore_simps [simp]:
  "\<not> must_ignore ids (Pairs i)" "\<not> must_ignore ids (Forks i)" "\<not> must_ignore ids (Threw e)"
  "must_ignore ids (Wraps i) \<longleftrightarrow> 0 < i" "must_ignore ids Ready \<longleftrightarrow> ids \<noteq> []"
  by (simp_all add: must_ignore_def)

definition tables_ok :: "pid \<Rightarrow> u32 list \<Rightarrow> Os \<Rightarrow> Spawn \<Rightarrow> bool" where
  "tables_ok self ids w0 s \<longleftrightarrow>
     (let base = fds_of (procs w0 self); k0 = next_pair w0; H = holds base (pairs s) k0
      in fresh_fds base (pairs s)
         \<and> next_pair (os s) = k0 + length (pairs s)
         \<and> (\<exists>tab ign. procs (os s) self = Some (Live tab ign) \<and> set tab = H (parent_keep ids s)
              \<and> (must_ignore ids (parent s) \<longrightarrow> ign))
         \<and> (\<forall>p i c. children s p = Some (i, c) \<longrightarrow> length (pairs s) = length ids \<and> p \<noteq> self \<and> p < next_pid (os s) \<and> procs (os s) p \<noteq> None
              \<and> (\<forall>tab ign. procs (os s) p = Some (Live tab ign) \<longrightarrow> set tab = H (child_keep (length ids) i c) \<and> (c = Serving \<longrightarrow> ign)))
         \<and> (\<forall>p. p \<noteq> self \<longrightarrow> children s p = None \<longrightarrow>
              procs (os s) p = procs w0 p \<or> (\<exists>st. procs (os s) p = Some (Zombie st)))
         \<and> next_pid w0 \<le> next_pid (os s) \<and> (\<forall>p \<ge> next_pid (os s). procs (os s) p = None))"

definition spawn_inv :: "pid \<Rightarrow> u32 list \<Rightarrow> Os \<Rightarrow> Spawn \<Rightarrow> bool" where
  "spawn_inv self ids w0 s \<longleftrightarrow> pairs_ok ids s \<and> transports_ok ids s \<and> children_ok ids s \<and> tables_ok self ids w0 s"

text \<open>The system before the call: the caller runs, process numbers are fresh, and descriptors refer to pairs
  that exist.\<close>

definition os_ok :: "pid \<Rightarrow> Os \<Rightarrow> bool" where
  "os_ok self w \<longleftrightarrow> is_live w self \<and> (\<forall>p \<ge> next_pid w. procs w p = None)
     \<and> (\<forall>p k b. End k b \<in> snd ` set (fds_of (procs w p)) \<longrightarrow> k < next_pair w)"

lemma spawn_inv_start: "os_ok self w0 \<Longrightarrow> spawn_inv self ids w0 (new_Spawn w0)"
  by (auto simp: spawn_inv_def os_ok_def is_live_def new_Spawn_def pairs_ok_def transports_ok_def children_ok_def tables_ok_def
      parent_keep_def must_ignore_def fresh_fds_def holds_def Let_def split: option.splits process.splits)

lemma tables_okD:
  assumes "tables_ok self ids w0 s"
  shows "fresh_fds (fds_of (procs w0 self)) (pairs s)" "next_pair (os s) = next_pair w0 + length (pairs s)"
    "\<exists>tab ign. procs (os s) self = Some (Live tab ign) \<and> set tab = holds (fds_of (procs w0 self)) (pairs s) (next_pair w0) (parent_keep ids s)
       \<and> (must_ignore ids (parent s) \<longrightarrow> ign)"
    "children s p = Some (i, c) \<Longrightarrow> length (pairs s) = length ids \<and> p \<noteq> self \<and> p < next_pid (os s) \<and> procs (os s) p \<noteq> None"
    "children s p = Some (i, c) \<Longrightarrow> procs (os s) p = Some (Live tab ign) \<Longrightarrow>
       set tab = holds (fds_of (procs w0 self)) (pairs s) (next_pair w0) (child_keep (length ids) i c) \<and> (c = Serving \<longrightarrow> ign)"
    "p \<noteq> self \<Longrightarrow> children s p = None \<Longrightarrow> procs (os s) p = procs w0 p \<or> (\<exists>st. procs (os s) p = Some (Zombie st))"
    "next_pid w0 \<le> next_pid (os s)" "next_pid (os s) \<le> p \<Longrightarrow> procs (os s) p = None"
  using assms unfolding tables_ok_def Let_def by blast+

lemma tables_okI:
  assumes "fresh_fds (fds_of (procs w0 self)) (pairs s)" "next_pair (os s) = next_pair w0 + length (pairs s)"
    "procs (os s) self = Some (Live tab ign)" "set tab = holds (fds_of (procs w0 self)) (pairs s) (next_pair w0) (parent_keep ids s)"
    "must_ignore ids (parent s) \<Longrightarrow> ign"
    "\<And>p i c. children s p = Some (i, c) \<Longrightarrow> length (pairs s) = length ids \<and> p \<noteq> self \<and> p < next_pid (os s) \<and> procs (os s) p \<noteq> None"
    "\<And>p i c tab ign. children s p = Some (i, c) \<Longrightarrow> procs (os s) p = Some (Live tab ign) \<Longrightarrow>
       set tab = holds (fds_of (procs w0 self)) (pairs s) (next_pair w0) (child_keep (length ids) i c) \<and> (c = Serving \<longrightarrow> ign)"
    "\<And>p. p \<noteq> self \<Longrightarrow> children s p = None \<Longrightarrow> procs (os s) p = procs w0 p \<or> (\<exists>st. procs (os s) p = Some (Zombie st))"
    "next_pid w0 \<le> next_pid (os s)" "\<And>p. next_pid (os s) \<le> p \<Longrightarrow> procs (os s) p = None"
  shows "tables_ok self ids w0 s"
  using assms unfolding tables_ok_def Let_def by blast

lemma parent_keep_os [simp]: "parent_keep ids (s\<lparr>os := w\<rparr>) = parent_keep ids s"
  "parent_keep ids (s\<lparr>children := cs\<rparr>) = parent_keep ids s"
  by (simp_all add: parent_keep_def Let_def split: parent_pc.split)

lemma book_frame [simp]:
  "pairs_ok ids (s\<lparr>os := w\<rparr>) = pairs_ok ids s" "pairs_ok ids (s\<lparr>children := cs\<rparr>) = pairs_ok ids s"
  "transports_ok ids (s\<lparr>os := w\<rparr>) = transports_ok ids s" "transports_ok ids (s\<lparr>children := cs\<rparr>) = transports_ok ids s"
  "children_ok ids (s\<lparr>os := w\<rparr>) = children_ok ids s"
  by (simp_all add: pairs_ok_def transports_ok_def children_ok_def split: parent_pc.split)

lemma pair_step_inv:
  assumes "spawn_inv self ids w0 s" "parent s = Pairs i"
  shows "spawn_inv self ids w0 (pair_step self ids i s)"
proof (cases "i < length ids")
  case False
  then show ?thesis using assms
    by (auto simp: spawn_inv_def pair_step_def pairs_ok_def transports_ok_def children_ok_def tables_ok_def parent_keep_def Let_def)
next
  case True
  let ?base = "fds_of (procs w0 self)" and ?k0 = "next_pair w0"
  have inv: "pairs_ok ids s" "transports_ok ids s" "children_ok ids s" "tables_ok self ids w0 s" using assms(1) by (auto simp: spawn_inv_def)
  note t = tables_okD [OF inv(4)]
  have none: "children s p = None" for p using inv(1,3) assms(2) by (cases "children s p") (auto simp: pairs_ok_def children_ok_def)
  obtain ok w where nc: "next_call (os s) = (ok, w)" by fastforce
  note w = next_call_other [OF nc]
  show ?thesis
  proof (cases ok)
    case False
    then have "pair_step self ids i s = s\<lparr>os := w, parent := Threw (RuntimeError ''process_spawn: socketpair() failed'')\<rparr>"
      using True nc by (simp add: pair_step_def sys_socketpair_def)
    then show ?thesis using inv assms(2) w none
      by (simp add: spawn_inv_def pairs_ok_def transports_ok_def children_ok_def tables_ok_def parent_keep_def Let_def)
  next
    case ok: True
    obtain tab ign where tab: "procs w self = Some (Live tab ign)" "set tab = holds ?base (pairs s) ?k0 (sides (pairs s))"
      using t(3) w assms(2) by (auto simp: parent_keep_def)
    have k: "next_pair w = ?k0 + length (pairs s)" using t(2) w by simp
    define a tab1 b tab2 where "a = lowest_free tab" and "tab1 = (a, End (?k0 + length (pairs s)) False) # tab"
      and "b = lowest_free tab1" and "tab2 = (b, End (?k0 + length (pairs s)) True) # tab1"
    have step: "pair_step self ids i s = s\<lparr>os := set_fds self tab2 (w\<lparr>next_pair := ?k0 + length (pairs s) + 1\<rparr>),
        pairs := pairs s @ [(a, b)], parent := Pairs (i + 1)\<rparr>"
      using True ok nc tab(1) k by (simp add: pair_step_def sys_socketpair_def Let_def a_def b_def tab1_def tab2_def)
    have new: "fresh_fds ?base (pairs s @ [(a, b)])" "set tab2 = holds ?base (pairs s @ [(a, b)]) ?k0 (sides (pairs s @ [(a, b)]))"
      using new_pair_holds [OF t(1) tab(2) a_def tab1_def b_def tab2_def] by auto
    show ?thesis unfolding step spawn_inv_def
    proof (intro conjI)
      show "tables_ok self ids w0 (s\<lparr>os := set_fds self tab2 (w\<lparr>next_pair := ?k0 + length (pairs s) + 1\<rparr>), pairs := pairs s @ [(a, b)], parent := Pairs (i + 1)\<rparr>)"
        using new none t(6-8) w tab(1) by (auto simp: tables_ok_def Let_def procs_set_fds parent_keep_def)
    qed (use inv assms(2) True in \<open>auto simp: pairs_ok_def transports_ok_def children_ok_def\<close>)
  qed
qed

lemma tables_ok_phase:
  assumes "tables_ok self ids w0 s" "parent_keep ids (s\<lparr>parent := q\<rparr>) = parent_keep ids s" "must_ignore ids q \<Longrightarrow> must_ignore ids (parent s)"
  shows "tables_ok self ids w0 (s\<lparr>parent := q\<rparr>)"
proof -
  note t = tables_okD [OF assms(1)]
  obtain tab ign where "procs (os s) self = Some (Live tab ign)"
    "set tab = holds (fds_of (procs w0 self)) (pairs s) (next_pair w0) (parent_keep ids s)" "must_ignore ids (parent s) \<longrightarrow> ign"
    using t(3) by blast
  then show ?thesis using t assms(2,3) by (intro tables_okI [where tab = tab and ign = ign]) (simp_all, blast+)
qed

lemma tables_ok_calls:
  "tables_ok self ids w0 s \<Longrightarrow> procs w = procs (os s) \<and> next_pid w = next_pid (os s) \<and> next_pair w = next_pair (os s) \<Longrightarrow>
     tables_ok self ids w0 (s\<lparr>os := w\<rparr>)"
proof -
  assume a: "tables_ok self ids w0 s" "procs w = procs (os s) \<and> next_pid w = next_pid (os s) \<and> next_pair w = next_pair (os s)"
  note t = tables_okD [OF a(1)]
  obtain tab ign where "procs (os s) self = Some (Live tab ign)"
    "set tab = holds (fds_of (procs w0 self)) (pairs s) (next_pair w0) (parent_keep ids s)" "must_ignore ids (parent s) \<longrightarrow> ign"
    using t(3) by blast
  then show ?thesis using t a(2) by (intro tables_okI [where tab = tab and ign = ign]) (simp_all, blast+)
qed

lemma children_ok_fork:
  assumes "children_ok ids s" "length (child_pids (workers s)) < length ids" "distinct ids" "p \<notin> set (child_pids (workers s))"
    "children t = (children s)(p \<mapsto> (length (child_pids (workers s)), c))" "child_pids (workers t) = child_pids (workers s) @ [p]"
    "shard_pids (workers t) = (shard_pids (workers s))(ids ! length (child_pids (workers s)) \<mapsto> p)"
  shows "children_ok ids t"
proof -
  let ?cs = "child_pids (workers s)"
  have old: "ids ! i \<noteq> ids ! length ?cs" "?cs ! i \<noteq> p" if "i < length ?cs" for i
    using that assms(2-4) by (auto simp: nth_eq_iff_index_eq)
  have "children t q = Some (i, c') \<Longrightarrow> i < length (?cs @ [p]) \<and> (?cs @ [p]) ! i = q" for q i c'
    using assms(1,5) by (auto simp: children_ok_def nth_append split: if_splits)
  moreover have "(\<exists>c. children t ((?cs @ [p]) ! i) = Some (i, c)) \<and> shard_pids (workers t) (ids ! i) = Some ((?cs @ [p]) ! i)"
    if "i < length (?cs @ [p])" for i
    using that assms(1,5,7) old [of i] by (cases "i = length ?cs") (auto simp: children_ok_def nth_append)
  ultimately show ?thesis using assms(2,6) by (auto simp: children_ok_def)
qed

lemma tables_ok_fork:
  assumes "tables_ok self ids w0 s" "parent s = Forks i" "i < length ids" "length (pairs s) = length ids"
    "procs w = procs (os s) \<and> next_pid w = next_pid (os s) \<and> next_pair w = next_pair (os s)" "p = next_pid (os s)"
    "t = s\<lparr>os := w\<lparr>procs := (procs w)(p := procs w self), next_pid := p + 1\<rparr>, children := (children s)(p \<mapsto> (i, Closing 0)),
       parent := Forks (i + 1), workers := ws\<rparr>"
  shows "tables_ok self ids w0 t"
proof -
  let ?base = "fds_of (procs w0 self)" and ?k0 = "next_pair w0"
  note T = tables_okD [OF assms(1)]
  have p: "procs (os s) p = None" "p \<noteq> self" using T(8) [of p] T(3) assms(6) by auto
  have keep: "child_keep (length ids) i (Closing 0) = sides (pairs s)" using assms(3,4) by (auto simp: child_keep_def)
  obtain tab ign where tab: "procs (os s) self = Some (Live tab ign)" "set tab = holds ?base (pairs s) ?k0 (sides (pairs s))"
    using T(3) assms(2) by (auto simp: parent_keep_def)
  show ?thesis
  proof (rule tables_okI [where tab = tab and ign = ign])
    show "children t q = Some (l, c) \<Longrightarrow> length (pairs t) = length ids \<and> q \<noteq> self \<and> q < next_pid (os t) \<and> procs (os t) q \<noteq> None" for q l c
      using T(4) [of q l c] p(2) assms(4-7) tab(1) by (auto split: if_splits)
    show "children t q = Some (l, c) \<Longrightarrow> procs (os t) q = Some (Live tb ig) \<Longrightarrow>
        set tb = holds ?base (pairs t) ?k0 (child_keep (length ids) l c) \<and> (c = Serving \<longrightarrow> ig)" for q l c tb ig
      using T(5) [of q l c tb ig] tab keep assms(5,7) by (auto split: if_splits)
    show "procs (os t) q = procs w0 q \<or> (\<exists>st. procs (os t) q = Some (Zombie st))" if "q \<noteq> self" "children t q = None" for q
      using T(6) [of q] that assms(5,7) by (auto split: if_splits)
  qed (use T(1,2,7,8) assms(5-7) tab p in \<open>auto simp: parent_keep_def\<close>)
qed

lemma fork_step_inv:
  assumes "spawn_inv self ids w0 s" "parent s = Forks i" "distinct ids"
  shows "spawn_inv self ids w0 (fork_step self ids i s)"
proof -
  let ?base = "fds_of (procs w0 self)" and ?k0 = "next_pair w0"
  have inv: "pairs_ok ids s" "transports_ok ids s" "children_ok ids s" "tables_ok self ids w0 s" using assms(1) by (auto simp: spawn_inv_def)
  note t = tables_okD [OF inv(4)]
  obtain ok w where nc: "next_call (os s) = (ok, w)" by fastforce
  note w = next_call_other [OF nc]
  have len: "length (pairs s) = length ids" "length (child_pids (workers s)) = i" "i \<le> length ids"
    using inv(1) assms(2) by (auto simp: pairs_ok_def)
  consider (over) "i = length ids" | (fails) "i < length ids" "\<not> ok" | (forks) "i < length ids" ok using len(3) by linarith
  then show ?thesis
  proof cases
    case over
    have "parent_keep ids (s\<lparr>parent := Wraps 0\<rparr>) = parent_keep ids s" using len(1) assms(2) by (auto simp: parent_keep_def Let_def)
    then have "tables_ok self ids w0 (s\<lparr>parent := Wraps 0\<rparr>)" by (intro tables_ok_phase [OF inv(4)]) simp_all
    moreover have "pairs_ok ids (s\<lparr>parent := Wraps 0\<rparr>)" "transports_ok ids (s\<lparr>parent := Wraps 0\<rparr>)" "children_ok ids (s\<lparr>parent := Wraps 0\<rparr>)"
      using inv(2,3) assms(2) len over by (simp_all add: pairs_ok_def transports_ok_def children_ok_def)
    ultimately show ?thesis using over by (simp add: spawn_inv_def fork_step_def)
  next
    case fails
    then have "fork_step self ids i s = s\<lparr>os := w, parent := Threw (RuntimeError ''process_spawn: fork() failed'')\<rparr>"
      using nc by (simp add: fork_step_def sys_fork_def)
    moreover have "tables_ok self ids w0 ((s\<lparr>os := w\<rparr>)\<lparr>parent := Threw e\<rparr>)" for e
      using assms(2) by (intro tables_ok_phase tables_ok_calls [OF inv(4) w]) (simp_all add: parent_keep_def)
    ultimately show ?thesis using inv(1-3) assms(2)
      by (simp add: spawn_inv_def pairs_ok_def transports_ok_def children_ok_def)
  next
    case forks
    let ?p = "next_pid (os s)" and ?ws = "workers s"
    have fresh: "children s ?p = None" using t(4) [of ?p] by (metis less_irrefl not_None_eq surj_pair)
    have notin: "?p \<notin> set (child_pids ?ws)" using inv(3) fresh by (auto simp: children_ok_def in_set_conv_nth)
    have step: "fork_step self ids i s = s\<lparr>os := w\<lparr>procs := (procs w)(?p := procs w self), next_pid := ?p + 1\<rparr>,
        children := (children s)(?p \<mapsto> (i, Closing 0)), parent := Forks (i + 1),
        workers := ?ws\<lparr>child_pids := child_pids ?ws @ [?p], shard_pids := (shard_pids ?ws)(ids ! i \<mapsto> ?p)\<rparr>\<rparr>" (is "_ = ?t")
      using forks nc w by (simp add: fork_step_def sys_fork_def Let_def)
    have "tables_ok self ids w0 ?t" by (rule tables_ok_fork [OF inv(4) assms(2) forks(1) len(1) w refl refl])
    moreover have "children_ok ids ?t"
      using forks(1) len(2) by (intro children_ok_fork [OF inv(3) _ assms(3) notin]) simp_all
    moreover have "pairs_ok ids ?t" "transports_ok ids ?t" using inv(1,2) assms(2) forks(1) by (simp_all add: pairs_ok_def transports_ok_def)
    ultimately show ?thesis unfolding step spawn_inv_def by blast
  qed
qed

text \<open>A step of the parent that keeps the pairs and the children changes its own table only.\<close>

lemma tables_ok_self:
  assumes "tables_ok self ids w0 s" "pairs t = pairs s" "children t = children s" "next_pid (os t) = next_pid (os s)" "next_pair (os t) = next_pair (os s)"
    "\<And>q. q \<noteq> self \<Longrightarrow> procs (os t) q = procs (os s) q" "procs (os t) self = Some (Live tab ign)"
    "set tab = holds (fds_of (procs w0 self)) (pairs s) (next_pair w0) (parent_keep ids t)" "must_ignore ids (parent t) \<Longrightarrow> ign"
  shows "tables_ok self ids w0 t"
proof -
  note T = tables_okD [OF assms(1)]
  show ?thesis
  proof (rule tables_okI [where tab = tab and ign = ign])
    show "children t q = Some (l, c) \<Longrightarrow> procs (os t) q = Some (Live tb ig) \<Longrightarrow>
        set tb = holds (fds_of (procs w0 self)) (pairs t) (next_pair w0) (child_keep (length ids) l c) \<and> (c = Serving \<longrightarrow> ig)" for q l c tb ig
      using T(5) [of q l c tb ig] T(4) [of q l c] assms(2,3) assms(6) [of q] by auto
    show "children t q = Some (l, c) \<Longrightarrow> length (pairs t) = length ids \<and> q \<noteq> self \<and> q < next_pid (os t) \<and> procs (os t) q \<noteq> None" for q l c
      using T(4) [of q l c] assms(2-4) assms(6) [of q] by auto
    show "procs (os t) q = None" if "next_pid (os t) \<le> q" for q
      using T(8) [of q] T(3) that assms(4) assms(6) [of q] by (cases "q = self") auto
  qed (use T(1,2,6,7) assms(2-9) in simp_all)
qed

lemma wrap_step_inv:
  assumes "spawn_inv self ids w0 s" "parent s = Wraps i" "distinct ids"
  shows "spawn_inv self ids w0 (wrap_step self ids i s)"
proof -
  let ?base = "fds_of (procs w0 self)" and ?k0 = "next_pair w0" and ?n = "length ids"
  have inv: "pairs_ok ids s" "transports_ok ids s" "children_ok ids s" "tables_ok self ids w0 s" using assms(1) by (auto simp: spawn_inv_def)
  note t = tables_okD [OF inv(4)]
  have len: "length (pairs s) = ?n" "i \<le> ?n" using inv(1,2) assms(2) by (auto simp: pairs_ok_def transports_ok_def)
  have tr: "transports (workers s) (ids ! j) = (if j < i then Some (router_fd (pairs s ! j)) else None)" if "j < ?n" for j
    using inv(2) assms(2) that by (simp add: transports_ok_def)
  show ?thesis
  proof (cases "i = ?n")
    case True
    have "parent_keep ids (s\<lparr>parent := Ready\<rparr>) = parent_keep ids s" using tr assms(2) True by (auto simp: parent_keep_def Let_def)
    then have "tables_ok self ids w0 (s\<lparr>parent := Ready\<rparr>)" using assms(2) True by (intro tables_ok_phase [OF inv(4)]) simp_all
    moreover have "pairs_ok ids (s\<lparr>parent := Ready\<rparr>)" "transports_ok ids (s\<lparr>parent := Ready\<rparr>)" "children_ok ids (s\<lparr>parent := Ready\<rparr>)"
      using inv(1-3) assms(2) True by (simp_all add: pairs_ok_def transports_ok_def children_ok_def)
    ultimately show ?thesis using True by (simp add: spawn_inv_def wrap_step_def)
  next
    case False
    then have i: "i < ?n" using len(2) by simp
    let ?S = "{0..<?n} \<times> {False} \<union> {i..<?n} \<times> {True}"
    obtain tab ign where tab: "procs (os s) self = Some (Live tab ign)" "set tab = holds ?base (pairs s) ?k0 ?S"
      using t(3) assms(2) by (auto simp: parent_keep_def Let_def)
    let ?tab = "AList.delete (worker_fd (pairs s ! i)) tab"
    have S: "?S - {(i, True)} = {0..<?n} \<times> {False} \<union> {i + 1..<?n} \<times> {True}" by auto
    have "set (AList.delete (fd_of (pairs s) (i, True)) tab) = holds ?base (pairs s) ?k0 (?S - {(i, True)})"
      using i len(1) by (intro close_holds [OF t(1) _ _ tab(2)]) auto
    then have new: "set ?tab = holds ?base (pairs s) ?k0 ({0..<?n} \<times> {False} \<union> {i + 1..<?n} \<times> {True})"
      unfolding S by (simp add: fd_of_def)
    let ?w = "ignore_sigpipe self (sys_close self (worker_fd (pairs s ! i)) (os s))"
    let ?t = "s\<lparr>os := ?w, parent := Wraps (i + 1), workers := (workers s)\<lparr>transports := (transports (workers s))(ids ! i \<mapsto> router_fd (pairs s ! i))\<rparr>\<rparr>"
    have step: "wrap_step self ids i s = ?t"
      using i tr [OF i] by (simp add: wrap_step_def new_UnixSocketTransport_def)
    have w: "procs ?w self = Some (Live ?tab True)" "q \<noteq> self \<Longrightarrow> procs ?w q = procs (os s) q"
      "next_pid ?w = next_pid (os s)" "next_pair ?w = next_pair (os s)" for q
      using tab(1) by (simp_all add: sys_close_def procs_set_fds)
    have "tables_ok self ids w0 ?t"
      using w new by (intro tables_ok_self [OF inv(4), where tab = ?tab and ign = True]) (simp_all add: parent_keep_def Let_def)
    moreover have "transports_ok ids ?t"
      using inv(2) i tr assms(2,3) by (auto simp: transports_ok_def nth_eq_iff_index_eq less_Suc_eq)
    moreover have "pairs_ok ids ?t" "children_ok ids ?t" using inv(1,3) assms(2) by (simp_all add: pairs_ok_def children_ok_def)
    ultimately show ?thesis unfolding step spawn_inv_def by blast
  qed
qed

text \<open>A step of a child changes its own table only.\<close>

lemma tables_ok_child:
  assumes "tables_ok self ids w0 s" "children s p = Some (i, c)" "next_pid w = next_pid (os s)" "next_pair w = next_pair (os s)"
    "\<And>q. q \<noteq> p \<Longrightarrow> procs w q = procs (os s) q"
    "\<And>tab ign. procs w p = Some (Live tab ign) \<Longrightarrow>
       set tab = holds (fds_of (procs w0 self)) (pairs s) (next_pair w0) (child_keep (length ids) i c') \<and> (c' = Serving \<longrightarrow> ign)"
    "procs w p \<noteq> None"
  shows "tables_ok self ids w0 (s\<lparr>os := w, children := (children s)(p \<mapsto> (i, c'))\<rparr>)"
proof -
  let ?t = "s\<lparr>os := w, children := (children s)(p \<mapsto> (i, c'))\<rparr>"
  note t = tables_okD [OF assms(1)]
  have p: "p \<noteq> self" "p < next_pid (os s)" "length (pairs s) = length ids" using t(4) [OF assms(2)] by auto
  obtain tab ign where tab: "procs (os s) self = Some (Live tab ign)"
    "set tab = holds (fds_of (procs w0 self)) (pairs s) (next_pair w0) (parent_keep ids s)" "must_ignore ids (parent s) \<longrightarrow> ign"
    using t(3) by blast
  show ?thesis
  proof (rule tables_okI [where tab = tab and ign = ign])
    show "children ?t q = Some (l, c'') \<Longrightarrow> length (pairs ?t) = length ids \<and> q \<noteq> self \<and> q < next_pid (os ?t) \<and> procs (os ?t) q \<noteq> None" for q l c''
      using t(4) [of q l c''] p assms(3,7) assms(5) [of q] by (auto split: if_splits)
    show "children ?t q = Some (l, c'') \<Longrightarrow> procs (os ?t) q = Some (Live tb ig) \<Longrightarrow>
        set tb = holds (fds_of (procs w0 self)) (pairs ?t) (next_pair w0) (child_keep (length ids) l c'') \<and> (c'' = Serving \<longrightarrow> ig)" for q l c'' tb ig
      using t(5) [of q l c'' tb ig] assms(5,6) by (auto split: if_splits)
    show "procs (os ?t) q = procs w0 q \<or> (\<exists>st. procs (os ?t) q = Some (Zombie st))" if "q \<noteq> self" "children ?t q = None" for q
      using t(6) [of q] that assms(5) [of q] by (auto split: if_splits)
    show "procs (os ?t) q = None" if "next_pid (os ?t) \<le> q" for q
      using t(8) [of q] that assms(3) assms(5) [of q] p(2) by auto
  qed (use t(1,2,7) tab assms(3,4) assms(5) [of self] p(1) in simp_all)
qed

lemma close_pair:
  assumes "fresh_fds base (pairs s)" "i < length (pairs s)" "j < length (pairs s)" "set tab = holds base (pairs s) k0 (child_keep (length (pairs s)) i (Closing j))"
    "tab1 = AList.delete (router_fd (pairs s ! j)) tab" "tab2 = (if j \<noteq> i then AList.delete (worker_fd (pairs s ! j)) tab1 else tab1)"
  shows "set tab2 = holds base (pairs s) k0 (child_keep (length (pairs s)) i (Closing (j + 1)))"
proof -
  let ?n = "length (pairs s)" and ?K = "child_keep (length (pairs s)) i (Closing j)"
  have sub: "?K \<subseteq> sides (pairs s)" using assms(2) by (auto simp: child_keep_def)
  have t1: "set tab1 = holds base (pairs s) k0 (?K - {(j, False)})"
    using close_holds [OF assms(1) _ sub assms(4), of "(j, False)"] assms(3,5) by (simp add: fd_of_def)
  have "set (AList.delete (worker_fd (pairs s ! j)) tab1) = holds base (pairs s) k0 (?K - {(j, False)} - {(j, True)})"
    using close_holds [OF assms(1) _ _ t1, of "(j, True)"] sub assms(3) by (auto simp: fd_of_def)
  moreover have "(if j \<noteq> i then ?K - {(j, False)} - {(j, True)} else ?K - {(j, False)}) = child_keep ?n i (Closing (j + 1))"
    using assms(2) by (auto simp: child_keep_def Suc_le_eq order_le_less)
  ultimately show ?thesis using t1 assms(6) by (auto split: if_splits)
qed

lemma child_step_inv:
  assumes "spawn_inv self ids w0 s" "child_step p s = Some t" "is_live (os s) p"
  shows "spawn_inv self ids w0 t"
proof -
  let ?base = "fds_of (procs w0 self)" and ?k0 = "next_pair w0" and ?n = "length ids"
  have inv: "pairs_ok ids s" "transports_ok ids s" "children_ok ids s" "tables_ok self ids w0 s" using assms(1) by (auto simp: spawn_inv_def)
  note T = tables_okD [OF inv(4)]
  obtain i j where c: "children s p = Some (i, Closing j)"
    using assms(2) by (auto simp: child_step_def split: option.splits prod.splits child_pc.splits)
  obtain tab ign where tab: "procs (os s) p = Some (Live tab ign)" using assms(3) by (auto simp: is_live_def split: option.splits process.splits)
  have set: "set tab = holds ?base (pairs s) ?k0 (child_keep ?n i (Closing j))" and len: "length (pairs s) = ?n"
    using T(5) [OF c tab] T(4) [OF c] by auto
  have i: "i < ?n" using inv(3) c unfolding children_ok_def by (meson order.strict_trans2)
  have keep: "\<exists>c' w. t = s\<lparr>os := w, children := (children s)(p \<mapsto> (i, c'))\<rparr> \<and> tables_ok self ids w0 t"
  proof (cases "j < ?n")
    case True
    let ?tab1 = "AList.delete (router_fd (pairs s ! j)) tab"
    let ?tab2 = "if j \<noteq> i then AList.delete (worker_fd (pairs s ! j)) ?tab1 else ?tab1"
    have t2: "set ?tab2 = holds ?base (pairs s) ?k0 (child_keep ?n i (Closing (j + 1)))"
      using close_pair [OF T(1), of i j tab ?k0, OF _ _ _ refl refl] i True len set by simp
    let ?w = "set_fds p ?tab2 (os s)"
    have w2: "(let w1 = sys_close p (router_fd (pairs s ! j)) (os s) in
        if j \<noteq> i then sys_close p (worker_fd (pairs s ! j)) w1 else w1) = ?w"
      using tab by (simp add: sys_close_def set_fds_def)
    have "t = s\<lparr>os := ?w, children := (children s)(p \<mapsto> (i, Closing (j + 1)))\<rparr>"
      using assms(2) c True len w2 by (simp add: child_step_def Let_def)
    moreover have "tables_ok self ids w0 (s\<lparr>os := ?w, children := (children s)(p \<mapsto> (i, Closing (j + 1)))\<rparr>)"
      using t2 tab by (intro tables_ok_child [OF inv(4) c]) (auto simp: procs_set_fds)
    ultimately show ?thesis by blast
  next
    case False
    let ?w = "ignore_sigpipe p (os s)"
    have "t = s\<lparr>os := ?w, children := (children s)(p \<mapsto> (i, Serving))\<rparr>"
      using assms(2) c False len by (simp add: child_step_def new_UnixSocketTransport_def)
    moreover have "child_keep ?n i (Closing j) = child_keep ?n i Serving" using False by (auto simp: child_keep_def)
    then have "tables_ok self ids w0 (s\<lparr>os := ?w, children := (children s)(p \<mapsto> (i, Serving))\<rparr>)"
      using set tab by (intro tables_ok_child [OF inv(4) c]) auto
    ultimately show ?thesis by blast
  qed
  then obtain c' w where t: "t = s\<lparr>os := w, children := (children s)(p \<mapsto> (i, c'))\<rparr>" "tables_ok self ids w0 t" by blast
  have "children_ok ids t" using inv(3) c by (auto simp: children_ok_def t(1))
  moreover have "pairs_ok ids t" "transports_ok ids t" using inv(1,2) by (simp_all add: t(1))
  ultimately show ?thesis using t(2) by (simp add: spawn_inv_def)
qed

lemma terminate_inv:
  assumes "spawn_inv self ids w0 s" "p \<noteq> self"
  shows "spawn_inv self ids w0 (s\<lparr>os := terminate p st (os s)\<rparr>)"
proof -
  let ?t = "s\<lparr>os := terminate p st (os s)\<rparr>"
  have inv: "pairs_ok ids s" "transports_ok ids s" "children_ok ids s" "tables_ok self ids w0 s" using assms(1) by (auto simp: spawn_inv_def)
  note t = tables_okD [OF inv(4)]
  obtain tab ign where tab: "procs (os s) self = Some (Live tab ign)"
    "set tab = holds (fds_of (procs w0 self)) (pairs s) (next_pair w0) (parent_keep ids s)" "must_ignore ids (parent s) \<longrightarrow> ign"
    using t(3) by blast
  have "tables_ok self ids w0 ?t"
  proof (rule tables_okI [where tab = tab and ign = ign])
    show "children ?t q = Some (l, c) \<Longrightarrow> procs (os ?t) q = Some (Live tb ig) \<Longrightarrow>
        set tb = holds (fds_of (procs w0 self)) (pairs ?t) (next_pair w0) (child_keep (length ids) l c) \<and> (c = Serving \<longrightarrow> ig)" for q l c tb ig
      using t(5) [of q l c tb ig] by (auto split: if_splits option.splits process.splits)
    show "procs (os ?t) q = procs w0 q \<or> (\<exists>st. procs (os ?t) q = Some (Zombie st))" if "q \<noteq> self" "children ?t q = None" for q
      using t(6) [of q] that by (auto split: if_splits option.splits process.splits)
    show "procs (os ?t) q = None" if "next_pid (os ?t) \<le> q" for q using t(8) [of q] t(8) [of p] that by auto
    show "children ?t q = Some (l, c) \<Longrightarrow> length (pairs ?t) = length ids \<and> q \<noteq> self \<and> q < next_pid (os ?t) \<and> procs (os ?t) q \<noteq> None" for q l c
      using t(4) [of q l c] by (auto split: option.splits process.splits)
  qed (use t(1,2,7) tab assms(2) in simp_all)
  then show ?thesis using inv(1-3) by (simp add: spawn_inv_def)
qed

lemma drop_transport_inv:
  assumes "spawn_inv self ids w0 s" "parent s = Ready" "distinct ids"
  shows "spawn_inv self ids w0 (drop_transport self shard s)"
proof (cases "transports (workers s) shard")
  case None
  then show ?thesis using assms by (simp add: drop_transport_def)
next
  case (Some fd)
  let ?base = "fds_of (procs w0 self)" and ?k0 = "next_pair w0" and ?n = "length ids"
  have inv: "pairs_ok ids s" "transports_ok ids s" "children_ok ids s" "tables_ok self ids w0 s" using assms(1) by (auto simp: spawn_inv_def)
  note t = tables_okD [OF inv(4)]
  obtain j where j: "j < ?n" "shard = ids ! j" "fd = router_fd (pairs s ! j)"
    using inv(2) assms(2) Some by (force simp: transports_ok_def in_set_conv_nth dom_def)
  have len: "length (pairs s) = ?n" using inv(1) assms(2) by (simp add: pairs_ok_def)
  let ?w = "sys_close self fd (os s)"
  let ?t = "s\<lparr>os := ?w, workers := (workers s)\<lparr>transports := (transports (workers s))(shard := None)\<rparr>\<rparr>"
  obtain tab ign where tab: "procs (os s) self = Some (Live tab ign)" "set tab = holds ?base (pairs s) ?k0 (parent_keep ids s)" "ids \<noteq> [] \<longrightarrow> ign"
    using t(3) assms(2) by auto
  have "parent_keep ids s \<subseteq> sides (pairs s)" using assms(2) len by (auto simp: parent_keep_def Let_def)
  then have "set (AList.delete (fd_of (pairs s) (j, False)) tab) = holds ?base (pairs s) ?k0 (parent_keep ids s - {(j, False)})"
    using j(1) len by (intro close_holds [OF t(1) _ _ tab(2)]) auto
  moreover have "parent_keep ids s - {(j, False)} = parent_keep ids ?t"
    using assms(2,3) j(1,2) by (auto simp: parent_keep_def Let_def nth_eq_iff_index_eq) (metis nth_eq_iff_index_eq option.distinct(1))
  ultimately have new: "set (AList.delete fd tab) = holds ?base (pairs s) ?k0 (parent_keep ids ?t)" by (simp add: fd_of_def j(3))
  have w: "procs ?w self = Some (Live (AList.delete fd tab) ign)" "q \<noteq> self \<Longrightarrow> procs ?w q = procs (os s) q"
    "next_pid ?w = next_pid (os s)" "next_pair ?w = next_pair (os s)" for q
    using tab(1) by (simp_all add: sys_close_def procs_set_fds)
  have "tables_ok self ids w0 ?t"
    using w new tab(3) assms(2) by (intro tables_ok_self [OF inv(4), where tab = "AList.delete fd tab" and ign = ign]) simp_all
  moreover have "transports_ok ids ?t" using inv(2) assms(2) by (auto simp: transports_ok_def)
  moreover have "pairs_ok ids ?t" "children_ok ids ?t" using inv(1,3) assms(2) by (simp_all add: pairs_ok_def children_ok_def)
  ultimately show ?thesis using Some by (simp add: spawn_inv_def drop_transport_def delete_UnixSocketTransport_def)
qed

lemma spawn_run_inv:
  assumes "spawn_run self ids w0 s" "os_ok self w0" "distinct ids"
  shows "spawn_inv self ids w0 s"
  using assms(1)
proof (induction rule: spawn_run.induct)
  case start
  then show ?case using assms(2) by (rule spawn_inv_start)
next
  case (parent s t)
  then show ?case using pair_step_inv fork_step_inv wrap_step_inv assms(3)
    by (auto simp: parent_step_def split: parent_pc.splits)
next
  case (child s p t)
  then show ?case using child_step_inv by blast
next
  case (ends s p i r)
  then have "p \<noteq> self" using tables_okD(4) unfolding spawn_inv_def by blast
  then show ?case using terminate_inv [OF ends.IH] by (simp add: sys_exit_def)
next
  case (killed s p)
  then show ?case using terminate_inv by (simp add: sys_kill_def)
next
  case (drops s shard)
  then show ?case using drop_transport_inv assms(3) by blast
qed

end
