(* ===== verification/Spawn_Properties.thy ===== *)
theory Spawn_Properties
  imports Process_Spawn
begin

text \<open>
  The properties of \<open>spawn_workers\<close> and \<open>join_all\<close>: who holds which end of a socket pair under every
  interleaving, termination, what a failed call leaves behind, and the collection of the exit statuses.
\<close>

section \<open>Who holds an end of a pair\<close>

definition holders :: "Os \<Rightarrow> endpoint \<Rightarrow> pid set" where
  "holders w e = {p. e \<in> snd ` set (fds_of (procs w p))}"

text \<open>A read on one end reports the end of the stream exactly when nobody holds the other end any more.\<close>

definition eof_visible :: "Os \<Rightarrow> endpoint \<Rightarrow> bool" where
  "eof_visible w e \<longleftrightarrow> (case e of End k b \<Rightarrow> holders w (End k (\<not> b)) = {})"

lemma snd_holds:
  assumes "os_ok self w0"
  shows "End (next_pair w0 + j) b \<in> snd ` holds (fds_of (procs w0 self)) prs (next_pair w0) S \<longleftrightarrow> (j, b) \<in> S"
proof -
  have "End (next_pair w0 + j) b \<notin> snd ` set (fds_of (procs w0 self))" using assms by (force simp: os_ok_def)
  then show ?thesis by (force simp: holds_def)
qed

lemma holder_self:
  assumes "spawn_inv self ids w0 s" "os_ok self w0"
  shows "self \<in> holders (os s) (End (next_pair w0 + j) b) \<longleftrightarrow> (j, b) \<in> parent_keep ids s"
proof -
  obtain tab ign where "procs (os s) self = Some (Live tab ign)"
    "set tab = holds (fds_of (procs w0 self)) (pairs s) (next_pair w0) (parent_keep ids s)"
    using tables_okD(3) assms(1) unfolding spawn_inv_def by blast
  then show ?thesis using snd_holds [OF assms(2)] by (simp add: holders_def)
qed

lemma holder_child:
  assumes "spawn_inv self ids w0 s" "os_ok self w0" "children s p = Some (i, c)"
  shows "p \<in> holders (os s) (End (next_pair w0 + j) b) \<longleftrightarrow> is_live (os s) p \<and> (j, b) \<in> child_keep (length ids) i c"
proof (cases "is_live (os s) p")
  case True
  then obtain tab ign where tab: "procs (os s) p = Some (Live tab ign)" by (auto simp: is_live_def split: option.splits process.splits)
  then have "set tab = holds (fds_of (procs w0 self)) (pairs s) (next_pair w0) (child_keep (length ids) i c)"
    using tables_okD(5) assms(1,3) unfolding spawn_inv_def by blast
  then show ?thesis using snd_holds [OF assms(2)] tab True by (simp add: holders_def)
next
  case False
  then have "fds_of (procs (os s) p) = []" by (auto simp: is_live_def split: option.splits process.splits)
  then show ?thesis using False by (simp add: holders_def)
qed

lemma holder_other:
  assumes "spawn_inv self ids w0 s" "os_ok self w0" "children s p = None" "p \<noteq> self"
  shows "p \<notin> holders (os s) (End (next_pair w0 + j) b)"
proof -
  have "procs (os s) p = procs w0 p \<or> (\<exists>st. procs (os s) p = Some (Zombie st))"
    using tables_okD(6) assms(1,3,4) unfolding spawn_inv_def by blast
  then show ?thesis using assms(2) by (force simp: holders_def os_ok_def)
qed

text \<open>No child is in its closing loop any more.\<close>

definition settled :: "Spawn \<Rightarrow> bool" where
  "settled s \<longleftrightarrow> (\<forall>p i j. children s p = Some (i, Closing j) \<longrightarrow> \<not> is_live (os s) p)"

section \<open>Properties\<close>

lemma holders_settled:
  assumes "os_ok self w0" "distinct shard_ids" "spawn_run self shard_ids w0 s" "parent s = Ready" "settled s" "j < length shard_ids"
  shows "holders (os s) (End (next_pair w0 + j) True) = {p. p = child_pids (workers s) ! j \<and> is_live (os s) p}
    \<and> holders (os s) (End (next_pair w0 + j) False) = {p. p = self \<and> transports (workers s) (shard_ids ! j) \<noteq> None}
    \<and> shard_pids (workers s) (shard_ids ! j) = Some (child_pids (workers s) ! j)"
proof -
  have inv: "spawn_inv self shard_ids w0 s" using spawn_run_inv [OF assms(3,1,2)] .
  then have ch: "children_ok shard_ids s" "length (child_pids (workers s)) = length shard_ids"
    using assms(4) by (auto simp: spawn_inv_def pairs_ok_def)
  have idx: "children s p = Some (i, c) \<Longrightarrow> child_pids (workers s) ! i = p" for p i c using ch(1) by (auto simp: children_ok_def)
  have some: "\<exists>c. children s (child_pids (workers s) ! j) = Some (j, c)" "shard_pids (workers s) (shard_ids ! j) = Some (child_pids (workers s) ! j)"
    using ch assms(6) by (auto simp: children_ok_def)
  have self: "children s self = None" using tables_okD(4) inv unfolding spawn_inv_def by (metis not_None_eq surj_pair)
  have keep: "(l, b) \<in> parent_keep shard_ids s \<longleftrightarrow> l < length shard_ids \<and> \<not> b \<and> transports (workers s) (shard_ids ! l) \<noteq> None" for l b
    using assms(4) by (auto simp: parent_keep_def Let_def)
  have child: "p \<in> holders (os s) (End (next_pair w0 + j) b) \<longleftrightarrow> is_live (os s) p \<and> p = child_pids (workers s) ! j \<and> b" if "p \<noteq> self" for p b
  proof (cases "children s p")
    case None
    then show ?thesis using holder_other [OF inv assms(1) None that] some(1) by auto
  next
    case (Some ic)
    obtain i c where ic: "ic = (i, c)" by fastforce
    have "p = child_pids (workers s) ! j \<longleftrightarrow> i = j" using some(1) idx [of p i c] Some ic by (metis Pair_inject option.inject)
    moreover have "is_live (os s) p \<Longrightarrow> c = Serving" using assms(5) Some ic by (cases c) (auto simp: settled_def)
    ultimately show ?thesis using holder_child [OF inv assms(1), of p i c] Some ic by (auto simp: child_keep_def)
  qed
  have "self \<noteq> child_pids (workers s) ! j" using some(1) self by auto
  then have "p \<in> holders (os s) (End (next_pair w0 + j) True) \<longleftrightarrow> p = child_pids (workers s) ! j \<and> is_live (os s) p"
    "p \<in> holders (os s) (End (next_pair w0 + j) False) \<longleftrightarrow> p = self \<and> transports (workers s) (shard_ids ! j) \<noteq> None" for p
    using child [of p True] child [of p False] holder_self [OF inv assms(1), of j] keep [of j] assms(6)
    by (cases "p = self", simp_all) blast+
  then show ?thesis using some(2) by (simp add: set_eq_iff)
qed

text \<open>C20. Descriptors are exactly where they belong: under every interleaving of the parent with its children,
  with children ending or being killed at any time, once \<open>spawn_workers\<close> has returned and no live child is in
  its closing loop, the worker's end of each pair is held by its child alone as long as that lives, and the
  router's end by the parent alone as long as the transport exists. So a dead worker is seen by the router,
  and a dropped transport by its worker, whatever happens to the other shards.\<close>

theorem descriptors_isolated:
  assumes "os_ok self w0" "distinct shard_ids" "spawn_run self shard_ids w0 s" "parent s = Ready" "settled s" "j < length shard_ids"
  shows "holders (os s) (End (next_pair w0 + j) True) = {p. p = child_pids (workers s) ! j \<and> is_live (os s) p}
    \<and> holders (os s) (End (next_pair w0 + j) False) = {p. p = self \<and> transports (workers s) (shard_ids ! j) \<noteq> None}
    \<and> shard_pids (workers s) (shard_ids ! j) = Some (child_pids (workers s) ! j)"
  by (rule holders_settled [OF assms])

lemma run_parent_run: "spawn_run self ids w0 s \<Longrightarrow> spawn_run self ids w0 (run_parent n self ids s)"
  by (induction n arbitrary: s) (auto split: option.split intro: spawn_run.parent)

text \<open>What the parent still has to do, and how much of the script it has used.\<close>

fun parent_left :: "nat \<Rightarrow> parent_pc \<Rightarrow> nat" where
  "parent_left n (Pairs i) = (n - i) + 2 * n + 3"
| "parent_left n (Forks i) = (n - i) + n + 2"
| "parent_left n (Wraps i) = (n - i) + 1"
| "parent_left n Ready = 0"
| "parent_left n (Threw e) = 0"

fun script_used :: "nat \<Rightarrow> bool list \<Rightarrow> parent_pc \<Rightarrow> bool list \<Rightarrow> bool" where
  "script_used n sc (Pairs i) rest \<longleftrightarrow> i \<le> n \<and> rest = drop i sc \<and> list_all id (take i sc)"
| "script_used n sc (Forks i) rest \<longleftrightarrow> i \<le> n \<and> rest = drop (n + i) sc \<and> list_all id (take (n + i) sc)"
| "script_used n sc (Threw e) rest \<longleftrightarrow> \<not> list_all id (take (2 * n) sc)"
| "script_used n sc pc rest \<longleftrightarrow> list_all id (take (2 * n) sc)"

lemma list_all_take_Suc: "list_all P (take (Suc k) xs) \<longleftrightarrow> list_all P (take k xs) \<and> (k < length xs \<longrightarrow> P (xs ! k))"
  by (cases "k < length xs") (auto simp: take_Suc_conv_app_nth)

lemma next_call_drop:
  assumes "next_call w = (ok, w')" "call_script w = drop k sc"
  shows "call_script w' = drop (Suc k) sc \<and> (ok \<longleftrightarrow> (k < length sc \<longrightarrow> sc ! k))"
proof (cases "k < length sc")
  case True
  then have "drop k sc = sc ! k # drop (Suc k) sc" by (rule Cons_nth_drop_Suc [symmetric])
  then show ?thesis using assms True by (auto simp: next_call_def)
qed (use assms in \<open>auto simp: next_call_def\<close>)

lemma not_all_take: "k < length sc \<Longrightarrow> \<not> sc ! k \<Longrightarrow> k < m \<Longrightarrow> \<not> list_all id (take m sc)"
  by (auto simp: list_all_length)

lemma parent_step_progress:
  assumes "parent_step self ids s = Some t" "script_used (length ids) sc (parent s) (call_script (os s))"
  shows "parent_left (length ids) (parent t) < parent_left (length ids) (parent s)
     \<and> script_used (length ids) sc (parent t) (call_script (os t))"
proof (cases "parent s")
  case (Pairs i)
  obtain ok w where nc: "next_call (os s) = (ok, w)" by fastforce
  have "call_script w = drop (Suc i) sc \<and> (ok \<longleftrightarrow> (i < length sc \<longrightarrow> sc ! i))"
    using next_call_drop [OF nc] assms(2) Pairs by simp
  then show ?thesis using assms nc Pairs not_all_take [of i sc "2 * length ids"]
    by (auto simp: parent_step_def pair_step_def sys_socketpair_def Let_def list_all_take_Suc split: if_splits)
next
  case (Forks i)
  obtain ok w where nc: "next_call (os s) = (ok, w)" by fastforce
  have "call_script w = drop (Suc (length ids + i)) sc \<and> (ok \<longleftrightarrow> (length ids + i < length sc \<longrightarrow> sc ! (length ids + i)))"
    using next_call_drop [OF nc] assms(2) Forks by simp
  then show ?thesis using assms nc Forks not_all_take [of "length ids + i" sc "2 * length ids"]
    by (auto simp: parent_step_def fork_step_def sys_fork_def Let_def list_all_take_Suc mult_2 split: if_splits)
next
  case (Wraps i)
  then show ?thesis using assms by (auto simp: parent_step_def wrap_step_def Let_def split: if_splits prod.splits)
qed (use assms in \<open>simp_all add: parent_step_def\<close>)

lemma run_parent_stops:
  assumes "parent_left (length ids) (parent s) \<le> m" "script_used (length ids) sc (parent s) (call_script (os s))"
  shows "parent_left (length ids) (parent (run_parent m self ids s)) = 0
     \<and> script_used (length ids) sc (parent (run_parent m self ids s)) (call_script (os (run_parent m self ids s)))"
  using assms
proof (induction m arbitrary: s)
  case (Suc m)
  show ?case
  proof (cases "parent_step self ids s")
    case None
    then have "parent_left (length ids) (parent s) = 0" by (auto simp: parent_step_def split: parent_pc.splits)
    then show ?thesis using None Suc.prems(2) by simp
  next
    case (Some t)
    then show ?thesis using Suc.IH [of t] parent_step_progress [OF Some Suc.prems(2)] Suc.prems(1) by simp
  qed
qed simp

lemma parent_step_transports:
  assumes "spawn_inv self ids w0 s" "parent_step self ids s = Some t" "parent t = Ready"
  shows "set ids \<subseteq> dom (transports (workers t))"
proof -
  have tr: "transports_ok ids s" using assms(1) by (simp add: spawn_inv_def)
  obtain i where i: "parent s = Wraps i" "\<not> i < length ids" "t = s\<lparr>parent := Ready\<rparr>"
    using assms(2,3) by (auto simp: parent_step_def pair_step_def fork_step_def wrap_step_def Let_def
        split: parent_pc.splits if_splits prod.splits option.splits)
  then show ?thesis using tr by (auto simp: transports_ok_def in_set_conv_nth dom_def)
qed

lemma run_parent_transports:
  assumes "os_ok self w0" "distinct ids" "spawn_run self ids w0 s" "parent s = Ready \<longrightarrow> set ids \<subseteq> dom (transports (workers s))"
    "parent (run_parent m self ids s) = Ready"
  shows "set ids \<subseteq> dom (transports (workers (run_parent m self ids s)))"
  using assms(3-5)
proof (induction m arbitrary: s)
  case (Suc m)
  show ?case
  proof (cases "parent_step self ids s")
    case (Some t)
    have "parent t = Ready \<longrightarrow> set ids \<subseteq> dom (transports (workers t))"
      using parent_step_transports [OF spawn_run_inv [OF Suc.prems(1) assms(1,2)] Some] by blast
    then show ?thesis using Suc.IH [OF spawn_run.parent [OF Suc.prems(1) Some]] Suc.prems(3) Some by simp
  qed (use Suc.prems in simp)
qed simp

text \<open>C28. \<open>spawn_workers\<close> terminates: after its three loops it has either returned or thrown, and it returns exactly
  when every one of its \<open>n\<close> calls of \<open>socketpair\<close> and \<open>n\<close> calls of \<open>fork\<close> succeeded; then there are \<open>n\<close> children and
  a transport for every shard.\<close>

theorem spawn_workers_returns:
  assumes "os_ok self w" "distinct shard_ids"
  shows "if \<forall>ok \<in> set (take (2 * length shard_ids) (call_script w)). ok
    then parent (spawn_workers self shard_ids w) = Ready
      \<and> length (child_pids (workers (spawn_workers self shard_ids w))) = length shard_ids
      \<and> dom (transports (workers (spawn_workers self shard_ids w))) = set shard_ids
    else \<exists>e. parent (spawn_workers self shard_ids w) = Threw e"
proof -
  let ?s = "spawn_workers self shard_ids w" and ?sc = "call_script w" and ?n = "length shard_ids"
  have r: "parent_left ?n (parent ?s) = 0 \<and> script_used ?n ?sc (parent ?s) (call_script (os ?s))"
    unfolding spawn_workers_def by (rule run_parent_stops) (simp_all add: new_Spawn_def)
  have inv: "spawn_inv self shard_ids w ?s"
    unfolding spawn_workers_def by (intro spawn_run_inv run_parent_run spawn_run.start assms)
  have all: "(\<forall>ok \<in> set (take (2 * ?n) ?sc). ok) \<longleftrightarrow> list_all id (take (2 * ?n) ?sc)" by (simp add: list_all_iff)
  show ?thesis
  proof (cases "parent ?s")
    case Ready
    then have "set shard_ids \<subseteq> dom (transports (workers ?s))" unfolding spawn_workers_def
      using run_parent_transports [OF assms spawn_run.start] by (simp add: new_Spawn_def)
    moreover have "dom (transports (workers ?s)) \<subseteq> set shard_ids" "length (child_pids (workers ?s)) = ?n"
      using inv Ready by (simp_all add: spawn_inv_def transports_ok_def pairs_ok_def)
    ultimately show ?thesis using r all Ready by auto
  qed (use r all in auto)
qed

subsection \<open>Evaluating a run\<close>

definition demo_os :: "bool list \<Rightarrow> Os" where
  "demo_os script = \<lparr>procs = [7 \<mapsto> Live [(0, End 0 True)] False], next_pid = 8, next_pair = 1, call_script = script\<rparr>"

lemma demo_os_ok: "os_ok 7 (demo_os script)"
  by (auto simp: os_ok_def is_live_def demo_os_def)

lemma run_parent_numeral:
  "run_parent (numeral k) self ids s =
     (case parent_step self ids s of None \<Rightarrow> s | Some t \<Rightarrow> run_parent (pred_numeral k) self ids t)"
  by (simp add: numeral_eq_Suc)

lemmas spawn_eval = new_Spawn_def run_parent_numeral parent_step_def pair_step_def fork_step_def wrap_step_def child_step_def
  sys_socketpair_def sys_fork_def sys_close_def next_call_def set_fds_def lowest_free_def ignore_sigpipe_def
  new_UnixSocketTransport_def demo_os_def Let_def is_live_def

text \<open>One shard, whose child has run its closing loop.\<close>

definition demo_spawned :: Spawn where
  "demo_spawned = spawn_workers 7 [5] (demo_os [])"

definition demo_serving :: Spawn where
  "demo_serving = the (child_step 8 (the (child_step 8 demo_spawned)))"

lemma demo_spawned_eq:
  "demo_spawned = \<lparr>os = \<lparr>procs = [7 \<mapsto> Live [(1, End 1 False), (0, End 0 True)] True,
        8 \<mapsto> Live [(2, End 1 True), (1, End 1 False), (0, End 0 True)] False], next_pid = 9, next_pair = 2, call_script = []\<rparr>,
     parent = Ready, pairs = [(1, 2)], workers = \<lparr>transports = [5 \<mapsto> 1], child_pids = [8], shard_pids = [5 \<mapsto> 8]\<rparr>,
     children = [8 \<mapsto> (0, Closing 0)]\<rparr>"
  by (simp add: demo_spawned_def spawn_workers_def spawn_eval fun_upd_twist numeral_2_eq_2)

lemma demo_serving_run: "spawn_run 7 [5] (demo_os []) demo_serving"
proof -
  have 0: "spawn_run 7 [5] (demo_os []) demo_spawned"
    unfolding demo_spawned_def spawn_workers_def by (intro run_parent_run spawn_run.start)
  let ?s1 = "the (child_step 8 demo_spawned)"
  have "spawn_run 7 [5] (demo_os []) ?s1"
    by (rule spawn_run.child [OF 0, of 8]) (simp_all add: demo_spawned_eq child_step_def is_live_def)
  then show ?thesis unfolding demo_serving_def
    by (rule spawn_run.child [of _ _ _ _ 8]) (simp_all add: demo_spawned_eq child_step_def is_live_def sys_close_def set_fds_def)
qed

lemma demo_serving_eq:
  "parent demo_serving = Ready" "children demo_serving = [8 \<mapsto> (0, Serving)]" "child_pids (workers demo_serving) = [8]"
  "procs (os demo_serving) 8 = Some (Live [(2, End 1 True), (0, End 0 True)] True)" "transports (workers demo_serving) = [5 \<mapsto> 1]"
  by (simp_all add: demo_serving_def demo_spawned_eq child_step_def sys_close_def set_fds_def new_UnixSocketTransport_def ignore_sigpipe_def)

theorem descriptors_isolated_witness:
  "holders (os demo_serving) (End 1 True) = {8} \<and> holders (os demo_serving) (End 1 False) = {7}"
proof -
  have "settled demo_serving" by (simp add: settled_def demo_serving_eq)
  moreover have "next_pair (demo_os []) = 1" by (simp add: demo_os_def)
  ultimately show ?thesis
    using descriptors_isolated [OF demo_os_ok _ demo_serving_run demo_serving_eq(1), of 0]
    by (simp add: demo_serving_eq is_live_def) (auto simp: is_live_def demo_serving_eq)
qed

theorem spawn_workers_returns_witness:
  "parent (spawn_workers 7 [5, 6] (demo_os [])) = Ready \<and> (\<exists>e. parent (spawn_workers 7 [5, 6] (demo_os [True, True, True, False])) = Threw e)"
proof -
  have "call_script (demo_os sc) = sc" for sc by (simp add: demo_os_def)
  then show ?thesis
    using spawn_workers_returns [OF demo_os_ok, of "[5, 6]" "[]"] spawn_workers_returns [OF demo_os_ok, of "[5, 6]" "[True, True, True, False]"]
    by simp
qed

text \<open>C29. A failed spawn strands its workers: when a later \<open>fork\<close> fails, the exception leaves every descriptor of the
  pairs open in the parent and no transport to close them, so that no child forked before can ever see the
  end of its stream, in any later state of any interleaving.\<close>

theorem failed_spawn_strands_workers:
  assumes "os_ok self w0" "distinct shard_ids" "spawn_run self shard_ids w0 s" "parent s = Threw e" "children s p = Some (i, c)"
  shows "\<not> eof_visible (os s) (End (next_pair w0 + i) True) \<and> transports (workers s) = Map.empty"
proof -
  have inv: "spawn_inv self shard_ids w0 s" using spawn_run_inv [OF assms(3,1,2)] .
  have "length (pairs s) = length shard_ids" using tables_okD(4) [OF _ assms(5)] inv unfolding spawn_inv_def by blast
  moreover have "i < length shard_ids" using inv assms(5) unfolding spawn_inv_def children_ok_def by (meson order.strict_trans2)
  ultimately have "(i, False) \<in> parent_keep shard_ids s" using assms(4) by (simp add: parent_keep_def Let_def)
  then have "self \<in> holders (os s) (End (next_pair w0 + i) False)" using holder_self [OF inv assms(1)] by blast
  moreover have "transports (workers s) = Map.empty" using inv assms(4) by (simp add: spawn_inv_def transports_ok_def)
  ultimately show ?thesis by (auto simp: eof_visible_def)
qed

theorem failed_spawn_strands_workers_witness:
  "\<not> eof_visible (os (spawn_workers 7 [5, 6] (demo_os [True, True, True, False]))) (End 1 True)"
proof -
  let ?w = "demo_os [True, True, True, False]" and ?s = "spawn_workers 7 [5, 6] (demo_os [True, True, True, False])"
  have "spawn_run 7 [5, 6] ?w ?s" unfolding spawn_workers_def by (intro run_parent_run spawn_run.start)
  moreover have "parent ?s = Threw (RuntimeError ''process_spawn: fork() failed'')" "children ?s 8 = Some (0, Closing 0)"
    by (simp_all add: spawn_workers_def spawn_eval)
  moreover have "next_pair ?w = 1" by (simp add: demo_os_def)
  ultimately show ?thesis using failed_spawn_strands_workers [OF demo_os_ok, of "[5, 6]" "[True, True, True, False]" ?s] by fastforce
qed

text \<open>Earlier descriptors are inherited: a worker keeps every descriptor its parent had before the call. So the
  router's ends of an earlier \<open>spawn_workers\<close> call stay open in the workers of a later one, and the earlier
  workers do not see the end of their streams while those live.\<close>

theorem earlier_descriptors_inherited:
  assumes "os_ok self w0" "distinct shard_ids" "spawn_run self shard_ids w0 s" "children s p = Some (i, c)" "is_live (os s) p"
    "self \<in> holders w0 (End k False)"
  shows "\<not> eof_visible (os s) (End k True)"
proof -
  have inv: "spawn_inv self shard_ids w0 s" using spawn_run_inv [OF assms(3,1,2)] .
  obtain tab ign where tab: "procs (os s) p = Some (Live tab ign)" using assms(5) by (auto simp: is_live_def split: option.splits process.splits)
  then have "set tab = holds (fds_of (procs w0 self)) (pairs s) (next_pair w0) (child_keep (length shard_ids) i c)"
    using tables_okD(5) assms(4) inv unfolding spawn_inv_def by blast
  then have "p \<in> holders (os s) (End k False)" using assms(6) tab by (auto simp: holders_def holds_def)
  then show ?thesis by (auto simp: eof_visible_def)
qed

lemma join_children_zombies:
  assumes "distinct ps" "length sts = length ps" "\<forall>j < length ps. procs w (ps ! j) = Some (Zombie (sts ! j))"
  shows "join_children ps acc w = Some (Inr (acc @ sts), w\<lparr>procs := \<lambda>p. if p \<in> set ps then None else procs w p\<rparr>)"
  using assms
proof (induction ps arbitrary: sts acc w)
  case (Cons p ps)
  obtain st sts' where sts: "sts = st # sts'" using Cons.prems(2) by (cases sts) auto
  let ?w = "w\<lparr>procs := (procs w)(p := None)\<rparr>"
  have p: "procs w p = Some (Zombie st)" using Cons.prems(3) sts by force
  have "procs ?w (ps ! j) = Some (Zombie (sts' ! j))" if "j < length ps" for j
    using Cons.prems(1,3) sts that by fastforce
  then have "join_children ps (acc @ [st]) ?w = Some (Inr ((acc @ [st]) @ sts'), ?w\<lparr>procs := \<lambda>q. if q \<in> set ps then None else procs ?w q\<rparr>)"
    using Cons.prems(1,2) sts by (intro Cons.IH) simp_all
  moreover have "?w\<lparr>procs := \<lambda>q. if q \<in> set ps then None else procs ?w q\<rparr> = w\<lparr>procs := \<lambda>q. if q \<in> set (p # ps) then None else procs w q\<rparr>"
    by (simp add: fun_eq_iff)
  ultimately show ?case using p sts by (simp add: sys_waitpid_def)
qed simp

text \<open>\<open>join_all\<close> collects every worker: once all children have ended, it returns their wait statuses in the order
  of the shards and removes them; a second call throws.\<close>

theorem join_all_collects:
  assumes "os_ok self w0" "distinct shard_ids" "spawn_run self shard_ids w0 s" "parent s = Ready"
    "\<forall>p \<in> set (child_pids (workers s)). \<not> is_live (os s) p"
  shows "\<exists>statuses w. join_all (workers s) (os s) = Some (Inr statuses, w) \<and> length statuses = length shard_ids
    \<and> (\<forall>j < length shard_ids. procs (os s) (child_pids (workers s) ! j) = Some (Zombie (statuses ! j)))
    \<and> (shard_ids \<noteq> [] \<longrightarrow> join_all (workers s) w = Some (Inl (RuntimeError ''process_spawn: waitpid failed''), w))"
proof -
  let ?ps = "child_pids (workers s)"
  have inv: "spawn_inv self shard_ids w0 s" using spawn_run_inv [OF assms(3,1,2)] .
  have len: "length ?ps = length shard_ids" using inv assms(4) by (simp add: spawn_inv_def pairs_ok_def)
  have ch: "\<exists>c. children s (?ps ! j) = Some (j, c)" if "j < length ?ps" for j using inv that by (auto simp: spawn_inv_def children_ok_def)
  then have dist: "distinct ?ps" unfolding distinct_conv_nth by (metis Pair_inject option.inject)
  have "\<exists>st. procs (os s) (?ps ! j) = Some (Zombie st)" if j: "j < length ?ps" for j
  proof -
    obtain c where "children s (?ps ! j) = Some (j, c)" using ch [OF j] by blast
    then have "procs (os s) (?ps ! j) \<noteq> None" using tables_okD(4) inv unfolding spawn_inv_def by blast
    moreover have "\<not> is_live (os s) (?ps ! j)" using assms(5) j by simp
    ultimately show ?thesis by (auto simp: is_live_def split: process.splits)
  qed
  then obtain f where f: "\<forall>j < length ?ps. procs (os s) (?ps ! j) = Some (Zombie (f j))" by metis
  let ?w = "(os s)\<lparr>procs := \<lambda>p. if p \<in> set ?ps then None else procs (os s) p\<rparr>"
  have join: "join_all (workers s) (os s) = Some (Inr (map f [0..<length ?ps]), ?w)"
    using join_children_zombies [OF dist, of "map f [0..<length ?ps]" "os s" "[]"] f by (simp add: join_all_def)
  have "join_all (workers s) ?w = Some (Inl (RuntimeError ''process_spawn: waitpid failed''), ?w)" if "shard_ids \<noteq> []"
    using that len by (cases ?ps) (auto simp: join_all_def sys_waitpid_def)
  then show ?thesis using join f len by (intro exI [of _ "map f [0..<length ?ps]"] exI [of _ ?w]) simp
qed

theorem join_all_collects_witness:
  "\<exists>w. join_all (workers demo_serving) (sys_exit 8 (child_exit_code (Inr 3)) (os demo_serving)) = Some (Inr [768], w)"
proof -
  let ?s = "demo_serving\<lparr>os := sys_exit 8 (child_exit_code (Inr 3)) (os demo_serving)\<rparr>"
  have run: "spawn_run 7 [5] (demo_os []) ?s" using demo_serving_eq(2) by (intro spawn_run.ends [OF demo_serving_run, of 8 0]) simp
  have z: "procs (os ?s) 8 = Some (Zombie 768)" by (simp add: sys_exit_def child_exit_code_def demo_serving_eq)
  obtain statuses w where j: "join_all (workers ?s) (os ?s) = Some (Inr statuses, w)" "length statuses = 1"
    "\<forall>j < 1. procs (os ?s) (child_pids (workers ?s) ! j) = Some (Zombie (statuses ! j))"
    using join_all_collects [OF demo_os_ok _ run] z by (auto simp: demo_serving_eq is_live_def)
  then have "statuses = [768]" using z by (cases statuses) (auto simp: demo_serving_eq)
  then show ?thesis using j(1) by auto
qed

end
