(* ===== verification/Chaos.thy ===== *)
theory Chaos
  imports Router_Delivery Spawn_Properties
begin

text \<open>
  Fault injection (\<open>src/orchestration/chaos.hpp\<close>): the transport that delays, and the script that kills worker
  processes in the background. Time is counted in milliseconds; a sleep moves it forward. The random number
  generator is the argument \<open>draw\<close>, a draw from an interval with the generator's next state.
\<close>

section \<open>Model\<close>

subsection \<open>DelayInjectingTransport\<close>

record DelayInjectingTransport =
  send_delay :: int
  receive_delay :: int

definition new_DelayInjectingTransport :: "int \<Rightarrow> int \<Rightarrow> DelayInjectingTransport" where
  "new_DelayInjectingTransport sd rd = \<lparr>send_delay = sd, receive_delay = rd\<rparr>"

definition set_send_delay :: "int \<Rightarrow> DelayInjectingTransport \<Rightarrow> DelayInjectingTransport" where
  "set_send_delay d t = t\<lparr>send_delay := d\<rparr>"

definition set_receive_delay :: "int \<Rightarrow> DelayInjectingTransport \<Rightarrow> DelayInjectingTransport" where
  "set_receive_delay d t = t\<lparr>receive_delay := d\<rparr>"

text \<open>\<open>inner\<close> is the operation of the wrapped transport on its world; the clock is beside it.\<close>

definition delay_send :: "DelayInjectingTransport \<Rightarrow> ('w \<Rightarrow> 'r \<times> 'w) \<Rightarrow> int \<times> 'w \<Rightarrow> 'r \<times> int \<times> 'w" where
  "delay_send t inner = (\<lambda>(now, w).
     let now' = (if send_delay t > 0 then now + send_delay t else now);
         (r, w') = inner w
     in (r, now', w'))"

definition delay_receive :: "DelayInjectingTransport \<Rightarrow> ('w \<Rightarrow> 'r \<times> 'w) \<Rightarrow> int \<times> 'w \<Rightarrow> 'r \<times> int \<times> 'w" where
  "delay_receive t inner = (\<lambda>(now, w).
     let now' = (if receive_delay t > 0 then now + receive_delay t else now);
         (r, w') = inner w
     in (r, now', w'))"

text \<open>The transports of a router some of whose shards are wrapped.\<close>

definition wrapped_send :: "(u32 \<rightharpoonup> DelayInjectingTransport) \<Rightarrow> 'w send_op \<Rightarrow> (int \<times> 'w) send_op" where
  "wrapped_send ds tsend s m = (case ds s of
      Some t \<Rightarrow> delay_send t (tsend s m)
    | None \<Rightarrow> (\<lambda>(now, w). let (r, w') = tsend s m w in (r, now, w')))"

definition wrapped_receive :: "(u32 \<rightharpoonup> DelayInjectingTransport) \<Rightarrow> 'w receive_op \<Rightarrow> (int \<times> 'w) receive_op" where
  "wrapped_receive ds treceive s = (case ds s of
      Some t \<Rightarrow> delay_receive t (treceive s)
    | None \<Rightarrow> (\<lambda>(now, w). let (r, w') = treceive s w in (r, now, w')))"

subsection \<open>ChaosScript\<close>

text \<open>A thread sleeps until its deadline, kills its process and is then finished.\<close>

record KillThread =
  target :: pid
  deadline :: int
  finished :: bool

type_synonym ChaosScript = "KillThread list"

definition schedule_kill_after :: "pid \<Rightarrow> int \<Rightarrow> int \<Rightarrow> ChaosScript \<Rightarrow> ChaosScript" where
  "schedule_kill_after p delay now threads =
     threads @ [\<lparr>target = p, deadline = (if delay > 0 then now + delay else now), finished = False\<rparr>]"

definition schedule_kill ::
    "('g \<Rightarrow> int \<Rightarrow> int \<Rightarrow> int \<times> 'g) \<Rightarrow> SpawnedWorkers \<Rightarrow> u32 \<Rightarrow> int \<Rightarrow> int \<Rightarrow> 'g \<times> ChaosScript
       \<Rightarrow> cpp_exn + 'g \<times> ChaosScript" where
  "schedule_kill draw ws shard_id window now = (\<lambda>(rng, threads).
     case shard_pids ws shard_id of
       None \<Rightarrow> Inl (RuntimeError (''ChaosScript: no known pid for shard_id '' @ std_to_string shard_id))
     | Some p \<Rightarrow>
         (let (delay, rng') = (if window \<le> 0 then (0, rng) else draw rng 0 window)
          in Inr (rng', schedule_kill_after p delay now threads)))"

text \<open>The rest of one thread; \<open>join_all\<close> waits for each in turn and clears the list.\<close>

definition run_thread :: "KillThread \<Rightarrow> int \<times> Os \<Rightarrow> int \<times> Os" where
  "run_thread t = (\<lambda>(now, w). if finished t then (now, w) else (max now (deadline t), sys_kill (target t) w))"

definition chaos_join_all :: "ChaosScript \<Rightarrow> int \<times> Os \<Rightarrow> ChaosScript \<times> int \<times> Os" where
  "chaos_join_all threads st = ([], foldl (\<lambda>st t. run_thread t st) st threads)"

record ChaosState =
  now :: int
  threads :: ChaosScript
  chaos_os :: Os

text \<open>The threads in the background: time passes, and a thread whose deadline has come kills.\<close>

inductive chaos_step :: "ChaosState \<Rightarrow> ChaosState \<Rightarrow> bool" where
  passes: "0 \<le> d \<Longrightarrow> chaos_step c (c\<lparr>now := now c + d\<rparr>)"
| fires: "i < length (threads c) \<Longrightarrow> \<not> finished (threads c ! i) \<Longrightarrow> deadline (threads c ! i) \<le> now c \<Longrightarrow>
    chaos_step c (c\<lparr>threads := (threads c)[i := (threads c ! i)\<lparr>finished := True\<rparr>],
                    chaos_os := sys_kill (target (threads c ! i)) (chaos_os c)\<rparr>)"

section \<open>Transports seen through a projection\<close>

text \<open>Two clusters of transports whose operations agree up to a projection of the world cannot be told apart by the
  router.\<close>

locale transport_map =
  fixes tsend1 :: "'v send_op" and treceive1 :: "'v receive_op"
    and tsend2 :: "'w send_op" and treceive2 :: "'w receive_op" and proj :: "'v \<Rightarrow> 'w"
  assumes send_map: "tsend2 s m (proj v) = map_prod id proj (tsend1 s m v)"
    and receive_map: "treceive2 s (proj v) = map_prod id proj (treceive1 s v)"
begin

lemma shard_send_map: "shard_send tsend2 rt s m (proj v) = map_prod id proj (shard_send tsend1 rt s m v)"
  by (simp add: shard_send_def send_map)

lemma shard_receive_map: "shard_receive treceive2 rt s (proj v) = map_prod id proj (shard_receive treceive1 rt s v)"
  by (simp add: shard_receive_def receive_map)

lemma send_groups_map: "send_groups tsend2 rt m ss (proj v) = map_prod id proj (send_groups tsend1 rt m ss v)"
  by (induction ss arbitrary: v) (auto simp: shard_send_map split: prod.splits sum.splits)

lemma gather_map: "gather treceive2 rt ss flat (proj v) = map_prod id proj (gather treceive1 rt ss flat v)"
  by (induction ss arbitrary: v flat) (auto simp: shard_receive_map split: prod.splits sum.splits)

lemma route_batch_map: "route_batch tsend2 treceive2 ord rt ts (proj v) = map_prod id proj (route_batch tsend1 treceive1 ord rt ts v)"
  by (auto simp: route_batch_def send_groups_map gather_map Let_def split: prod.splits sum.splits)

lemma exchange_map: "exchange tsend2 treceive2 rt s grp (proj v) = map_prod id proj (exchange tsend1 treceive1 rt s grp v)"
  by (auto simp: exchange_def shard_send_map shard_receive_map split: prod.splits sum.splits)

abbreviation proj_state :: "Router \<times> RoutedResult list \<times> bool list \<times> 'v \<Rightarrow> Router \<times> RoutedResult list \<times> bool list \<times> 'w" where
  "proj_state \<equiv> map_prod id (map_prod id (map_prod id proj))"

lemma tolerant_group_map:
  "tolerant_group tsend2 treceive2 junk ts eff s is (rt, ordered, filled, proj v)
     = map_sum id proj_state (tolerant_group tsend1 treceive1 junk ts eff s is (rt, ordered, filled, v))"
  by (auto simp: tolerant_group_def exchange_map split: prod.splits sum.splits)

lemma tolerant_loop_map:
  "tolerant_loop tsend2 treceive2 junk ts eff m ss (rt, ordered, filled, proj v)
     = map_sum id proj_state (tolerant_loop tsend1 treceive1 junk ts eff m ss (rt, ordered, filled, v))"
proof (induction ss arbitrary: rt ordered filled v)
  case (Cons s ss)
  show ?case
  proof (cases "tolerant_group tsend1 treceive1 junk ts eff s (the (map_of m s)) (rt, ordered, filled, v)")
    case (Inr st)
    then show ?thesis using Cons.IH by (cases st) (simp add: tolerant_group_map)
  qed (simp add: tolerant_group_map)
qed simp

lemma route_batch_tolerant_map:
  "route_batch_tolerant tsend2 treceive2 ord junk rt ts (proj v)
     = map_sum id (map_prod id (map_prod id proj)) (route_batch_tolerant tsend1 treceive1 ord junk rt ts v)"
  by (auto simp: route_batch_tolerant_def tolerant_loop_map Let_def split: prod.splits sum.splits)

end

interpretation delayed: transport_map "wrapped_send ds tsend" "wrapped_receive ds treceive" tsend treceive snd
  for ds and tsend :: "'w send_op" and treceive :: "'w receive_op"
  by unfold_locales (auto simp: wrapped_send_def wrapped_receive_def delay_send_def delay_receive_def Let_def
      split: option.split prod.split)

text \<open>An operation of the router moves the world only by operations of the transports.\<close>

locale transport_order =
  fixes tsend :: "'w send_op" and treceive :: "'w receive_op" and le :: "'w \<Rightarrow> 'w \<Rightarrow> bool"
  assumes le_refl: "le w w" and le_trans: "le w w1 \<Longrightarrow> le w1 w2 \<Longrightarrow> le w w2"
    and send_le: "le w (snd (tsend s m w))" and receive_le: "le w (snd (treceive s w))"
begin

lemma shard_le: "le w (snd (shard_send tsend rt s m w))" "le w (snd (shard_receive treceive rt s w))"
  by (simp_all add: shard_send_def shard_receive_def le_refl send_le receive_le)

lemma send_groups_le: "le w (snd (send_groups tsend rt m ss w))"
proof (induction ss arbitrary: w)
  case (Cons s ss)
  then show ?case using shard_le(1) [of w rt s "encode_token_batch (the (map_of m s))"] le_trans
    by (auto split: prod.splits sum.splits)
qed (simp add: le_refl)

lemma gather_le: "le w (snd (gather treceive rt ss flat w))"
proof (induction ss arbitrary: w flat)
  case (Cons s ss)
  then show ?case using shard_le(2) [of w rt s] le_trans by (auto split: prod.splits sum.splits)
qed (simp add: le_refl)

lemma route_batch_le: "le w (snd (route_batch tsend treceive ord rt ts w))"
proof -
  have "le w (snd (gather treceive rt ss [] (snd (send_groups tsend rt m ss w))))" for m ss
    using send_groups_le gather_le le_trans by blast
  then show ?thesis using send_groups_le le_refl
    by (auto simp: route_batch_def Let_def split: prod.splits sum.splits) (metis snd_conv)+
qed

end

interpretation delayed_time: transport_order "wrapped_send ds tsend" "wrapped_receive ds treceive" "\<lambda>a b. fst a \<le> fst b"
  for ds and tsend :: "'w send_op" and treceive :: "'w receive_op"
  by unfold_locales (auto simp: wrapped_send_def wrapped_receive_def delay_send_def delay_receive_def Let_def
      split: option.split prod.split)

section \<open>Killing\<close>

lemma kill_procs: "procs (sys_kill p w) q = (if q = p then (case procs w p of Some (Live _ _) \<Rightarrow> Some (Zombie 9) | x \<Rightarrow> x) else procs w q)"
  by (simp add: sys_kill_def)

definition killed :: "process option \<Rightarrow> process option" where
  "killed q = (case q of Some (Live _ _) \<Rightarrow> Some (Zombie 9) | x \<Rightarrow> x)"

lemma killed_idem [simp]: "killed (killed q) = killed q"
  by (auto simp: killed_def split: option.splits process.splits)

lemma kill_killed: "procs (sys_kill p w) q = (if q = p then killed (procs w p) else procs w q)"
  by (simp add: kill_procs killed_def)

text \<open>The state of the background work: exactly the processes of the finished threads have been killed, none before
  its deadline.\<close>

definition chaos_inv :: "ChaosState \<Rightarrow> ChaosState \<Rightarrow> bool" where
  "chaos_inv c0 c \<longleftrightarrow> now c0 \<le> now c
     \<and> map (\<lambda>t. (target t, deadline t)) (threads c) = map (\<lambda>t. (target t, deadline t)) (threads c0)
     \<and> (\<forall>t \<in> set (threads c). finished t \<longrightarrow> deadline t \<le> now c)
     \<and> (\<forall>p. procs (chaos_os c) p = (if \<exists>t \<in> set (threads c). finished t \<and> target t = p then killed (procs (chaos_os c0) p) else procs (chaos_os c0) p))"

lemma chaos_inv_step:
  assumes "chaos_inv c0 c" "chaos_step c c'"
  shows "chaos_inv c0 c'"
  using assms(2)
proof cases
  case (passes d)
  then show ?thesis using assms(1) by (fastforce simp: chaos_inv_def)
next
  case (fires i)
  let ?ts = "threads c" and ?t = "(threads c ! i)\<lparr>finished := True\<rparr>"
  have same: "map (\<lambda>t. (target t, deadline t)) (?ts[i := ?t]) = map (\<lambda>t. (target t, deadline t)) ?ts"
    using fires(2) by (simp add: map_update list_update_same_conv)
  have ex: "(\<exists>t \<in> set (?ts[i := ?t]). finished t \<and> target t = p) \<longleftrightarrow> (\<exists>t \<in> set ?ts. finished t \<and> target t = p) \<or> p = target (?ts ! i)" for p
  proof -
    have "(\<exists>t \<in> set (?ts[i := ?t]). finished t \<and> target t = p) \<longleftrightarrow> (\<exists>k < length ?ts. finished (?ts[i := ?t] ! k) \<and> target (?ts[i := ?t] ! k) = p)"
      by (metis in_set_conv_nth length_list_update)
    also have "\<dots> \<longleftrightarrow> (\<exists>k < length ?ts. finished (?ts ! k) \<and> target (?ts ! k) = p) \<or> p = target (?ts ! i)"
      using fires(2,3) by (auto simp: nth_list_update)
    finally show ?thesis by (metis in_set_conv_nth)
  qed
  have due: "deadline t \<le> now c" if "t \<in> set (?ts[i := ?t])" "finished t" for t
    using that fires(2,4) assms(1) set_update_subset_insert [of ?ts i ?t] by (auto simp: chaos_inv_def)
  have "procs (sys_kill (target (?ts ! i)) (chaos_os c)) p
      = (if \<exists>t \<in> set (?ts[i := ?t]). finished t \<and> target t = p then killed (procs (chaos_os c0) p) else procs (chaos_os c0) p)" for p
    unfolding ex kill_killed using assms(1) by (auto simp: chaos_inv_def)
  then show ?thesis using assms(1) same due fires(1) by (simp add: chaos_inv_def)
qed

lemma chaos_inv_steps: "chaos_step\<^sup>*\<^sup>* c0 c \<Longrightarrow> \<forall>t \<in> set (threads c0). \<not> finished t \<Longrightarrow> chaos_inv c0 c"
proof (induction rule: rtranclp_induct)
  case base
  then show ?case by (simp add: chaos_inv_def)
next
  case (step y z)
  then show ?case using chaos_inv_step by blast
qed

lemma join_threads:
  "let (t', w') = foldl (\<lambda>st t. run_thread t st) (t, w) ths
   in t \<le> t' \<and> (\<forall>th \<in> set ths. \<not> finished th \<longrightarrow> deadline th \<le> t')
      \<and> (\<forall>p. procs w' p = (if \<exists>th \<in> set ths. \<not> finished th \<and> target th = p then killed (procs w p) else procs w p))"
proof (induction ths arbitrary: t w)
  case (Cons th ths)
  show ?case
  proof (cases "finished th")
    case True
    then show ?thesis using Cons [of t w] by (simp add: run_thread_def Let_def split: prod.splits)
  next
    case False
    then show ?thesis using Cons [of "max t (deadline th)" "sys_kill (target th) w"]
      by (auto simp: run_thread_def Let_def kill_killed split: prod.splits)
  qed
qed simp

section \<open>Properties\<close>

text \<open>A delay changes nothing but the time: with any of its transports wrapped in a
  \<open>DelayInjectingTransport\<close>, the router returns the same results or exception, leaves the wrapped transports
  and itself in the same state, and time does not run backwards.\<close>

theorem delay_is_transparent:
  "map_prod id snd (route_batch (wrapped_send ds tsend) (wrapped_receive ds treceive) ord rt ts (t, w)) = route_batch tsend treceive ord rt ts w
   \<and> t \<le> fst (snd (route_batch (wrapped_send ds tsend) (wrapped_receive ds treceive) ord rt ts (t, w)))
   \<and> map_sum id (map_prod id (map_prod id snd)) (route_batch_tolerant (wrapped_send ds tsend) (wrapped_receive ds treceive) ord junk rt ts (t, w))
       = route_batch_tolerant tsend treceive ord junk rt ts w"
  using delayed.route_batch_map [of tsend treceive ord rt ts "(t, w)" ds] delayed.route_batch_tolerant_map [of tsend treceive ord junk rt ts "(t, w)" ds]
    delayed_time.route_batch_le [of "(t, w)" ds tsend treceive ord rt ts] by simp

lemma image_pair_eq:
  assumes "(\<lambda>t. (f t, g t)) ` A = (\<lambda>t. (f t, g t)) ` B" "t \<in> A"
  shows "\<exists>u \<in> B. f u = f t \<and> g u = g t"
proof -
  have "(f t, g t) \<in> (\<lambda>t. (f t, g t)) ` B" using assms by blast
  then show ?thesis by auto
qed

text \<open>Scheduled kills happen, once due and not before: however the background threads interleave, a process none of
  whose kills is due is untouched, and when \<open>join_all\<close> (or the destructor) returns, exactly the scheduled
  processes have been killed, each deadline has passed and no thread is left.\<close>

theorem scheduled_kills_take_effect:
  assumes "chaos_step\<^sup>*\<^sup>* c c'" "\<forall>t \<in> set (threads c). \<not> finished t"
    "chaos_join_all (threads c') (now c', chaos_os c') = (ths, t', w')"
  shows "(\<forall>p. (\<forall>t \<in> set (threads c). target t = p \<longrightarrow> now c' < deadline t) \<longrightarrow> procs (chaos_os c') p = procs (chaos_os c) p)
    \<and> ths = [] \<and> (\<forall>t \<in> set (threads c). deadline t \<le> t')
    \<and> (\<forall>p. procs w' p = (if p \<in> target ` set (threads c) then killed (procs (chaos_os c) p) else procs (chaos_os c) p))"
proof -
  have inv: "chaos_inv c c'" using chaos_inv_steps assms(1,2) by blast
  then have "set (map (\<lambda>t. (target t, deadline t)) (threads c')) = set (map (\<lambda>t. (target t, deadline t)) (threads c))" by (simp add: chaos_inv_def)
  then have tgt: "(\<lambda>t. (target t, deadline t)) ` set (threads c') = (\<lambda>t. (target t, deadline t)) ` set (threads c)" by simp
  have to: "\<exists>u \<in> set (threads c'). target u = target t \<and> deadline u = deadline t" if "t \<in> set (threads c)" for t
    using image_pair_eq [OF tgt [symmetric] that] .
  have orig: "\<exists>u \<in> set (threads c). target u = target t \<and> deadline u = deadline t" if "t \<in> set (threads c')" for t
    using image_pair_eq [OF tgt that] .
  have j: "ths = []" "now c' \<le> t'" "\<forall>th \<in> set (threads c'). \<not> finished th \<longrightarrow> deadline th \<le> t'"
    "\<forall>p. procs w' p = (if \<exists>th \<in> set (threads c'). \<not> finished th \<and> target th = p then killed (procs (chaos_os c') p) else procs (chaos_os c') p)"
    using assms(3) join_threads [where t = "now c'" and w = "chaos_os c'" and ths = "threads c'"] by (auto simp: chaos_join_all_def Let_def)
  have due: "deadline th \<le> t'" if "th \<in> set (threads c')" for th
    using that j(2,3) inv by (cases "finished th") (auto simp: chaos_inv_def intro: order_trans)
  have os: "procs (chaos_os c') p = (if \<exists>t \<in> set (threads c'). finished t \<and> target t = p then killed (procs (chaos_os c) p) else procs (chaos_os c) p)" for p
    using inv by (simp add: chaos_inv_def)
  have early: "procs (chaos_os c') p = procs (chaos_os c) p" if "\<forall>t \<in> set (threads c). target t = p \<longrightarrow> now c' < deadline t" for p
  proof -
    have "\<not> (finished t \<and> target t = p)" if "t \<in> set (threads c')" for t
      using orig [OF that] \<open>\<forall>t \<in> set (threads c). target t = p \<longrightarrow> now c' < deadline t\<close> inv that by (fastforce simp: chaos_inv_def)
    then show ?thesis using os by auto
  qed
  have "procs w' p = (if p \<in> target ` set (threads c) then killed (procs (chaos_os c) p) else procs (chaos_os c) p)" for p
  proof -
    have "target ` set (threads c') = target ` set (threads c)" using arg_cong [OF tgt, of "image fst"] by (simp add: image_image)
    then have "p \<in> target ` set (threads c) \<longleftrightarrow> p \<in> target ` set (threads c')" by (simp only:)
    then have "p \<in> target ` set (threads c) \<longleftrightarrow> (\<exists>th \<in> set (threads c'). target th = p)" by (simp only: image_iff eq_commute [of p])
    then show ?thesis using j(4) os [of p] by auto
  qed
  then show ?thesis using early j(1) due to by metis
qed

definition demo_chaos :: ChaosState where
  "demo_chaos = \<lparr>now = 10, threads = schedule_kill_after 7 5 10 [], chaos_os = demo_os []\<rparr>"

theorem scheduled_kills_take_effect_witness:
  "procs (snd (snd (chaos_join_all (threads demo_chaos) (now demo_chaos, chaos_os demo_chaos)))) 7 = Some (Zombie 9)"
proof -
  obtain ths t' w' where j: "chaos_join_all (threads demo_chaos) (now demo_chaos, chaos_os demo_chaos) = (ths, t', w')" by (metis prod.exhaust)
  have "\<forall>t \<in> set (threads demo_chaos). \<not> finished t" by (simp add: demo_chaos_def schedule_kill_after_def)
  from scheduled_kills_take_effect [OF rtranclp.rtrancl_refl this j]
  have "procs w' 7 = killed (procs (demo_os []) 7)" by (simp add: demo_chaos_def schedule_kill_after_def)
  then show ?thesis using j by (simp add: killed_def demo_os_def)
qed

text \<open>C21. A chaos kill hits its shard alone: for a spawned cluster that has settled, scheduling the kill of a shard
  succeeds and, once joined, the router sees the end of that shard's stream, while every other shard's ends
  are held as before. The delay lies in the window.\<close>

theorem chaos_kill_hits_its_shard:
  assumes "os_ok self w0" "distinct shard_ids" "spawn_run self shard_ids w0 s" "parent s = Ready" "settled s" "j < length shard_ids"
    "\<forall>g a b. a \<le> b \<longrightarrow> a \<le> fst (draw g a b) \<and> fst (draw g a b) \<le> b"
  shows "\<exists>rng' th w' t'. schedule_kill draw (workers s) (shard_ids ! j) window t (rng, []) = Inr (rng', [th])
    \<and> chaos_join_all [th] (t, os s) = ([], t', w') \<and> t \<le> deadline th \<and> deadline th \<le> t + max 0 window
    \<and> eof_visible w' (End (next_pair w0 + j) False)
    \<and> (\<forall>i < length shard_ids. i \<noteq> j \<longrightarrow> (\<forall>b. holders w' (End (next_pair w0 + i) b) = holders (os s) (End (next_pair w0 + i) b)))"
proof -
  let ?p = "child_pids (workers s) ! j" and ?t = "s\<lparr>os := sys_kill (child_pids (workers s) ! j) (os s)\<rparr>"
  note iso = holders_settled [OF assms(1-5)]
  have inv: "spawn_inv self shard_ids w0 s" using spawn_run_inv [OF assms(3,1,2)] .
  have len: "length (child_pids (workers s)) = length shard_ids" using inv assms(4) by (simp add: spawn_inv_def pairs_ok_def)
  have ch: "\<exists>c. children s (child_pids (workers s) ! i) = Some (i, c)" if "i < length shard_ids" for i
    using inv that len by (auto simp: spawn_inv_def children_ok_def)
  have ne: "?p \<noteq> self" using ch [OF assms(6)] inv tables_okD(4) unfolding spawn_inv_def by blast
  have run: "spawn_run self shard_ids w0 ?t" using spawn_run.killed [OF assms(3) ne] .
  have live: "is_live (os ?t) q \<longleftrightarrow> is_live (os s) q \<and> q \<noteq> ?p" for q
    by (auto simp: is_live_def kill_procs split: option.splits process.splits)
  have "settled ?t" using assms(5) live by (auto simp: settled_def)
  note iso' = holders_settled [OF assms(1,2) run, simplified, OF assms(4) this [simplified]]
  have dead: "holders (os ?t) (End (next_pair w0 + j) True) = {}" using iso' [OF assms(6)] live by auto
  have others: "holders (os ?t) (End (next_pair w0 + i) b) = holders (os s) (End (next_pair w0 + i) b)" if i: "i < length shard_ids" "i \<noteq> j" for i b
  proof -
    have "child_pids (workers s) ! i \<noteq> ?p" using ch [OF i(1)] ch [OF assms(6)] i(2) by (metis Pair_inject option.inject)
    then show ?thesis using iso [OF i(1)] iso' [OF i(1)] live by (cases b) auto
  qed
  define d where "d = (if window \<le> 0 then 0 else fst (draw rng 0 window))"
  have d: "0 \<le> d" "d \<le> max 0 window" using assms(7) [rule_format, of 0 window rng] by (auto simp: d_def)
  define th where "th = \<lparr>target = ?p, deadline = (if d > 0 then t + d else t), finished = False\<rparr>"
  have sched: "schedule_kill draw (workers s) (shard_ids ! j) window t (rng, []) = Inr (if window \<le> 0 then rng else snd (draw rng 0 window), [th])"
    using iso [OF assms(6)] by (simp add: schedule_kill_def schedule_kill_after_def th_def d_def split: prod.split)
  have join: "chaos_join_all [th] (t, os s) = ([], max t (deadline th), os ?t)" by (simp add: chaos_join_all_def run_thread_def th_def)
  have "t \<le> deadline th" "deadline th \<le> t + max 0 window" using d by (auto simp: th_def)
  then show ?thesis using sched join dead others by (auto simp: eof_visible_def)
qed

theorem chaos_kill_hits_its_shard_witness:
  "\<exists>rng' th w' t'. schedule_kill (\<lambda>g a b. (b, g)) (workers demo_serving) 5 20 100 ((), []) = Inr (rng', [th])
     \<and> chaos_join_all [th] (100, os demo_serving) = ([], t', w') \<and> eof_visible w' (End 1 False)"
proof -
  have "settled demo_serving" by (simp add: settled_def demo_serving_eq)
  moreover have "next_pair (demo_os []) = 1" by (simp add: demo_os_def)
  ultimately show ?thesis
    using chaos_kill_hits_its_shard [OF demo_os_ok _ demo_serving_run demo_serving_eq(1), of 0 "\<lambda>g a b. (b, g)" 20 100 "()"] by auto
qed

lemma schedule_kill_unknown:
  "shard_pids ws shard = None \<Longrightarrow> \<exists>msg. schedule_kill draw ws shard window t st = Inl (RuntimeError msg)"
  by (cases st) (simp add: schedule_kill_def)

end
