(* ===== verification/Sequence.thy ===== *)
theory Sequence
  imports Prelude
begin

text \<open>
  One in-flight generation request and its phase machine (\<open>src/core/sequence.hpp\<close>).
\<close>

datatype SequencePhase = PREFILL | DECODE | FINISHED

definition to_string :: "SequencePhase \<Rightarrow> string" where
  "to_string p = (case p of PREFILL \<Rightarrow> ''PREFILL'' | DECODE \<Rightarrow> ''DECODE'' | FINISHED \<Rightarrow> ''FINISHED'')"

text \<open>Time points of \<open>steady_clock\<close> are integers (nanoseconds since its epoch); \<open>owned_blocks\<close>
  holds the C++ \<open>int\<close> block ids, a field no operation of the program writes.\<close>

record Sequence =
  sid :: u64
  phase :: SequencePhase
  prompt_tokens :: "u32 list"
  generated_tokens :: "u32 list"
  max_new_tokens :: u32
  prefill_cursor :: nat
  owned_blocks :: "u32 list"
  admitted_at :: int
  last_decode_at :: int

definition new_Sequence :: "int \<Rightarrow> u64 \<Rightarrow> u32 list \<Rightarrow> u32 \<Rightarrow> Sequence" where
  "new_Sequence now seq_id prompt max_new =
     \<lparr>sid = seq_id, phase = PREFILL, prompt_tokens = prompt, generated_tokens = [],
      max_new_tokens = max_new, prefill_cursor = 0, owned_blocks = [],
      admitted_at = now, last_decode_at = 0\<rparr>"

definition prefill_complete :: "Sequence \<Rightarrow> bool" where
  "prefill_complete s \<longleftrightarrow> prefill_cursor s \<ge> length (prompt_tokens s)"

definition total_tokens :: "Sequence \<Rightarrow> nat" where
  "total_tokens s = length (prompt_tokens s) + length (generated_tokens s)"

definition phase_index :: "SequencePhase \<Rightarrow> nat" where
  "phase_index p = (case p of PREFILL \<Rightarrow> 0 | DECODE \<Rightarrow> 1 | FINISHED \<Rightarrow> 2)"

definition legal :: "bool list list" where
  "legal = [[True, True, True], [False, True, True], [False, False, True]]"

definition transition_to :: "Sequence \<Rightarrow> SequencePhase \<Rightarrow> cpp_exn + Sequence" where
  "transition_to s next =
     (if \<not> legal ! phase_index (phase s) ! phase_index next
      then Inl (LogicError (''illegal sequence transition: '' @ to_string (phase s)
                  @ '' -> '' @ to_string next))
      else Inr (s\<lparr>phase := next\<rparr>))"

section \<open>The phase machine\<close>

text \<open>The order of the phases; the class instance lets the library's order reasoning apply.\<close>

instantiation SequencePhase :: linorder
begin

definition less_eq_SequencePhase :: "SequencePhase \<Rightarrow> SequencePhase \<Rightarrow> bool" where
  "p \<le> q \<longleftrightarrow> phase_index p \<le> phase_index q"

definition less_SequencePhase :: "SequencePhase \<Rightarrow> SequencePhase \<Rightarrow> bool" where
  "p < q \<longleftrightarrow> phase_index p < phase_index q"

instance
proof
  fix p q :: SequencePhase
  show "p \<le> q \<Longrightarrow> q \<le> p \<Longrightarrow> p = q"
    by (cases p; cases q) (simp_all add: less_eq_SequencePhase_def phase_index_def)
qed (auto simp: less_eq_SequencePhase_def less_SequencePhase_def)

end

lemma legal_iff: "legal ! phase_index p ! phase_index q \<longleftrightarrow> p \<le> q"
  by (cases p; cases q) (simp_all add: legal_def phase_index_def less_eq_SequencePhase_def)

lemma phase_le_simps [simp]:
  "PREFILL \<le> p" "p \<le> FINISHED" "\<not> DECODE \<le> PREFILL" "\<not> FINISHED \<le> DECODE" "\<not> FINISHED \<le> PREFILL"
  by (cases p; simp add: less_eq_SequencePhase_def phase_index_def)+

lemma transition_to_ok [simp]: "phase s \<le> next \<Longrightarrow> transition_to s next = Inr (s\<lparr>phase := next\<rparr>)"
  by (simp add: transition_to_def legal_iff)

text \<open>A transition succeeds exactly when it does not go backwards in the order PREFILL, DECODE,
  FINISHED; it then changes the phase only, and a refused one reports both phases.\<close>

theorem transition_to_iff_forward:
  "transition_to s next =
     (if phase s \<le> next then Inr (s\<lparr>phase := next\<rparr>)
      else Inl (LogicError (''illegal sequence transition: '' @ to_string (phase s)
                  @ '' -> '' @ to_string next)))"
  by (simp add: transition_to_def legal_iff)

end
