(* ===== verification/Ingress.thy ===== *)
theory Ingress
  imports Sequence Ring_Buffer Cpp_Numbers
begin

text \<open>
  The HTTP ingress (\<open>src/api/ingress_server.{hpp,cpp}\<close>): the status table and the three handlers. The
  HTTP server and the JSON library are not part of the program: a request is its body text, a reply is a
  status code, the fields of the JSON object (or the text) set as content, and the media type; the JSON
  functions the handlers call are the fields of the parameter \<open>L\<close>, about which nothing is assumed.

  The handler of \<open>/generate\<close> touches shared state at three points (the id counter, the queue, the status
  table); these are the functions \<open>generate_fetch\<close>, \<open>generate_push\<close> and \<open>generate_finish\<close>, so that the engine
  model can interleave handlers, and \<open>handle_generate\<close> runs them in sequence.
\<close>

section \<open>Status table\<close>

record Status =
  status_phase :: SequencePhase
  generated_count :: nat

type_synonym SequenceStatusTable = "u64 \<rightharpoonup> Status"

definition upsert :: "SequenceStatusTable \<Rightarrow> u64 \<Rightarrow> SequencePhase \<Rightarrow> nat \<Rightarrow> SequenceStatusTable" where
  "upsert tab i p n = tab(i \<mapsto> \<lparr>status_phase = p, generated_count = n\<rparr>)"

definition get :: "SequenceStatusTable \<Rightarrow> u64 \<Rightarrow> Status option" where
  "get tab i = tab i"

section \<open>Requests and replies\<close>

text \<open>What the handlers use of the JSON library: \<open>parse\<close> (\<open>Inl\<close> is \<open>e.what()\<close>), \<open>contains\<close>,
  \<open>operator[]\<close>, \<open>is_array\<close>, iteration, \<open>get<uint32_t>\<close> and \<open>value(key, int)\<close>, the last two with the
  exception they may throw.\<close>

record 'j json_lib =
  parse :: "string \<Rightarrow> string + 'j"
  contains :: "'j \<Rightarrow> string \<Rightarrow> bool"
  at_key :: "'j \<Rightarrow> string \<Rightarrow> 'j"
  is_array :: "'j \<Rightarrow> bool"
  elements :: "'j \<Rightarrow> 'j list"
  get_uint32 :: "'j \<Rightarrow> cpp_exn + u32"
  value_int :: "'j \<Rightarrow> string \<Rightarrow> int \<Rightarrow> cpp_exn + int"

datatype field_value = JBool bool | JString string | JNumber nat

datatype content = Json "(string \<times> field_value) list" | Plain string

record Response =
  code :: nat
  content :: content

text \<open>A response starts with status 200.\<close>

definition ok_response :: "content \<Rightarrow> Response" where
  "ok_response c = \<lparr>code = 200, content = c\<rparr>"

record IngressServer =
  queue :: "Sequence LockFreeRingBuffer"
  status_table :: SequenceStatusTable
  next_seq_id :: u64
  stop_requested :: bool

definition kIngressQueueCapacity :: nat where
  "kIngressQueueCapacity = 4096"

text \<open>The constructor takes references to the queue, the table and the id counter.\<close>

definition new_IngressServer :: "Sequence LockFreeRingBuffer \<Rightarrow> SequenceStatusTable \<Rightarrow> u64 \<Rightarrow> IngressServer" where
  "new_IngressServer q tab i = \<lparr>queue = q, status_table = tab, next_seq_id = i, stop_requested = False\<rparr>"

definition initial_IngressServer :: IngressServer where
  "initial_IngressServer =
     new_IngressServer (new_LockFreeRingBuffer kIngressQueueCapacity (new_Sequence 0 0 [] 0)) Map.empty 1"

definition stop_IngressServer :: "IngressServer \<Rightarrow> IngressServer" where
  "stop_IngressServer srv = srv\<lparr>stop_requested := True\<rparr>"

section \<open>Handlers\<close>

definition handle_healthz :: Response where
  "handle_healthz = ok_response (Plain ''ok'')"

fun read_tokens :: "'j json_lib \<Rightarrow> 'j list \<Rightarrow> cpp_exn + u32 list" where
  "read_tokens L [] = Inr []"
| "read_tokens L (t # ts) =
     (case get_uint32 L t of
        Inl e \<Rightarrow> Inl e
      | Inr v \<Rightarrow> (case read_tokens L ts of Inl e \<Rightarrow> Inl e | Inr vs \<Rightarrow> Inr (v # vs)))"

text \<open>Reading the body: an exception that leaves the handler, a reply of status 400, or the request. The
  \<open>int\<close> that \<open>value\<close> returns is converted to \<open>uint32_t\<close>.\<close>

definition generate_parse :: "'j json_lib \<Rightarrow> string \<Rightarrow> cpp_exn + (Response + u32 list \<times> u32)" where
  "generate_parse L req_body =
     (case parse L req_body of
        Inl what \<Rightarrow>
          Inr (Inl \<lparr>code = 400,
                    content = Json [(''accepted'', JBool False), (''reason'', JString (''invalid json: '' @ what))]\<rparr>)
      | Inr body \<Rightarrow>
          if \<not> contains L body ''prompt_tokens'' \<or> \<not> is_array L (at_key L body ''prompt_tokens'')
          then Inr (Inl \<lparr>code = 400,
                         content = Json [(''accepted'', JBool False), (''reason'', JString ''missing prompt_tokens array'')]\<rparr>)
          else case read_tokens L (elements L (at_key L body ''prompt_tokens'')) of
                 Inl e \<Rightarrow> Inl e
               | Inr prompt \<Rightarrow>
                   (case value_int L body ''max_new_tokens'' 16 of
                      Inl e \<Rightarrow> Inl e
                    | Inr n \<Rightarrow> Inr (Inr (prompt, word_of_int n))))"

definition generate_fetch :: "IngressServer \<Rightarrow> u64 \<times> IngressServer" where
  "generate_fetch st = (next_seq_id st, st\<lparr>next_seq_id := next_seq_id st + 1\<rparr>)"

definition generate_push :: "IngressServer \<Rightarrow> Sequence \<Rightarrow> (bool \<times> IngressServer) option" where
  "generate_push st s =
     (case try_push (queue st) s of None \<Rightarrow> None | Some (ok, q) \<Rightarrow> Some (ok, st\<lparr>queue := q\<rparr>))"

definition generate_finish :: "IngressServer \<Rightarrow> u64 \<Rightarrow> Response \<times> IngressServer" where
  "generate_finish st i =
     (ok_response (Json [(''accepted'', JBool True), (''seq_id'', JNumber (unat i))]),
      st\<lparr>status_table := upsert (status_table st) i PREFILL 0\<rparr>)"

definition handle_generate ::
    "'j json_lib \<Rightarrow> int \<Rightarrow> string \<Rightarrow> IngressServer \<Rightarrow> cpp_exn + Response \<times> IngressServer" where
  "handle_generate L now req_body st =
     (case generate_parse L req_body of
        Inl e \<Rightarrow> Inl e
      | Inr (Inl res) \<Rightarrow> Inr (res, st)
      | Inr (Inr (prompt, max_new)) \<Rightarrow>
          (let (i, st1) = generate_fetch st
           in case of_spin (generate_push st1 (new_Sequence now i prompt max_new)) of
                Inl e \<Rightarrow> Inl e
              | Inr (ok, st2) \<Rightarrow>
                  if \<not> ok
                  then Inr (\<lparr>code = 503,
                             content = Json [(''accepted'', JBool False), (''reason'', JString ''ingress queue full'')]\<rparr>, st2)
                  else Inr (generate_finish st2 i)))"

text \<open>The argument is \<open>req.matches[1]\<close>.\<close>

definition handle_status :: "string \<Rightarrow> IngressServer \<Rightarrow> cpp_exn + Response" where
  "handle_status match1 st =
     (case stoull match1 of
        Inl e \<Rightarrow> Inl e
      | Inr i \<Rightarrow>
          (case get (status_table st) i of
             None \<Rightarrow> Inr \<lparr>code = 404, content = Json [(''error'', JString ''unknown seq_id'')]\<rparr>
           | Some s \<Rightarrow> Inr (ok_response (Json [(''seq_id'', JNumber (unat i)),
                                             (''phase'', JString (to_string (status_phase s))),
                                             (''generated_count'', JNumber (generated_count s))]))))"

section \<open>Properties\<close>

definition ingress_inv :: "IngressServer \<Rightarrow> bool" where
  "ingress_inv st \<longleftrightarrow> ring_inv (queue st) \<and> capacity (queue st) = kIngressQueueCapacity"

lemma generate_push_cases:
  assumes "ingress_inv st"
  obtains (full) "length (ring_list (queue st)) = kIngressQueueCapacity" "generate_push st s = Some (False, st)"
  | (room) q where "length (ring_list (queue st)) < kIngressQueueCapacity"
      "generate_push st s = Some (True, st\<lparr>queue := q\<rparr>)" "ring_list q = ring_list (queue st) @ [s]"
      "ingress_inv (st\<lparr>queue := q\<rparr>)"
proof (cases "length (ring_list (queue st)) < capacity (queue st)")
  case True
  then show ?thesis using ring.push_room [of "queue st" s] assms room
    by (auto simp: ingress_inv_def generate_push_def)
next
  case False
  then have "length (ring_list (queue st)) = capacity (queue st)" using ring.bounded [of "queue st"] assms
    by (simp add: ingress_inv_def)
  then show ?thesis using ring.push_full [of "queue st" s] assms full
    by (auto simp: ingress_inv_def generate_push_def)
qed

text \<open>C26. What a request to \<open>/generate\<close> does, for any JSON library: a body that is not JSON or has no
  \<open>prompt_tokens\<close> array is answered with 400 and changes nothing; a valid request takes the next id, and is
  answered with 503 and not queued exactly when 4096 requests are queued already; otherwise it is queued
  last, its status is PREFILL, and the reply carries its id. The handler always returns.\<close>

theorem generate_contract:
  assumes "ingress_inv st"
  shows "case generate_parse L req_body of
      Inl e \<Rightarrow> handle_generate L now req_body st = Inl e
    | Inr (Inl res) \<Rightarrow> code res = 400 \<and> handle_generate L now req_body st = Inr (res, st)
    | Inr (Inr (prompt, mx)) \<Rightarrow>
        (\<exists>res st'. handle_generate L now req_body st = Inr (res, st') \<and> ingress_inv st'
           \<and> next_seq_id st' = next_seq_id st + 1
           \<and> (if length (ring_list (queue st)) = kIngressQueueCapacity
              then code res = 503 \<and> ring_list (queue st') = ring_list (queue st) \<and> status_table st' = status_table st
              else code res = 200
                \<and> content res = Json [(''accepted'', JBool True), (''seq_id'', JNumber (unat (next_seq_id st)))]
                \<and> ring_list (queue st') = ring_list (queue st) @ [new_Sequence now (next_seq_id st) prompt mx]
                \<and> get (status_table st') (next_seq_id st) = Some \<lparr>status_phase = PREFILL, generated_count = 0\<rparr>))"
proof (cases "generate_parse L req_body")
  case (Inl e)
  then show ?thesis by (simp add: handle_generate_def)
next
  case parsed: (Inr r)
  show ?thesis
  proof (cases r)
    case (Inl res)
    then have "code res = 400" using parsed by (auto simp: generate_parse_def split: sum.splits if_splits)
    then show ?thesis using parsed Inl by (simp add: handle_generate_def)
  next
    case (Inr req)
    obtain prompt mx where req: "req = (prompt, mx)" by (cases req)
    let ?st = "st\<lparr>next_seq_id := next_seq_id st + 1\<rparr>" and ?s = "new_Sequence now (next_seq_id st) prompt mx"
    have inv: "ingress_inv ?st" using assms by (simp add: ingress_inv_def)
    show ?thesis
    proof (rule generate_push_cases [OF inv, of ?s])
      assume "length (ring_list (queue ?st)) = kIngressQueueCapacity" "generate_push ?st ?s = Some (False, ?st)"
      then show ?thesis using parsed Inr req inv by (simp add: handle_generate_def generate_fetch_def)
    next
      fix q
      assume "length (ring_list (queue ?st)) < kIngressQueueCapacity" "generate_push ?st ?s = Some (True, ?st\<lparr>queue := q\<rparr>)"
        "ring_list q = ring_list (queue ?st) @ [?s]" "ingress_inv (?st\<lparr>queue := q\<rparr>)"
      then show ?thesis using parsed Inr req
        by (simp add: handle_generate_def generate_fetch_def generate_finish_def ok_response_def get_def upsert_def
            ingress_inv_def)
    qed
  qed
qed

text \<open>A library that reads every body as the prompt of tokens 1 and 2 with 3 new tokens.\<close>

definition demo_json :: "u32 list json_lib" where
  "demo_json = \<lparr>parse = (\<lambda>_. Inr [1, 2]), contains = (\<lambda>_ _. True), at_key = (\<lambda>j _. j), is_array = (\<lambda>_. True),
     elements = map (\<lambda>t. [t]), get_uint32 = (\<lambda>j. Inr (hd j)), value_int = (\<lambda>_ _ _. Inr 3)\<rparr>"

lemma initial_queue_empty: "ring_list (queue initial_IngressServer) = []"
  by (simp add: initial_IngressServer_def new_IngressServer_def ring_list_def ring_count_def new_LockFreeRingBuffer_def)

lemma ingress_inv_initial: "ingress_inv initial_IngressServer"
proof -
  have "capacity (new_LockFreeRingBuffer n d) = n" for n :: nat and d :: Sequence
    by (simp add: capacity_def new_LockFreeRingBuffer_def)
  then show ?thesis using ring_inv_new [of 12 "new_Sequence 0 0 [] 0"]
    by (simp add: ingress_inv_def initial_IngressServer_def new_IngressServer_def kIngressQueueCapacity_def)
qed

theorem generate_contract_witness:
  "ingress_inv initial_IngressServer
     \<and> (\<exists>res st'. handle_generate demo_json 0 ''{}'' initial_IngressServer = Inr (res, st') \<and> code res = 200
          \<and> ring_list (queue st') = [new_Sequence 0 1 [1, 2] 3])"
proof -
  have p: "generate_parse demo_json ''{}'' = Inr (Inr ([1, 2], 3))"
    by (simp add: generate_parse_def demo_json_def)
  show ?thesis
    using generate_contract [OF ingress_inv_initial, where L = demo_json and req_body = "''{}''" and now = 0]
      ingress_inv_initial
    by (auto simp: p initial_queue_empty kIngressQueueCapacity_def) (simp_all add: initial_IngressServer_def new_IngressServer_def)
qed

text \<open>The status endpoint, asked with the decimal digits of an id, reports what was last recorded for it, and only
  that id is affected by an update; an id that was never recorded is answered with 404, and digits beyond 64 bits
  raise \<open>out_of_range\<close>.\<close>

theorem status_reports_last_update:
  assumes "ds \<noteq> []" "list_all is_digit ds" "read_digits 0 ds = n"
  shows "handle_status ds (st\<lparr>status_table := upsert (status_table st) i p c\<rparr>) =
      (if n < 2 ^ 64 \<and> i = word_of_nat n
       then Inr \<lparr>code = 200, content = Json [(''seq_id'', JNumber n), (''phase'', JString (to_string p)),
              (''generated_count'', JNumber c)]\<rparr>
       else handle_status ds st)
    \<and> (n < 2 ^ 64 \<longrightarrow> get (status_table st) (word_of_nat n) = None \<longrightarrow> (\<exists>res. handle_status ds st = Inr res \<and> code res = 404))
    \<and> (2 ^ 64 \<le> n \<longrightarrow> handle_status ds st = Inl (OutOfRange ''stoull''))"
  using stoull_digits [OF assms(1,2)] assms(3) by (auto simp: handle_status_def get_def upsert_def ok_response_def)

theorem status_reports_last_update_witness:
  "handle_status ''007'' (initial_IngressServer\<lparr>status_table := upsert (status_table initial_IngressServer) 7 DECODE 0\<rparr>) =
     Inr \<lparr>code = 200, content = Json [(''seq_id'', JNumber 7), (''phase'', JString ''DECODE''), (''generated_count'', JNumber 0)]\<rparr>"
  using status_reports_last_update [of "''007''" 7 initial_IngressServer 7 DECODE 0] by (simp add: to_string_def is_digit_def)

end
