(* ===== verification/Http_Server.thy ===== *)
theory Http_Server
  imports Ingress
begin

text \<open>
  \<open>IngressServer::run\<close> (\<open>src/api/ingress_server.cpp\<close>): the three handlers as they are registered with the HTTP
  server, and what a client sees of them. The server library is not part of the program: which registered route a
  request is given to, with which captured groups, and the replies of the library itself are the fields of the
  parameter \<open>H\<close>; \<open>routes_documented\<close> states what the code relies on.
\<close>

section \<open>Model\<close>

datatype http_method = GET | POST

datatype route = Healthz | Generate | Status_of

text \<open>The calls of \<open>server.Get\<close> and \<open>server.Post\<close>, in order.\<close>

definition registered_routes :: "(http_method \<times> string \<times> route) list" where
  "registered_routes =
     [(GET, ''/healthz'', Healthz), (POST, ''/generate'', Generate), (GET, ''/status/('' @ [CHR 0x5C] @ ''d+)'', Status_of)]"

text \<open>What the code uses of the library: the dispatch of a request to a registration (its place in the list, and
  \<open>req.matches\<close>), the reply when there is none, and the reply when a handler throws.\<close>

record http_lib =
  find_route :: "(http_method \<times> string) list \<Rightarrow> http_method \<Rightarrow> string \<Rightarrow> (nat \<times> string list) option"
  no_route :: Response
  on_exception :: "cpp_exn \<Rightarrow> Response"

record Request =
  req_method :: http_method
  req_path :: string
  req_body :: string

definition patterns :: "(http_method \<times> string) list" where
  "patterns = map (\<lambda>(m, p, r). (m, p)) registered_routes"

text \<open>The answer to one request, handled without interference.\<close>

definition serve ::
    "http_lib \<Rightarrow> 'j json_lib \<Rightarrow> int \<Rightarrow> Request \<Rightarrow> IngressServer \<Rightarrow> Response \<times> IngressServer" where
  "serve H L now req st =
     (case find_route H patterns (req_method req) (req_path req) of
        None \<Rightarrow> (no_route H, st)
      | Some (k, req_matches) \<Rightarrow>
          (case snd (snd (registered_routes ! k)) of
             Healthz \<Rightarrow> (handle_healthz, st)
           | Generate \<Rightarrow>
               (case handle_generate L now (req_body req) st of Inl e \<Rightarrow> (on_exception H e, st) | Inr r \<Rightarrow> r)
           | Status_of \<Rightarrow>
               (case handle_status (req_matches ! 1) st of Inl e \<Rightarrow> (on_exception H e, st) | Inr res \<Rightarrow> (res, st))))"

text \<open>A request whose method and whole path match the pattern of a registration goes to it, with the captured group.\<close>

definition routes_documented :: "http_lib \<Rightarrow> bool" where
  "routes_documented H \<longleftrightarrow>
     find_route H patterns GET ''/healthz'' = Some (0, [''/healthz''])
   \<and> find_route H patterns POST ''/generate'' = Some (1, [''/generate''])
   \<and> (\<forall>ds. ds \<noteq> [] \<and> list_all is_digit ds \<longrightarrow>
        find_route H patterns GET (''/status/'' @ ds) = Some (2, [''/status/'' @ ds, ds]))"

section \<open>What a client sees\<close>

lemma serve_generate:
  assumes "routes_documented H" "req_method req = POST" "req_path req = ''/generate''"
  shows "serve H L now req st =
    (case handle_generate L now (req_body req) st of Inl e \<Rightarrow> (on_exception H e, st) | Inr r \<Rightarrow> r)"
  using assms by (simp add: serve_def routes_documented_def registered_routes_def)

lemma serve_status:
  assumes "routes_documented H" "req_method req = GET" "req_path req = ''/status/'' @ ds" "ds \<noteq> []" "list_all is_digit ds"
  shows "serve H L now req st = (case handle_status ds st of Inl e \<Rightarrow> (on_exception H e, st) | Inr res \<Rightarrow> (res, st))"
  using assms by (simp add: serve_def routes_documented_def registered_routes_def)

text \<open>A successful request to \<open>/generate\<close>.\<close>

lemma generate_accepts:
  assumes "ingress_inv st" "length (ring_list (queue st)) < kIngressQueueCapacity" "generate_parse L body = Inr (Inr (prompt, mx))"
  shows "\<exists>st'. handle_generate L now body st
      = Inr (ok_response (Json [(''accepted'', JBool True), (''seq_id'', JNumber (unat (next_seq_id st)))]), st')
     \<and> get (status_table st') (next_seq_id st) = Some \<lparr>status_phase = PREFILL, generated_count = 0\<rparr>
     \<and> ring_list (queue st') = ring_list (queue st) @ [new_Sequence now (next_seq_id st) prompt mx]"
proof -
  let ?st = "st\<lparr>next_seq_id := next_seq_id st + 1\<rparr>" and ?s = "new_Sequence now (next_seq_id st) prompt mx"
  have inv: "ingress_inv ?st" using assms(1) by (simp add: ingress_inv_def)
  show ?thesis
    by (rule generate_push_cases [OF inv, of ?s])
      (use assms(2,3) in \<open>auto simp: handle_generate_def generate_fetch_def generate_finish_def get_def upsert_def\<close>)
qed

text \<open>C27. A client can follow its own request: when \<open>/generate\<close> accepts a request, the reply carries an id, and a
  request to \<open>/status/\<close> with the decimal digits of that number is answered with that id, phase PREFILL and count 0,
  without changing the server. Printing the id into the path and reading it back with \<open>stoull\<close> loses nothing for
  any of the \<open>2^64\<close> ids.\<close>

theorem accepted_request_can_be_polled:
  assumes "routes_documented H" "ingress_inv st" "length (ring_list (queue st)) < kIngressQueueCapacity"
    "generate_parse L body = Inr (Inr (prompt, mx))"
  shows "\<exists>n st'. serve H L now \<lparr>req_method = POST, req_path = ''/generate'', req_body = body\<rparr> st
        = (\<lparr>code = 200, content = Json [(''accepted'', JBool True), (''seq_id'', JNumber n)]\<rparr>, st')
     \<and> serve H L now' \<lparr>req_method = GET, req_path = ''/status/'' @ dec_digits n, req_body = body'\<rparr> st'
        = (\<lparr>code = 200, content = Json [(''seq_id'', JNumber n), (''phase'', JString ''PREFILL''), (''generated_count'', JNumber 0)]\<rparr>, st')"
proof -
  let ?n = "unat (next_seq_id st)"
  obtain st' where st': "handle_generate L now body st = Inr (ok_response (Json [(''accepted'', JBool True), (''seq_id'', JNumber ?n)]), st')"
    "get (status_table st') (next_seq_id st) = Some \<lparr>status_phase = PREFILL, generated_count = 0\<rparr>"
    using generate_accepts [OF assms(2-4), of now] by blast
  have "?n < 2 ^ 64" using unsigned_less [of "next_seq_id st"] by simp
  then have "stoull (dec_digits ?n) = Inr (next_seq_id st)" by (simp add: stoull_dec_digits)
  then have "handle_status (dec_digits ?n) st' = Inr (ok_response (Json [(''seq_id'', JNumber ?n),
      (''phase'', JString ''PREFILL''), (''generated_count'', JNumber 0)]))"
    using st'(2) by (simp add: handle_status_def to_string_def)
  then show ?thesis using st'(1) dec_digits_facts [of ?n]
    by (intro exI [of _ ?n] exI [of _ st']) (simp add: serve_generate [OF assms(1)] serve_status [OF assms(1)] ok_response_def)
qed

text \<open>A library that matches the three patterns.\<close>

definition demo_http :: http_lib where
  "demo_http = \<lparr>find_route = (\<lambda>routes m path.
       if m = GET \<and> path = ''/healthz'' then Some (0, [path])
       else if m = POST \<and> path = ''/generate'' then Some (1, [path])
       else if m = GET \<and> take 8 path = ''/status/'' \<and> drop 8 path \<noteq> [] \<and> list_all is_digit (drop 8 path)
            then Some (2, [path, drop 8 path]) else None),
     no_route = \<lparr>code = 404, content = Plain ''''\<rparr>, on_exception = (\<lambda>_. \<lparr>code = 500, content = Plain ''''\<rparr>)\<rparr>"

theorem accepted_request_can_be_polled_witness:
  "routes_documented demo_http
   \<and> (\<exists>n st'. serve demo_http demo_json 0 \<lparr>req_method = POST, req_path = ''/generate'', req_body = ''{}''\<rparr> initial_IngressServer
        = (\<lparr>code = 200, content = Json [(''accepted'', JBool True), (''seq_id'', JNumber n)]\<rparr>, st')
     \<and> serve demo_http demo_json 0 \<lparr>req_method = GET, req_path = ''/status/'' @ dec_digits n, req_body = ''''\<rparr> st'
        = (\<lparr>code = 200, content = Json [(''seq_id'', JNumber n), (''phase'', JString ''PREFILL''), (''generated_count'', JNumber 0)]\<rparr>, st'))"
proof -
  have H: "routes_documented demo_http" by (simp add: routes_documented_def demo_http_def)
  have p: "generate_parse demo_json ''{}'' = Inr (Inr ([1, 2], 3))" by (simp add: generate_parse_def demo_json_def)
  have "length (ring_list (queue initial_IngressServer)) < kIngressQueueCapacity"
    by (simp add: initial_queue_empty kIngressQueueCapacity_def)
  with H accepted_request_can_be_polled [OF H ingress_inv_initial _ p, of 0 0 "''''"] show ?thesis by blast
qed

end
