(* ===== verification/Load_Generator.thy ===== *)
theory Load_Generator
  imports Http_Server
begin

text \<open>
  The HTTP load generator (\<open>benchmarks/load_generator.cpp\<close>) against the server of \<open>Http_Server\<close>. Its threads send
  requests one at a time each and count the replies in three atomic counters. The HTTP client is a parameter through
  what may happen to a request: the server is not reached, the reply is lost (a timeout), or the reply arrives. The
  body that the JSON library prints is the parameter \<open>dump\<close>; \<open>bodies_parse\<close> states that the server's library reads
  it back.
\<close>

section \<open>Model\<close>

record LoadArgs =
  load_host :: string
  load_port :: int
  num_threads :: int
  requests_per_thread :: int

definition load_args :: "string list \<Rightarrow> cpp_exn + LoadArgs" where
  "load_args argv =
     (let arg = (\<lambda>k d. if length argv > k then atoi (argv ! k) else Inr d)
      in case arg 2 8080 of Inl e \<Rightarrow> Inl e | Inr port \<Rightarrow>
        (case arg 3 100 of Inl e \<Rightarrow> Inl e | Inr threads \<Rightarrow>
          (case arg 4 200 of Inl e \<Rightarrow> Inl e | Inr requests \<Rightarrow>
             Inr \<lparr>load_host = (if length argv > 1 then argv ! 1 else ''127.0.0.1''), load_port = port, num_threads = threads,
                  requests_per_thread = requests\<rparr>)))"

datatype delivery = Unreachable | Reply_Lost | Replied

record Load =
  target :: IngressServer
  accepted :: u64
  rejected :: u64
  errored :: u64

definition count_reply :: "Response option \<Rightarrow> Load \<Rightarrow> Load" where
  "count_reply res l =
     (case res of
        None \<Rightarrow> l\<lparr>errored := errored l + 1\<rparr>
      | Some r \<Rightarrow>
          if code r = 200 then l\<lparr>accepted := accepted l + 1\<rparr>
          else if code r = 503 then l\<lparr>rejected := rejected l + 1\<rparr>
          else l\<lparr>errored := errored l + 1\<rparr>)"

text \<open>One turn of a thread's loop.\<close>

definition send_request ::
    "http_lib \<Rightarrow> 'j json_lib \<Rightarrow> (int \<Rightarrow> int \<Rightarrow> string) \<Rightarrow> int \<Rightarrow> delivery \<Rightarrow> int \<Rightarrow> int \<Rightarrow> Load \<Rightarrow> Load" where
  "send_request H L dump now d prompt_len max_new l =
     (let req = \<lparr>req_method = POST, req_path = ''/generate'', req_body = dump prompt_len max_new\<rparr>;
          (res, srv) = serve H L now req (target l)
      in case d of
           Unreachable \<Rightarrow> count_reply None l
         | Reply_Lost \<Rightarrow> count_reply None (l\<lparr>target := srv\<rparr>)
         | Replied \<Rightarrow> count_reply (Some res) (l\<lparr>target := srv\<rparr>))"

definition load_total :: "Load \<Rightarrow> u64" where
  "load_total l = accepted l + rejected l + errored l"

section \<open>Runs\<close>

definition in_range :: "int \<Rightarrow> int \<Rightarrow> bool" where
  "in_range prompt_len max_new \<longleftrightarrow> 10 \<le> prompt_len \<and> prompt_len \<le> 1000 \<and> 1 \<le> max_new \<and> max_new \<le> 32"

definition bodies_parse :: "'j json_lib \<Rightarrow> (int \<Rightarrow> int \<Rightarrow> string) \<Rightarrow> bool" where
  "bodies_parse L dump \<longleftrightarrow> (\<forall>n m. in_range n m \<longrightarrow>
     generate_parse L (dump n m) = Inr (Inr (replicate (nat n) 1, word_of_int m)))"

text \<open>The threads of \<open>main\<close> interleaved with each other and with whatever else happens to the server: thread \<open>i\<close> has sent
  \<open>sent i\<close> of its requests; \<open>lost\<close> requests got no reply, and \<open>ids\<close> lists the ids of the requests that were queued.\<close>

inductive load_run ::
    "http_lib \<Rightarrow> 'j json_lib \<Rightarrow> (int \<Rightarrow> int \<Rightarrow> string) \<Rightarrow> LoadArgs \<Rightarrow> (nat \<Rightarrow> nat) \<Rightarrow> nat \<Rightarrow> u64 list \<Rightarrow> Load \<Rightarrow> bool" for H L dump args where
  begins: "ingress_inv srv \<Longrightarrow> load_run H L dump args (\<lambda>_. 0) 0 [] \<lparr>target = srv, accepted = 0, rejected = 0, errored = 0\<rparr>"
| sends: "load_run H L dump args sent lost ids l \<Longrightarrow> i < nat (num_threads args) \<Longrightarrow> sent i < nat (requests_per_thread args) \<Longrightarrow>
    in_range prompt_len max_new \<Longrightarrow>
    load_run H L dump args (sent(i := Suc (sent i))) (if d = Replied then lost else Suc lost)
      (if d \<noteq> Unreachable \<and> length (ring_list (queue (target l))) < kIngressQueueCapacity then ids @ [next_seq_id (target l)] else ids)
      (send_request H L dump now d prompt_len max_new l)"
| other: "load_run H L dump args sent lost ids l \<Longrightarrow> ingress_inv srv \<Longrightarrow> load_run H L dump args sent lost ids (l\<lparr>target := srv\<rparr>)"

text \<open>Every thread has left its loop.\<close>

definition all_joined :: "LoadArgs \<Rightarrow> (nat \<Rightarrow> nat) \<Rightarrow> bool" where
  "all_joined args sent \<longleftrightarrow> (\<forall>i < nat (num_threads args). sent i = nat (requests_per_thread args))"

definition sent_total :: "LoadArgs \<Rightarrow> (nat \<Rightarrow> nat) \<Rightarrow> nat" where
  "sent_total args sent = (\<Sum>i < nat (num_threads args). sent i)"

lemma sent_total_send:
  "i < nat (num_threads args) \<Longrightarrow> sent_total args (sent(i := Suc (sent i))) = Suc (sent_total args sent)"
  by (simp add: sent_total_def sum.remove [of "{..<nat (num_threads args)}" i])

lemma sent_total_joined:
  "all_joined args sent \<Longrightarrow> sent_total args sent = nat (num_threads args) * nat (requests_per_thread args)"
  by (simp add: sent_total_def all_joined_def)

text \<open>Arguments that were read are values of \<open>int\<close>, so the counters cannot wrap around.\<close>

lemma atoi_fits: "atoi s = Inr v \<Longrightarrow> fits_int v"
  by (auto simp: atoi_def fits_int_def split: option.splits if_splits)

lemma load_args_fit: "load_args argv = Inr args \<Longrightarrow> fits_int (num_threads args) \<and> fits_int (requests_per_thread args)"
  using atoi_fits by (auto simp: load_args_def Let_def fits_int_def split: sum.splits if_splits)

lemma load_size:
  assumes "load_args argv = Inr args"
  shows "nat (num_threads args) * nat (requests_per_thread args) < 2 ^ 64"
proof -
  have "nat (num_threads args) < 2 ^ 31" "nat (requests_per_thread args) < 2 ^ 31"
    using load_args_fit [OF assms] by (auto simp: fits_int_def)
  then have "nat (num_threads args) * nat (requests_per_thread args) \<le> 2 ^ 31 * 2 ^ 31" by (intro mult_le_mono) simp_all
  then show ?thesis by simp
qed

lemma serve_generate_result:
  assumes "routes_documented H" "generate_parse L body = Inr (Inr (prompt, mx))" "ingress_inv st"
  shows "\<exists>res st'. serve H L now \<lparr>req_method = POST, req_path = ''/generate'', req_body = body\<rparr> st = (res, st') \<and> ingress_inv st'
     \<and> code res = (if length (ring_list (queue st)) < kIngressQueueCapacity then 200 else 503)"
proof -
  let ?st = "st\<lparr>next_seq_id := next_seq_id st + 1\<rparr>" and ?s = "new_Sequence now (next_seq_id st) prompt mx"
  have inv: "ingress_inv ?st" using assms(3) by (simp add: ingress_inv_def)
  have g: "serve H L now \<lparr>req_method = POST, req_path = ''/generate'', req_body = body\<rparr> st
      = (case handle_generate L now body st of Inl e \<Rightarrow> (on_exception H e, st) | Inr r \<Rightarrow> r)"
    using serve_generate [OF assms(1), of "\<lparr>req_method = POST, req_path = ''/generate'', req_body = body\<rparr>"] by simp
  show ?thesis unfolding g
    by (rule generate_push_cases [OF inv, of ?s])
      (use assms(2) inv in \<open>auto simp: handle_generate_def generate_fetch_def generate_finish_def ok_response_def ingress_inv_def\<close>)
qed

lemma load_run_counts:
  assumes "routes_documented H" "bodies_parse L dump"
  shows "load_run H L dump args sent lost ids l \<Longrightarrow> ingress_inv (target l)
     \<and> (\<exists>a r. a + r + lost = sent_total args sent \<and> accepted l = word_of_nat a \<and> rejected l = word_of_nat r \<and> errored l = word_of_nat lost
          \<and> a \<le> length ids \<and> length ids \<le> a + lost)"
proof (induction rule: load_run.induct)
  case (sends sent lost ids l i prompt_len max_new d now)
  note total = sent_total_send [OF sends.hyps(2), of sent]
  from sends.IH obtain a r where i: "ingress_inv (target l)" "a + r + lost = sent_total args sent" "accepted l = word_of_nat a"
    "rejected l = word_of_nat r" "errored l = word_of_nat lost" "a \<le> length ids" "length ids \<le> a + lost" by blast
  let ?room = "length (ring_list (queue (target l))) < kIngressQueueCapacity"
  have "generate_parse L (dump prompt_len max_new) = Inr (Inr (replicate (nat prompt_len) 1, word_of_int max_new))"
    using assms(2) sends.hyps(4) by (simp add: bodies_parse_def)
  then obtain res srv where s: "serve H L now \<lparr>req_method = POST, req_path = ''/generate'', req_body = dump prompt_len max_new\<rparr> (target l) = (res, srv)"
    "ingress_inv srv" "code res = (if ?room then 200 else 503)"
    using serve_generate_result [OF assms(1) _ i(1)] by blast
  show ?case
  proof (cases "d = Replied")
    case True
    let ?l = "send_request H L dump now d prompt_len max_new l"
    have "accepted ?l = word_of_nat (if ?room then Suc a else a)" "rejected ?l = word_of_nat (if ?room then r else Suc r)"
      "errored ?l = word_of_nat lost" "target ?l = srv"
      using True i s by (simp_all add: send_request_def count_reply_def)
    then show ?thesis using True total i(2,6,7) s(2)
      by (intro conjI, simp) (rule exI [of _ "if ?room then Suc a else a"], rule exI [of _ "if ?room then r else Suc r"], simp add: fun_upd_def)
  next
    case False
    let ?l = "send_request H L dump now d prompt_len max_new l"
    have "accepted ?l = word_of_nat a" "rejected ?l = word_of_nat r" "errored ?l = word_of_nat (Suc lost)" "ingress_inv (target ?l)"
      using False i s by (cases d; simp add: send_request_def count_reply_def)+
    then show ?thesis using False total i(2,6,7) by (intro conjI, simp) (rule exI [of _ a], rule exI [of _ r], simp add: fun_upd_def)
  qed
qed (auto simp: sent_total_def)

text \<open>The report of the load generator is exact: whatever the interleaving of its threads and whatever else happens to
  the server, when all threads have joined, the total is the number of threads times the number of requests per
  thread; the errors are exactly the requests without a reply, so a server that is reached answers every request with
  200 or 503; and every accepted request was queued, with at most as many more queued as replies were lost.\<close>

theorem load_generator_counts:
  assumes "routes_documented H" "bodies_parse L dump" "load_args argv = Inr args" "load_run H L dump args sent lost ids l"
    "all_joined args sent"
  shows "unat (load_total l) = nat (num_threads args) * nat (requests_per_thread args) \<and> unat (errored l) = lost
     \<and> unat (accepted l) \<le> length ids \<and> length ids \<le> unat (accepted l) + lost"
proof -
  let ?n = "nat (num_threads args) * nat (requests_per_thread args)"
  obtain a r where c: "a + r + lost = ?n" "accepted l = word_of_nat a" "rejected l = word_of_nat r" "errored l = word_of_nat lost"
    "a \<le> length ids" "length ids \<le> a + lost"
    using load_run_counts [OF assms(1,2) assms(4)] sent_total_joined [OF assms(5)] by metis
  have n: "?n < 2 ^ 64" by (rule load_size [OF assms(3)])
  have "load_total l = word_of_nat ?n" using c(2-4) by (simp only: load_total_def of_nat_add flip: c(1))
  then have "unat (load_total l) = ?n" using unat_u64_of_nat [OF n] by (simp only:)
  moreover have "unat (errored l) = lost" "unat (accepted l) = a" using c n by simp_all
  ultimately show ?thesis using c(5,6) by simp
qed

text \<open>A text format with one character per prompt token and per new token.\<close>

definition unary_json :: "(u32 list \<times> int) json_lib" where
  "unary_json = \<lparr>parse = (\<lambda>s. Inr (replicate (length (takeWhile (\<lambda>c. c = CHR ''p'') s)) 1, int (length (dropWhile (\<lambda>c. c = CHR ''p'') s)))),
     contains = (\<lambda>_ _. True), at_key = (\<lambda>j _. j), is_array = (\<lambda>_. True), elements = (\<lambda>(ts, _). map (\<lambda>t. ([t], 0)) ts),
     get_uint32 = (\<lambda>(ts, _). Inr (hd ts)), value_int = (\<lambda>(_, m) _ _. Inr m)\<rparr>"

definition unary_dump :: "int \<Rightarrow> int \<Rightarrow> string" where
  "unary_dump n m = replicate (nat n) CHR ''p'' @ replicate (nat m) CHR ''m''"

lemma unary_bodies_parse: "bodies_parse unary_json unary_dump"
proof -
  have read: "read_tokens unary_json (replicate n ([1], 0)) = Inr (replicate n 1)" for n
    by (induction n) (simp_all add: unary_json_def)
  have split: "takeWhile (\<lambda>c. c = CHR ''p'') (unary_dump n m) = replicate (nat n) CHR ''p''"
    "dropWhile (\<lambda>c. c = CHR ''p'') (unary_dump n m) = replicate (nat m) CHR ''m''" for n m
    by (simp_all add: unary_dump_def takeWhile_append dropWhile_append takeWhile_replicate dropWhile_replicate)
  have lib: "parse unary_json (unary_dump n m) = Inr (replicate (nat n) 1, int (nat m))"
    "contains unary_json j k" "at_key unary_json j k = j" "is_array unary_json j"
    "elements unary_json (replicate i 1, v) = replicate i ([1], 0)" "value_int unary_json (ts, v) k d = Inr v" for n m j k i v ts d
    using split by (simp_all add: unary_json_def)
  show ?thesis by (simp add: bodies_parse_def in_range_def generate_parse_def lib read)
qed

theorem load_generator_counts_witness:
  "\<exists>args l. load_args [''load_generator'', ''127.0.0.1'', ''8080'', ''2'', ''1''] = Inr args
     \<and> load_run demo_http unary_json unary_dump args ((\<lambda>_. 0)(0 := 1, 1 := 1)) 1 [1] l \<and> unat (load_total l) = 2 \<and> unat (errored l) = 1"
proof -
  let ?argv = "[''load_generator'', ''127.0.0.1'', ''8080'', ''2'', ''1'']"
  let ?args = "\<lparr>load_host = ''127.0.0.1'', load_port = 8080, num_threads = 2, requests_per_thread = 1\<rparr>"
  have args: "load_args ?argv = Inr ?args" by code_simp
  have H: "routes_documented demo_http" by (simp add: routes_documented_def demo_http_def)
  let ?l0 = "\<lparr>target = initial_IngressServer, accepted = 0, rejected = 0, errored = 0\<rparr>"
  have 0: "load_run demo_http unary_json unary_dump ?args (\<lambda>_. 0) 0 [] ?l0" by (rule load_run.begins [OF ingress_inv_initial])
  have r: "in_range 10 1" by (simp add: in_range_def)
  have "length (ring_list (queue (target ?l0))) < kIngressQueueCapacity" "next_seq_id (target ?l0) = 1"
    by (simp add: initial_queue_empty kIngressQueueCapacity_def, simp add: initial_IngressServer_def new_IngressServer_def)
  with load_run.sends [OF 0 _ _ r, of 0 Replied 0]
  have "load_run demo_http unary_json unary_dump ?args ((\<lambda>_. 0)(0 := 1)) 0 [1] (send_request demo_http unary_json unary_dump 0 Replied 10 1 ?l0)"
    by simp
  from load_run.sends [OF this _ _ r, of 1 Unreachable 0]
  obtain l where l: "load_run demo_http unary_json unary_dump ?args ((\<lambda>_. 0)(0 := 1, 1 := 1)) 1 [1] l" by auto
  have "all_joined ?args ((\<lambda>_. 0)(0 := 1, 1 := 1))" by (auto simp: all_joined_def less_2_cases_iff)
  with load_generator_counts [OF H unary_bodies_parse args l] l args show ?thesis by auto
qed

end
