(* ===== verification/Page_Table.thy ===== *)
theory Page_Table
  imports Prelude
begin

text \<open>
  The paged KV-cache allocator (\<open>src/core/page_table.hpp\<close>). Every public operation holds the one
  mutex for its whole body, so each is one atomic step. Physical block ids are C++ \<open>int\<close>s, kept as
  their 32-bit pattern; \<open>free_blocks_\<close> is the vector used as a stack, its back the end of the list;
  \<open>tables_\<close> is the hash table from sequence ids to the blocks they own.
\<close>

section \<open>Model\<close>

record PagedKVCacheAllocator =
  block_size :: nat
  num_blocks :: nat
  free_blocks :: "u32 list"
  tables :: "(u64 \<times> u32 list) list"

text \<open>The constructor's loop \<open>for (size_t i = num_blocks_; i-- > 0;)\<close> pushes
  \<open>static_cast<int>(i)\<close> for \<open>i\<close> from \<open>num_blocks - 1\<close> down to 0.\<close>

fun push_descending :: "nat \<Rightarrow> u32 list \<Rightarrow> u32 list" where
  "push_descending 0 free = free"
| "push_descending (Suc i) free = push_descending i (free @ [word_of_nat i])"

definition new_PagedKVCacheAllocator :: "nat \<Rightarrow> nat \<Rightarrow> cpp_exn + PagedKVCacheAllocator" where
  "new_PagedKVCacheAllocator block_size_tokens num_physical_blocks =
     (if block_size_tokens = 0 \<or> num_physical_blocks = 0
      then Inl (InvalidArgument ''block_size and num_physical_blocks must be > 0'')
      else Inr \<lparr>block_size = block_size_tokens, num_blocks = num_physical_blocks,
                free_blocks = push_descending num_physical_blocks [], tables = []\<rparr>)"

definition free_block_count :: "PagedKVCacheAllocator \<Rightarrow> nat" where
  "free_block_count pt = length (free_blocks pt)"

definition blocks_needed_for :: "PagedKVCacheAllocator \<Rightarrow> nat \<Rightarrow> nat" where
  "blocks_needed_for pt token_count =
     size_sub (size_add token_count (block_size pt)) 1 div block_size pt"

text \<open>\<open>tables_[seq_id]\<close>: the entry, created empty when the key is new.\<close>

definition table_entry :: "(u64 \<times> u32 list) list \<Rightarrow> u64 \<Rightarrow> u32 list \<times> (u64 \<times> u32 list) list" where
  "table_entry tab seq_id =
     (case map_of tab seq_id of Some owned \<Rightarrow> (owned, tab) | None \<Rightarrow> ([], AList.update seq_id [] tab))"

text \<open>The allocation loop: \<open>owned.push_back(free_blocks_.back()); free_blocks_.pop_back();\<close>\<close>

fun allocate_loop :: "nat \<Rightarrow> u32 list \<Rightarrow> u32 list \<Rightarrow> u32 list \<times> u32 list" where
  "allocate_loop 0 owned free = (owned, free)"
| "allocate_loop (Suc n) owned free = allocate_loop n (owned @ [last free]) (butlast free)"

definition ensure_capacity ::
    "PagedKVCacheAllocator \<Rightarrow> u64 \<Rightarrow> nat \<Rightarrow> bool \<times> PagedKVCacheAllocator" where
  "ensure_capacity pt seq_id token_count =
     (let (owned, tab) = table_entry (tables pt) seq_id;
          needed = blocks_needed_for pt token_count
      in if needed \<le> length owned then (True, pt\<lparr>tables := tab\<rparr>)
         else let to_allocate = needed - length owned
              in if length (free_blocks pt) < to_allocate then (False, pt\<lparr>tables := tab\<rparr>)
                 else let (owned', free') = allocate_loop to_allocate owned (free_blocks pt)
                      in (True, pt\<lparr>free_blocks := free', tables := AList.update seq_id owned' tab\<rparr>))"

definition free_sequence :: "PagedKVCacheAllocator \<Rightarrow> u64 \<Rightarrow> PagedKVCacheAllocator" where
  "free_sequence pt seq_id =
     (case map_of (tables pt) seq_id of
        None \<Rightarrow> pt
      | Some owned \<Rightarrow> pt\<lparr>free_blocks := free_blocks pt @ owned,
                        tables := AList.delete seq_id (tables pt)\<rparr>)"

definition blocks_of :: "PagedKVCacheAllocator \<Rightarrow> u64 \<Rightarrow> u32 list" where
  "blocks_of pt seq_id = (case map_of (tables pt) seq_id of None \<Rightarrow> [] | Some owned \<Rightarrow> owned)"

text \<open>The two sums of \<open>internal_fragmentation_ratio\<close>, accumulated over the table.\<close>

fun fragmentation_slots ::
    "nat \<Rightarrow> (u64 \<rightharpoonup> nat) \<Rightarrow> (u64 \<times> u32 list) list \<Rightarrow> nat \<times> nat \<Rightarrow> nat \<times> nat" where
  "fragmentation_slots bs counts [] acc = acc"
| "fragmentation_slots bs counts ((seq_id, owned) # tab) (allocated, used) =
     fragmentation_slots bs counts tab
       (allocated + length owned * bs,
        used + (case counts seq_id of None \<Rightarrow> 0 | Some c \<Rightarrow> c))"

text \<open>The \<open>double\<close> quotient is kept as the exact rational it rounds.\<close>

definition internal_fragmentation_ratio :: "PagedKVCacheAllocator \<Rightarrow> (u64 \<rightharpoonup> nat) \<Rightarrow> rat" where
  "internal_fragmentation_ratio pt counts =
     (let (allocated_slots, used_slots) = fragmentation_slots (block_size pt) counts (tables pt) (0, 0)
      in if allocated_slots = 0 then 0 else 1 - of_nat used_slots / of_nat allocated_slots)"


declare table_entry_def [eval_simps] ensure_capacity_def [eval_simps] free_sequence_def [eval_simps]
  blocks_of_def [eval_simps] blocks_needed_for_def [eval_simps] new_PagedKVCacheAllocator_def [eval_simps]

lemma loops_numeral [eval_simps]:
  "push_descending (numeral k) free = push_descending (pred_numeral k) (free @ [word_of_nat (pred_numeral k)])"
  "allocate_loop (numeral k) owned free = allocate_loop (pred_numeral k) (owned @ [last free]) (butlast free)"
  by (simp_all add: numeral_eq_Suc)

section \<open>Loops\<close>

lemma push_descending_eq: "push_descending n free = free @ map word_of_nat (rev [0..<n])"
  by (induction n arbitrary: free) auto

lemma allocate_loop_eq:
  "n \<le> length free \<Longrightarrow>
     allocate_loop n owned free =
       (owned @ rev (drop (length free - n) free), take (length free - n) free)"
proof (induction n arbitrary: owned free)
  case 0
  then show ?case by simp
next
  case (Suc n)
  then obtain ys y where free: "free = ys @ [y]" by (cases free rule: rev_cases) auto
  with Suc.prems have "n \<le> length ys" by simp
  with Suc.IH [of ys "owned @ [y]"] free show ?case by (simp add: Suc_diff_le)
qed

section \<open>Invariant\<close>

text \<open>Block conservation: the free stack and the owned blocks together are exactly the physical
  blocks, each once.\<close>

definition physical_blocks :: "nat \<Rightarrow> u32 list" where
  "physical_blocks n = map word_of_nat [0..<n]"

definition pt_inv :: "PagedKVCacheAllocator \<Rightarrow> bool" where
  "pt_inv pt \<longleftrightarrow> 0 < block_size pt \<and> 0 < num_blocks pt \<and> distinct (map fst (tables pt))
     \<and> mset (free_blocks pt) + mset (concat (map snd (tables pt))) = mset (physical_blocks (num_blocks pt))"

lemma pt_inv_new:
  "new_PagedKVCacheAllocator bs nb = Inr pt \<Longrightarrow> pt_inv pt \<and> block_size pt = bs \<and> num_blocks pt = nb"
  by (auto simp: new_PagedKVCacheAllocator_def pt_inv_def push_descending_eq physical_blocks_def
           split: if_splits simp flip: rev_map)

lemma distinct_physical_blocks: "n \<le> 2 ^ 32 \<Longrightarrow> distinct (physical_blocks n)"
proof -
  assume n: "n \<le> 2 ^ 32"
  have "inj_on (word_of_nat :: nat \<Rightarrow> u32) {0..<n}"
    using n by (auto intro!: inj_onI simp: word_of_nat_eq_iff take_bit_nat_eq_self)
  then show ?thesis by (simp add: physical_blocks_def distinct_map)
qed

lemma blocks_of_table_entry:
  "fst (table_entry (tables pt) i) = blocks_of pt i"
  by (simp add: table_entry_def blocks_of_def split: option.split)

lemma table_entry_snd:
  assumes "distinct (map fst tab)"
  shows "distinct (map fst (snd (table_entry tab i)))"
    and "mset (concat (map snd (snd (table_entry tab i)))) = mset (concat (map snd tab))"
    and "map_of (snd (table_entry tab i)) i = Some (fst (table_entry tab i))"
    and "j \<noteq> i \<Longrightarrow> map_of (snd (table_entry tab i)) j = map_of tab j"
  using assms
  by (simp_all add: table_entry_def distinct_update mset_map_snd_AList_insert update_conv
      del: map_of_eq_None_iff split: option.split)

text \<open>The three ways a call of \<open>ensure_capacity\<close> can go.\<close>

lemma ensure_capacity_cases:
  fixes pt i tc
  defines "owned \<equiv> blocks_of pt i" and "needed \<equiv> blocks_needed_for pt tc"
    and "tab \<equiv> snd (table_entry (tables pt) i)"
  obtains (enough) "needed \<le> length owned" "ensure_capacity pt i tc = (True, pt\<lparr>tables := tab\<rparr>)"
  | (oom) "length owned + length (free_blocks pt) < needed"
      "ensure_capacity pt i tc = (False, pt\<lparr>tables := tab\<rparr>)"
  | (grow) n where "length owned < needed" "n = needed - length owned" "n \<le> length (free_blocks pt)"
      "ensure_capacity pt i tc =
         (True, pt\<lparr>free_blocks := take (length (free_blocks pt) - n) (free_blocks pt),
                   tables := AList.update i
                     (owned @ rev (drop (length (free_blocks pt) - n) (free_blocks pt))) tab\<rparr>)"
proof -
  have entry: "table_entry (tables pt) i = (owned, tab)"
    by (simp add: owned_def tab_def flip: blocks_of_table_entry)
  consider "needed \<le> length owned" | "length owned < needed" "length (free_blocks pt) < needed - length owned"
    | "length owned < needed" "needed - length owned \<le> length (free_blocks pt)"
    by linarith
  then show thesis
    by cases (auto simp: ensure_capacity_def entry Let_def allocate_loop_eq needed_def [symmetric]
        intro: enough oom grow)
qed

lemma blocks_of_simps:
  "blocks_of (pt\<lparr>tables := tab\<rparr>) j = (case map_of tab j of None \<Rightarrow> [] | Some b \<Rightarrow> b)"
  "blocks_of (pt\<lparr>free_blocks := f\<rparr>) j = blocks_of pt j"
  by (simp_all add: blocks_of_def)

lemma ensure_capacity_ok_iff:
  "fst (ensure_capacity pt i tc) \<longleftrightarrow>
     blocks_needed_for pt tc \<le> length (blocks_of pt i) + free_block_count pt"
  by (cases rule: ensure_capacity_cases [where pt = pt and i = i and tc = tc]) (auto simp: free_block_count_def)

lemma ensure_capacity_frame [frame_simps]:
  "block_size (snd (ensure_capacity pt i tc)) = block_size pt"
  "num_blocks (snd (ensure_capacity pt i tc)) = num_blocks pt"
  by (cases rule: ensure_capacity_cases [where pt = pt and i = i and tc = tc]; simp)+

lemma free_sequence_frame [frame_simps]:
  "block_size (free_sequence pt i) = block_size pt"
  "num_blocks (free_sequence pt i) = num_blocks pt"
  by (auto simp: free_sequence_def split: option.split)

lemma ensure_capacity_inv [inv_intros]:
  assumes "pt_inv pt"
  shows "pt_inv (snd (ensure_capacity pt i tc))"
proof -
  let ?tab = "snd (table_entry (tables pt) i)" and ?free = "free_blocks pt"
  from assms have d: "distinct (map fst (tables pt))" by (simp add: pt_inv_def)
  note tab = table_entry_snd [OF d, of i, unfolded blocks_of_table_entry]
  show ?thesis
  proof (cases rule: ensure_capacity_cases [where pt = pt and i = i and tc = tc])
    case (grow n)
    let ?new = "rev (drop (length ?free - n) ?free)"
    have "mset (concat (map snd (AList.update i (blocks_of pt i @ ?new) ?tab))) + mset (blocks_of pt i)
        = mset (concat (map snd (tables pt))) + mset (blocks_of pt i @ ?new)"
      using mset_map_snd_AList_update [OF tab(1,3), of "blocks_of pt i @ ?new"] tab(2) by simp
    then have "mset (concat (map snd (AList.update i (blocks_of pt i @ ?new) ?tab)))
        = mset (concat (map snd (tables pt))) + mset (drop (length ?free - n) ?free)"
      by simp
    moreover have "mset (take (length ?free - n) ?free) + mset (drop (length ?free - n) ?free) = mset ?free"
      by (metis append_take_drop_id mset_append)
    ultimately show ?thesis using assms grow tab(1)
      by (auto simp: pt_inv_def distinct_update ac_simps)
  qed (use assms tab in \<open>auto simp: pt_inv_def\<close>)
qed

lemma free_sequence_inv [inv_intros]:
  assumes "pt_inv pt"
  shows "pt_inv (free_sequence pt i)"
proof (cases "map_of (tables pt) i")
  case None
  with assms show ?thesis by (simp add: free_sequence_def)
next
  case (Some owned)
  from assms have "distinct (map fst (tables pt))" by (simp add: pt_inv_def)
  note del = mset_map_snd_AList_delete [OF this Some, symmetric]
  from assms Some show ?thesis
    by (simp add: pt_inv_def free_sequence_def distinct_delete del ac_simps)
qed

section \<open>Ownership\<close>

lemma ensure_capacity_blocks_of_other:
  assumes "pt_inv pt" "j \<noteq> i"
  shows "blocks_of (snd (ensure_capacity pt i tc)) j = blocks_of pt j"
proof -
  have d: "distinct (map fst (tables pt))" using assms by (simp add: pt_inv_def)
  show ?thesis
    using table_entry_snd(4) [OF d \<open>j \<noteq> i\<close>] \<open>j \<noteq> i\<close>
    by (cases rule: ensure_capacity_cases [where pt = pt and i = i and tc = tc]) (simp_all add: blocks_of_def update_conv')
qed

lemma ensure_capacity_blocks_of_self:
  assumes "pt_inv pt"
  shows "\<exists>new. blocks_of (snd (ensure_capacity pt i tc)) i = blocks_of pt i @ new
     \<and> length new = (if fst (ensure_capacity pt i tc)
                     then blocks_needed_for pt tc - length (blocks_of pt i) else 0)
     \<and> mset (free_blocks pt) = mset (free_blocks (snd (ensure_capacity pt i tc))) + mset new"
proof -
  have d: "distinct (map fst (tables pt))" using assms by (simp add: pt_inv_def)
  note tab = table_entry_snd [OF d, of i, unfolded blocks_of_table_entry]
  show ?thesis
  proof (cases rule: ensure_capacity_cases [where pt = pt and i = i and tc = tc])
    case (grow n)
    let ?f = "free_blocks pt"
    have "mset (take (length ?f - n) ?f) + mset (drop (length ?f - n) ?f) = mset ?f"
      by (metis append_take_drop_id mset_append)
    with grow show ?thesis
      by (intro exI [of _ "rev (drop (length ?f - n) ?f)"]) (simp add: blocks_of_def update_conv')
  qed (simp_all add: blocks_of_simps tab)
qed

lemma free_sequence_blocks_of:
  "pt_inv pt \<Longrightarrow> blocks_of (free_sequence pt i) j = (if j = i then [] else blocks_of pt j)"
  by (auto simp: pt_inv_def free_sequence_def blocks_of_def delete_conv' split: option.split)

lemma free_sequence_free_blocks: "free_blocks (free_sequence pt i) = free_blocks pt @ blocks_of pt i"
  by (simp add: free_sequence_def blocks_of_def split: option.split)


section \<open>Block counts\<close>

lemma blocks_needed_for_eq:
  assumes "0 < block_size pt" "tc + block_size pt \<le> 2 ^ 64" "0 < tc"
  shows "blocks_needed_for pt tc = (tc + block_size pt - 1) div block_size pt"
proof (cases "tc + block_size pt = 2 ^ 64")
  case True
  then have "size_add tc (block_size pt) = 0" by (simp add: size_add_def)
  moreover have "size_sub 0 1 = 2 ^ 64 - 1" by (simp add: size_sub_def)
  ultimately show ?thesis using True by (simp add: blocks_needed_for_def)
next
  case False
  with assms show ?thesis by (simp add: blocks_needed_for_def)
qed

lemma blocks_needed_for_covers:
  assumes "0 < block_size pt" "tc + block_size pt \<le> 2 ^ 64" "0 < tc"
  shows "tc \<le> blocks_needed_for pt tc * block_size pt"
    and "blocks_needed_for pt tc * block_size pt < tc + block_size pt"
proof -
  let ?b = "block_size pt" and ?x = "tc + block_size pt - 1"
  have "?x = ?x div ?b * ?b + ?x mod ?b" by simp
  moreover have "?x mod ?b < ?b" using assms(1) by simp
  ultimately show "tc \<le> blocks_needed_for pt tc * ?b" "blocks_needed_for pt tc * ?b < tc + ?b"
    unfolding blocks_needed_for_eq [OF assms] using assms by linarith+
qed

lemma blocks_needed_for_mono:
  assumes "0 < block_size pt" "m \<le> n" "n + block_size pt \<le> 2 ^ 64" "0 < m"
  shows "blocks_needed_for pt m \<le> blocks_needed_for pt n"
  using assms by (simp add: blocks_needed_for_eq div_le_mono)

lemma blocks_needed_for_frame [frame_simps]:
  "blocks_needed_for (snd (ensure_capacity pt i tc)) n = blocks_needed_for pt n"
  "blocks_needed_for (free_sequence pt i) n = blocks_needed_for pt n"
  by (simp_all add: blocks_needed_for_def frame_simps)

section \<open>The interface the scheduler relies on\<close>

text \<open>An allocator hands out blocks from a fixed total to numbered clients: a request succeeds exactly
  when the free blocks cover what the client lacks, a failed request changes no ownership, a release
  gives everything back.\<close>

locale block_allocator =
  fixes ensure :: "'p \<Rightarrow> 'i \<Rightarrow> nat \<Rightarrow> bool \<times> 'p"
    and release :: "'p \<Rightarrow> 'i \<Rightarrow> 'p"
    and owned :: "'p \<Rightarrow> 'i \<Rightarrow> nat"
    and avail :: "'p \<Rightarrow> nat"
    and total :: "'p \<Rightarrow> nat"
    and need :: "'p \<Rightarrow> nat \<Rightarrow> nat"
    and invar :: "'p \<Rightarrow> bool"
  assumes ensure_iff: "invar p \<Longrightarrow> fst (ensure p i n) \<longleftrightarrow> need p n \<le> owned p i + avail p"
    and ensure_owned: "invar p \<Longrightarrow> owned (snd (ensure p i n)) j =
          (if j = i \<and> fst (ensure p i n) then max (owned p i) (need p n) else owned p j)"
    and release_owned: "invar p \<Longrightarrow> owned (release p i) j = (if j = i then 0 else owned p j)"
    and conserved: "invar p \<Longrightarrow> finite S \<Longrightarrow> (\<And>j. owned p j \<noteq> 0 \<Longrightarrow> j \<in> S) \<Longrightarrow>
          avail p + (\<Sum>j\<in>S. owned p j) = total p"
    and need_ensure: "need (snd (ensure p i n)) m = need p m"
    and need_release: "need (release p i) m = need p m"
    and total_ensure: "total (snd (ensure p i n)) = total p"
    and total_release: "total (release p i) = total p"
    and invar_ensure: "invar p \<Longrightarrow> invar (snd (ensure p i n))"
    and invar_release: "invar p \<Longrightarrow> invar (release p i)"
begin

lemmas alloc_specs = ensure_iff ensure_owned release_owned need_ensure need_release
  total_ensure total_release invar_ensure invar_release

text \<open>When every client stays within a reservation and the reservations fit in the total, no request
  within the client's reservation is refused.\<close>

lemma reserved_request_succeeds:
  assumes inv: "invar p" and S: "finite S" "i \<in> S" "\<And>j. owned p j \<noteq> 0 \<Longrightarrow> j \<in> S"
    and within: "\<And>j. j \<in> S \<Longrightarrow> owned p j \<le> r j" and fits: "(\<Sum>j\<in>S. r j) \<le> total p"
    and n: "need p n \<le> r i"
  shows "fst (ensure p i n)"
proof -
  have "avail p + (\<Sum>j\<in>S. owned p j) = total p" using inv S by (intro conserved) auto
  moreover have "(\<Sum>j\<in>S. owned p j) = owned p i + (\<Sum>j\<in>S - {i}. owned p j)"
    "(\<Sum>j\<in>S. r j) = r i + (\<Sum>j\<in>S - {i}. r j)"
    using S by (simp_all add: sum.remove)
  moreover have "(\<Sum>j\<in>S - {i}. owned p j) \<le> (\<Sum>j\<in>S - {i}. r j)"
    using within by (intro sum_mono) auto
  ultimately have "r i \<le> owned p i + avail p" using fits by linarith
  with n inv show ?thesis by (simp add: ensure_iff)
qed

text \<open>A request followed by a release leaves as many free blocks as a release alone.\<close>

lemma ensure_release_avail:
  assumes inv: "invar p" and S: "finite S" "\<And>j. owned p j \<noteq> 0 \<Longrightarrow> j \<in> S"
  shows "avail (release (snd (ensure p i n)) i) = avail (release p i)"
proof -
  have same: "owned (release (snd (ensure p i n)) i) j = owned (release p i) j" for j
    using inv by (simp add: alloc_specs)
  have "avail (release (snd (ensure p i n)) i) + (\<Sum>j\<in>S. owned (release (snd (ensure p i n)) i) j) = total p"
    "avail (release p i) + (\<Sum>j\<in>S. owned (release p i) j) = total p"
    using inv S by (subst conserved; auto simp: alloc_specs split: if_splits)+
  then show ?thesis by (simp add: same)
qed

end

abbreviation owned_count :: "PagedKVCacheAllocator \<Rightarrow> u64 \<Rightarrow> nat" where
  "owned_count pt i \<equiv> length (blocks_of pt i)"

lemma sum_owned_count:
  assumes "distinct (map fst tab)" "finite S" "set (map fst tab) \<subseteq> S"
  shows "(\<Sum>j\<in>S. length (case map_of tab j of None \<Rightarrow> [] | Some b \<Rightarrow> b)) = length (concat (map snd tab))"
  using assms
proof (induction tab arbitrary: S)
  case Nil
  then show ?case by simp
next
  case (Cons p tab)
  obtain k b where p: "p = (k, b)" by (cases p)
  let ?f = "\<lambda>t j. length (case map_of t j of None \<Rightarrow> [] | Some b \<Rightarrow> b)"
  have k: "k \<in> S" "map_of tab k = None" using Cons.prems p by (auto simp: map_of_eq_None_iff)
  have "(\<Sum>j\<in>S. ?f (p # tab) j) = length b + (\<Sum>j\<in>S - {k}. ?f tab j)"
    using Cons.prems(2) k(1) p by (simp add: sum.remove)
  also have "(\<Sum>j\<in>S - {k}. ?f tab j) = length (concat (map snd tab))"
    using Cons.prems p by (intro Cons.IH) auto
  finally show ?case using p by simp
qed

lemma pt_conserved:
  assumes "pt_inv pt" "finite S" "\<And>j. owned_count pt j \<noteq> 0 \<Longrightarrow> j \<in> S"
  shows "free_block_count pt + (\<Sum>j\<in>S. owned_count pt j) = num_blocks pt"
proof -
  let ?S = "S \<union> set (map fst (tables pt))"
  have "(\<Sum>j\<in>S. owned_count pt j) = (\<Sum>j\<in>?S. owned_count pt j)"
    using assms by (intro sum.mono_neutral_left) auto
  also have "\<dots> = length (concat (map snd (tables pt)))"
    using assms by (unfold blocks_of_def, intro sum_owned_count) (auto simp: pt_inv_def)
  finally have "free_block_count pt + (\<Sum>j\<in>S. owned_count pt j)
      = size (mset (free_blocks pt) + mset (concat (map snd (tables pt))))"
    by (simp add: free_block_count_def)
  also have "\<dots> = num_blocks pt" using assms(1) by (simp add: pt_inv_def physical_blocks_def)
  finally show ?thesis .
qed

interpretation pt: block_allocator ensure_capacity free_sequence owned_count free_block_count
  num_blocks blocks_needed_for pt_inv
proof
  fix p i n j
  assume inv: "pt_inv p"
  obtain new where "blocks_of (snd (ensure_capacity p i n)) i = blocks_of p i @ new"
    and "length new = (if fst (ensure_capacity p i n) then blocks_needed_for p n - owned_count p i else 0)"
    using ensure_capacity_blocks_of_self [OF inv] by blast
  then show "owned_count (snd (ensure_capacity p i n)) j =
      (if j = i \<and> fst (ensure_capacity p i n) then max (owned_count p i) (blocks_needed_for p n)
       else owned_count p j)"
    using ensure_capacity_blocks_of_other [OF inv, of j i n] by (cases "j = i") auto
next
  fix p S
  assume "pt_inv p" "finite S" "\<And>j. owned_count p j \<noteq> 0 \<Longrightarrow> j \<in> S"
  then show "free_block_count p + (\<Sum>j\<in>S. owned_count p j) = num_blocks p" by (rule pt_conserved)
qed (simp_all add: ensure_capacity_ok_iff free_sequence_blocks_of frame_simps
      ensure_capacity_inv free_sequence_inv)


section \<open>Reachable allocators\<close>

inductive pt_reachable :: "nat \<Rightarrow> nat \<Rightarrow> PagedKVCacheAllocator \<Rightarrow> bool" for bs nb where
  create: "new_PagedKVCacheAllocator bs nb = Inr pt \<Longrightarrow> pt_reachable bs nb pt"
| grow: "pt_reachable bs nb pt \<Longrightarrow> pt_reachable bs nb (snd (ensure_capacity pt i tc))"
| drop: "pt_reachable bs nb pt \<Longrightarrow> pt_reachable bs nb (free_sequence pt i)"

lemma pt_reachable_inv: "pt_reachable bs nb pt \<Longrightarrow> pt_inv pt \<and> block_size pt = bs \<and> num_blocks pt = nb"
  by (induction rule: pt_reachable.induct) (auto simp: pt_inv_new frame_simps intro: inv_intros)

lemma pt_inv_distinct:
  assumes "pt_inv pt" "num_blocks pt \<le> 2 ^ 32"
  shows "distinct (free_blocks pt @ concat (map snd (tables pt)))"
proof -
  have "mset (free_blocks pt @ concat (map snd (tables pt))) = mset (physical_blocks (num_blocks pt))"
    using assms(1) by (simp add: pt_inv_def)
  with distinct_physical_blocks [OF assms(2)] show ?thesis by (metis mset_eq_imp_distinct_iff)
qed

lemma blocks_of_in_table: "b \<in> set (blocks_of pt i) \<Longrightarrow> (i, blocks_of pt i) \<in> set (tables pt)"
  by (auto simp: blocks_of_def dest: map_of_SomeD split: option.splits)

lemma blocks_of_subset: "set (blocks_of pt i) \<subseteq> set (concat (map snd (tables pt)))"
proof
  fix b assume "b \<in> set (blocks_of pt i)"
  with blocks_of_in_table [OF this] show "b \<in> set (concat (map snd (tables pt)))"
    by (force intro: count_concat_map_pos)
qed

lemma distinct_concat_snd_same_key:
  "distinct (concat (map snd tab)) \<Longrightarrow> (i, bs) \<in> set tab \<Longrightarrow> (j, cs) \<in> set tab \<Longrightarrow>
     b \<in> set bs \<Longrightarrow> b \<in> set cs \<Longrightarrow> i = j"
  by (induction tab) (force)+

lemma blocks_of_union:
  assumes "pt_inv pt"
  shows "set (free_blocks pt) \<union> (\<Union>k. set (blocks_of pt k)) = set (physical_blocks (num_blocks pt))"
proof -
  have key: "map_of (tables pt) k = Some v \<longleftrightarrow> (k, v) \<in> set (tables pt)" for k v
    using assms by (simp add: pt_inv_def map_of_eq_Some_iff)
  have "(\<Union>k. set (blocks_of pt k)) = set (concat (map snd (tables pt)))"
  proof (intro equalityI subsetI)
    fix b assume "b \<in> (\<Union>k. set (blocks_of pt k))"
    then show "b \<in> set (concat (map snd (tables pt)))" using blocks_of_subset by blast
  next
    fix b assume "b \<in> set (concat (map snd (tables pt)))"
    then obtain k v where "map_of (tables pt) k = Some v" "b \<in> set v" by (auto simp: key)
    then show "b \<in> (\<Union>k. set (blocks_of pt k))" by (auto simp: blocks_of_def intro!: exI [of _ k])
  qed
  then show ?thesis using assms by (metis pt_inv_def set_mset_mset set_mset_union)
qed

text \<open>C22. In every state the allocator can reach with at most \<open>2^32\<close> physical blocks (the range of the
  C++ \<open>int\<close> block id), no block is held by two sequences, no block is both free and held, no block is
  held twice by one sequence, and no physical block is lost.\<close>

theorem exclusive_block_ownership:
  assumes "pt_reachable bs nb pt" "nb \<le> 2 ^ 32"
  shows "distinct (free_blocks pt) \<and> (\<forall>i. distinct (blocks_of pt i))
    \<and> (\<forall>i. set (blocks_of pt i) \<inter> set (free_blocks pt) = {})
    \<and> (\<forall>i j. i \<noteq> j \<longrightarrow> set (blocks_of pt i) \<inter> set (blocks_of pt j) = {})
    \<and> set (free_blocks pt) \<union> (\<Union>k. set (blocks_of pt k)) = word_of_nat ` {0..<nb}"
proof (intro conjI allI impI)
  have inv: "pt_inv pt" and nb: "num_blocks pt = nb" using pt_reachable_inv [OF assms(1)] by auto
  let ?all = "concat (map snd (tables pt))"
  have d: "distinct (free_blocks pt @ ?all)" using pt_inv_distinct inv nb assms(2) by simp
  then show "distinct (free_blocks pt)" by simp
  fix i
  show "set (blocks_of pt i) \<inter> set (free_blocks pt) = {}"
    using d blocks_of_subset [of pt i] by (auto simp del: set_concat)
  show "distinct (blocks_of pt i)"
  proof (cases "blocks_of pt i = []")
    case False
    then have "(i, blocks_of pt i) \<in> set (tables pt)"
      using blocks_of_in_table [of "hd (blocks_of pt i)"] by simp
    then have "blocks_of pt i \<in> set (map snd (tables pt))" by force
    with d show ?thesis by (auto simp: distinct_concat_iff)
  qed simp
  fix j assume "i \<noteq> j"
  then show "set (blocks_of pt i) \<inter> set (blocks_of pt j) = {}"
    using d distinct_concat_snd_same_key [of "tables pt" i "blocks_of pt i" j "blocks_of pt j"]
    by (auto dest: blocks_of_in_table)
next
  show "set (free_blocks pt) \<union> (\<Union>k. set (blocks_of pt k)) = word_of_nat ` {0..<nb}"
    using blocks_of_union pt_reachable_inv [OF assms(1)] by (simp add: physical_blocks_def)
qed


theorem exclusive_block_ownership_witness:
  "\<exists>pt. pt_reachable 4 3 pt \<and> blocks_of pt 7 = [0, 1] \<and> free_blocks pt = [2]
     \<and> (set (blocks_of pt 7) \<inter> set (blocks_of pt 8) = {})"
proof -
  let ?p0 = "\<lparr>block_size = 4, num_blocks = 3, free_blocks = [2, 1, 0], tables = []\<rparr>"
  let ?pt = "snd (ensure_capacity ?p0 7 5)"
  have "new_PagedKVCacheAllocator 4 3 = Inr ?p0"
    by (simp add: eval_simps)
  then have r: "pt_reachable 4 3 ?pt" by (intro pt_reachable.intros)
  have b: "blocks_of ?pt 7 = [0, 1]" "free_blocks ?pt = [2]"
    by (simp_all add: eval_simps)
  from exclusive_block_ownership [OF r] have "set (blocks_of ?pt 7) \<inter> set (blocks_of ?pt 8) = {}" by simp
  with r b show ?thesis by blast
qed

section \<open>Functional contract\<close>

text \<open>\<open>ensure_capacity\<close> succeeds exactly when the free blocks cover what the sequence lacks. On
  success the sequence keeps the blocks it had, gains only the missing ones, and these leave the free
  list; on failure neither the free list nor any sequence's blocks change. No other sequence is ever
  affected.\<close>

theorem ensure_capacity_contract:
  assumes inv: "pt_inv pt" and call: "ensure_capacity pt i tc = (ok, pt')"
  shows "(ok \<longleftrightarrow> blocks_needed_for pt tc \<le> length (blocks_of pt i) + free_block_count pt)
    \<and> (\<exists>new. blocks_of pt' i = blocks_of pt i @ new
          \<and> mset (free_blocks pt) = mset (free_blocks pt') + mset new
          \<and> length new = (if ok then blocks_needed_for pt tc - length (blocks_of pt i) else 0))
    \<and> (\<forall>j. j \<noteq> i \<longrightarrow> blocks_of pt' j = blocks_of pt j)
    \<and> pt_inv pt'"
proof (intro conjI allI impI)
  show "ok \<longleftrightarrow> blocks_needed_for pt tc \<le> length (blocks_of pt i) + free_block_count pt"
    using ensure_capacity_ok_iff [of pt i tc] call by simp
  show "\<exists>new. blocks_of pt' i = blocks_of pt i @ new
      \<and> mset (free_blocks pt) = mset (free_blocks pt') + mset new
      \<and> length new = (if ok then blocks_needed_for pt tc - length (blocks_of pt i) else 0)"
    using ensure_capacity_blocks_of_self [OF inv, of i tc] call by auto
  show "blocks_of pt' j = blocks_of pt j" if "j \<noteq> i" for j
    using ensure_capacity_blocks_of_other [OF inv that, of tc] call by simp
  show "pt_inv pt'" using ensure_capacity_inv [OF inv, of i tc] call by simp
qed

definition demo_pt :: PagedKVCacheAllocator where
  "demo_pt = \<lparr>block_size = 4, num_blocks = 3, free_blocks = [2], tables = [(7, [0, 1])]\<rparr>"

lemma demo_pt_inv: "pt_inv demo_pt"
  by (simp add: pt_inv_def demo_pt_def physical_blocks_def upt_rec)

theorem ensure_capacity_contract_witness:
  "pt_inv demo_pt \<and> ensure_capacity demo_pt 7 9 = (True, snd (ensure_capacity demo_pt 7 9))
     \<and> pt_inv (snd (ensure_capacity demo_pt 7 9)) \<and> blocks_of (snd (ensure_capacity demo_pt 7 9)) 7 = [0, 1, 2]"
proof -
  have e: "ensure_capacity demo_pt 7 9 = (True, snd (ensure_capacity demo_pt 7 9))"
    by (simp add: eval_simps demo_pt_def)
  have "blocks_of (snd (ensure_capacity demo_pt 7 9)) 7 = [0, 1, 2]"
    by (simp add: eval_simps demo_pt_def)
  with ensure_capacity_contract [OF demo_pt_inv e] demo_pt_inv e show ?thesis by blast
qed

text \<open>A sequence that grows (whether or not the request succeeds) and is then freed leaves the
  allocator as freeing it at once would: the same free blocks, nothing owned, every other sequence
  untouched; freeing twice, or freeing an unknown sequence, changes nothing.\<close>

theorem grow_then_free_roundtrip:
  assumes "pt_inv pt"
  shows "mset (free_blocks (free_sequence (snd (ensure_capacity pt i tc)) i))
           = mset (free_blocks (free_sequence pt i))
    \<and> (\<forall>j. blocks_of (free_sequence (snd (ensure_capacity pt i tc)) i) j = blocks_of (free_sequence pt i) j)
    \<and> blocks_of (free_sequence pt i) i = []
    \<and> free_sequence (free_sequence pt i) i = free_sequence pt i"
proof (intro conjI allI)
  obtain new where new: "blocks_of (snd (ensure_capacity pt i tc)) i = blocks_of pt i @ new"
    "mset (free_blocks pt) = mset (free_blocks (snd (ensure_capacity pt i tc))) + mset new"
    using ensure_capacity_blocks_of_self [OF assms] by blast
  then show "mset (free_blocks (free_sequence (snd (ensure_capacity pt i tc)) i))
      = mset (free_blocks (free_sequence pt i))"
    by (simp add: free_sequence_free_blocks ac_simps)
  show "blocks_of (free_sequence (snd (ensure_capacity pt i tc)) i) j = blocks_of (free_sequence pt i) j" for j
    using assms by (simp add: free_sequence_blocks_of ensure_capacity_inv ensure_capacity_blocks_of_other)
  show "blocks_of (free_sequence pt i) i = []" using assms by (simp add: free_sequence_blocks_of)
  have "map_of (tables (free_sequence pt i)) i = None"
    by (auto simp: free_sequence_def delete_conv' split: option.split)
  then show "free_sequence (free_sequence pt i) i = free_sequence pt i"
    by (subst free_sequence_def) simp
qed

theorem grow_then_free_roundtrip_witness:
  "pt_inv demo_pt \<and> free_sequence (free_sequence demo_pt 7) 7 = free_sequence demo_pt 7
     \<and> free_blocks (free_sequence (snd (ensure_capacity demo_pt 7 12)) 7) = [0, 1, 2]"
proof -
  have "free_blocks (free_sequence (snd (ensure_capacity demo_pt 7 12)) 7) = [0, 1, 2]"
    by (simp add: eval_simps demo_pt_def)
  with grow_then_free_roundtrip [OF demo_pt_inv] demo_pt_inv show ?thesis by blast
qed

section \<open>Fragmentation\<close>

lemma fragmentation_slots_eq:
  "fragmentation_slots bs counts tab (a, u) =
     (a + (\<Sum>(i, owned)\<leftarrow>tab. length owned * bs),
      u + (\<Sum>(i, owned)\<leftarrow>tab. case counts i of None \<Rightarrow> 0 | Some c \<Rightarrow> c))"
  by (induction tab arbitrary: a u) auto

lemma lazy_table_slots:
  assumes "\<And>i owned. (i, owned) \<in> set tab \<Longrightarrow>
      \<exists>n. counts i = Some n \<and> n \<le> length owned * bs \<and> length owned * bs < n + bs \<and> 0 < n"
  shows "(\<Sum>(i, owned)\<leftarrow>tab. case counts i of None \<Rightarrow> 0 | Some c \<Rightarrow> c) \<le> (\<Sum>(i, owned)\<leftarrow>tab. length owned * bs)"
    and "(\<Sum>(i, owned)\<leftarrow>tab. length owned * bs)
          \<le> (\<Sum>(i, owned)\<leftarrow>tab. case counts i of None \<Rightarrow> 0 | Some c \<Rightarrow> c) + length tab * (bs - 1)"
    and "length tab * bs \<le> (\<Sum>(i, owned)\<leftarrow>tab. length owned * bs)"
proof -
  have "(\<Sum>(i, owned)\<leftarrow>tab. case counts i of None \<Rightarrow> 0 | Some c \<Rightarrow> c) \<le> (\<Sum>(i, owned)\<leftarrow>tab. length owned * bs)
    \<and> (\<Sum>(i, owned)\<leftarrow>tab. length owned * bs)
          \<le> (\<Sum>(i, owned)\<leftarrow>tab. case counts i of None \<Rightarrow> 0 | Some c \<Rightarrow> c) + length tab * (bs - 1)
    \<and> length tab * bs \<le> (\<Sum>(i, owned)\<leftarrow>tab. length owned * bs)"
    using assms
  proof (induction tab)
    case (Cons p tab)
    obtain i owned where p: "p = (i, owned)" by (cases p)
    obtain n where n: "counts i = Some n" "n \<le> length owned * bs" "length owned * bs < n + bs" "0 < n"
      using Cons.prems [of i owned] p by auto
    then have "owned \<noteq> []" by auto
    then have "1 * bs \<le> length owned * bs" by (intro mult_right_mono) (simp_all add: Suc_leI)
    then have "bs \<le> length owned * bs" by simp
    moreover note Cons.IH [OF Cons.prems [OF list.set_intros(2)]]
    ultimately show ?case using n p by (auto intro: add_mono)
  qed simp
  then show "(\<Sum>(i, owned)\<leftarrow>tab. case counts i of None \<Rightarrow> 0 | Some c \<Rightarrow> c) \<le> (\<Sum>(i, owned)\<leftarrow>tab. length owned * bs)"
    "(\<Sum>(i, owned)\<leftarrow>tab. length owned * bs)
          \<le> (\<Sum>(i, owned)\<leftarrow>tab. case counts i of None \<Rightarrow> 0 | Some c \<Rightarrow> c) + length tab * (bs - 1)"
    "length tab * bs \<le> (\<Sum>(i, owned)\<leftarrow>tab. length owned * bs)" by auto
qed


text \<open>When every sequence in the table holds just the blocks its tokens need (what the allocator's
  lazy growth produces), the internal fragmentation ratio is between 0 and \<open>(B - 1) / B\<close> for block size
  \<open>B\<close>: at most \<open>B - 1\<close> slots of a sequence's last block are unused.\<close>

theorem internal_fragmentation_bounded:
  assumes "0 < block_size pt"
    and "\<forall>(i, owned) \<in> set (tables pt). \<exists>n. counts i = Some n \<and> 0 < n \<and> n + block_size pt \<le> 2 ^ 64
           \<and> length owned = blocks_needed_for pt n"
  shows "0 \<le> internal_fragmentation_ratio pt counts
    \<and> internal_fragmentation_ratio pt counts \<le> of_nat (block_size pt - 1) / of_nat (block_size pt)"
proof -
  let ?tab = "tables pt" and ?bs = "block_size pt"
  define A where "A = (\<Sum>(i, owned)\<leftarrow>?tab. length owned * ?bs)"
  define U where "U = (\<Sum>(i, owned)\<leftarrow>?tab. case counts i of None \<Rightarrow> 0 | Some c \<Rightarrow> c)"
  have lazy: "\<exists>n. counts i = Some n \<and> n \<le> length owned * ?bs \<and> length owned * ?bs < n + ?bs \<and> 0 < n"
    if "(i, owned) \<in> set ?tab" for i owned
    using assms(2) that blocks_needed_for_covers [OF assms(1)] by fastforce
  note slots = lazy_table_slots [of ?tab counts ?bs, OF lazy, folded A_def U_def]
  have ratio: "internal_fragmentation_ratio pt counts = (if A = 0 then 0 else 1 - of_nat U / of_nat A)"
    by (simp add: internal_fragmentation_ratio_def fragmentation_slots_eq A_def U_def)
  show ?thesis
  proof (cases "A = 0")
    case False
    have "?bs * (A - U) \<le> ?bs * (length ?tab * (?bs - 1))" using slots(2) by (intro mult_left_mono) auto
    also have "\<dots> = (length ?tab * ?bs) * (?bs - 1)" by simp
    also have "\<dots> \<le> A * (?bs - 1)" using slots(3) by (intro mult_right_mono) auto
    finally have "of_nat (?bs * (A - U)) \<le> (of_nat (A * (?bs - 1)) :: rat)" by (simp only: of_nat_le_iff)
    then have "of_nat ?bs * (of_nat A - of_nat U) \<le> (of_nat A * of_nat (?bs - 1) :: rat)"
      using slots(1) by (simp add: of_nat_diff)
    moreover have "1 - of_nat U / of_nat A = ((of_nat A - of_nat U) / of_nat A :: rat)"
      using False by (simp add: diff_divide_distrib)
    ultimately show ?thesis using False assms(1) slots(1)
      by (simp add: ratio divide_le_eq le_divide_eq field_simps)
  qed (simp add: ratio)
qed

theorem internal_fragmentation_bounded_witness:
  "0 < block_size demo_pt \<and> internal_fragmentation_ratio demo_pt [7 \<mapsto> 5] = 3 / 8
     \<and> internal_fragmentation_ratio demo_pt [7 \<mapsto> 5] \<le> of_nat (block_size demo_pt - 1) / of_nat (block_size demo_pt)"
proof -
  have "0 < block_size demo_pt" by (simp add: demo_pt_def)
  moreover have "\<forall>(i, owned) \<in> set (tables demo_pt). \<exists>n. [7 \<mapsto> 5] i = Some n \<and> 0 < n
      \<and> n + block_size demo_pt \<le> 2 ^ 64 \<and> length owned = blocks_needed_for demo_pt n"
    by (simp add: demo_pt_def eval_simps)
  moreover have "internal_fragmentation_ratio demo_pt [7 \<mapsto> 5] = 3 / 8"
    by (simp add: internal_fragmentation_ratio_def demo_pt_def)
  ultimately show ?thesis using internal_fragmentation_bounded by blast
qed

end
