(* ===== verification/Telemetry.thy ===== *)
theory Telemetry
  imports Ring_Buffer "HOL-Library.Sublist"
begin

text \<open>
  Latency telemetry (\<open>src/core/telemetry.hpp\<close>): the recorder the scheduler calls, the flusher that
  drains it, and the percentile summary.

  The process-wide singletons of \<open>TelemetryRecorder\<close> are the fields of a record. The doubles of a summary
  are the exact rationals they round; the rank \<open>ceil(p * n)\<close> is the same in doubles and in rationals for
  every \<open>n\<close> below \<open>2^45\<close>, because 0.95 and 0.99 round down by less than half a unit in the last place of
  any product that is an integer, and every other product is at least 1/100 away from one.
\<close>

section \<open>Model\<close>

datatype MetricKind = kTTFT | kInterToken

record MetricSample =
  seq_id :: u64
  kind :: MetricKind
  latency_ns :: u64

definition default_MetricSample :: MetricSample where
  "default_MetricSample = \<lparr>seq_id = 0, kind = kTTFT, latency_ns = 0\<rparr>"

record MetricStats =
  stat_count :: nat
  mean_ns :: rat
  p50_ns :: rat
  p95_ns :: rat
  p99_ns :: rat
  max_ns :: rat

record TelemetrySnapshot =
  ttft :: MetricStats
  inter_token :: MetricStats
  dropped_samples :: u64

definition to_double :: "u64 \<Rightarrow> rat" where
  "to_double v = of_nat (unat v)"

text \<open>The lambda of \<open>compute_stats\<close>, on the sorted vector.\<close>

definition pct :: "u64 list \<Rightarrow> rat \<Rightarrow> rat" where
  "pct sorted_ns p =
     (let n = length sorted_ns;
          idx = nat \<lceil>p * of_nat n\<rceil>;
          idx = (if idx = 0 then 1 else idx);
          idx = (if idx > n then n else idx)
      in to_double (sorted_ns ! (idx - 1)))"

text \<open>\<open>compute_stats\<close> sorts the vector it is given: the result is the summary and that vector.\<close>

definition compute_stats :: "u64 list \<Rightarrow> MetricStats \<times> u64 list" where
  "compute_stats latencies =
     (if length latencies = 0
      then (\<lparr>stat_count = 0, mean_ns = 0, p50_ns = 0, p95_ns = 0, p99_ns = 0, max_ns = 0\<rparr>, latencies)
      else let v = sort latencies;
               total = foldl (\<lambda>acc x. acc + to_double x) 0 v
           in (\<lparr>stat_count = length latencies, mean_ns = total / of_nat (length latencies),
                p50_ns = pct v (50 / 100), p95_ns = pct v (95 / 100), p99_ns = pct v (99 / 100),
                max_ns = to_double (last v)\<rparr>, v))"

subsection \<open>Recorder\<close>

record TelemetryRecorder =
  enabled :: bool
  dropped :: u64
  mring :: "MetricSample LockFreeRingBuffer"

definition initial_TelemetryRecorder :: TelemetryRecorder where
  "initial_TelemetryRecorder =
     \<lparr>enabled = True, dropped = 0, mring = new_LockFreeRingBuffer 65536 default_MetricSample\<rparr>"

definition set_enabled :: "TelemetryRecorder \<Rightarrow> bool \<Rightarrow> TelemetryRecorder" where
  "set_enabled r b = r\<lparr>enabled := b\<rparr>"

text \<open>\<open>latency.count()\<close> is a signed count of nanoseconds; the cast to \<open>uint64_t\<close> reduces it modulo
  \<open>2^64\<close>. \<open>None\<close> is a call that spins in \<open>try_push\<close>.\<close>

definition record_metric :: "TelemetryRecorder \<Rightarrow> u64 \<Rightarrow> MetricKind \<Rightarrow> int \<Rightarrow> TelemetryRecorder option" where
  "record_metric r i k latency =
     (if \<not> enabled r then Some r
      else case try_push (mring r) \<lparr>seq_id = i, kind = k, latency_ns = word_of_int latency\<rparr> of
             None \<Rightarrow> None
           | Some (ok, q) \<Rightarrow>
               (let r' = r\<lparr>mring := q\<rparr> in if ok then Some r' else Some (r'\<lparr>dropped := dropped r' + 1\<rparr>)))"

definition record_ttft :: "TelemetryRecorder \<Rightarrow> u64 \<Rightarrow> int \<Rightarrow> TelemetryRecorder option" where
  "record_ttft r i latency = record_metric r i kTTFT latency"

definition record_inter_token :: "TelemetryRecorder \<Rightarrow> u64 \<Rightarrow> int \<Rightarrow> TelemetryRecorder option" where
  "record_inter_token r i latency = record_metric r i kInterToken latency"

partial_function (option) discard_loop ::
    "MetricSample LockFreeRingBuffer \<Rightarrow> unit \<Rightarrow> (unit \<times> MetricSample LockFreeRingBuffer) option" where
  "discard_loop q u = (case try_pop q of None \<Rightarrow> None | Some (r, q') \<Rightarrow>
     (case r of None \<Rightarrow> Some (u, q') | Some x \<Rightarrow> discard_loop q' u))"

definition reset_for_testing :: "TelemetryRecorder \<Rightarrow> TelemetryRecorder option" where
  "reset_for_testing r =
     (case discard_loop (mring r) () of None \<Rightarrow> None | Some (_, q) \<Rightarrow> Some (r\<lparr>dropped := 0, mring := q\<rparr>))"

subsection \<open>Flusher\<close>

text \<open>\<open>joinable\<close> is whether \<open>thread_\<close> holds the background thread.\<close>

record TelemetryFlusher =
  running :: bool
  joinable :: bool
  ttft_ns :: "u64 list"
  inter_token_ns :: "u64 list"

definition new_TelemetryFlusher :: TelemetryFlusher where
  "new_TelemetryFlusher = \<lparr>running = False, joinable = False, ttft_ns = [], inter_token_ns = []\<rparr>"

definition store_sample :: "TelemetryFlusher \<Rightarrow> MetricSample \<Rightarrow> TelemetryFlusher" where
  "store_sample f s =
     (if kind s = kTTFT then f\<lparr>ttft_ns := ttft_ns f @ [latency_ns s]\<rparr>
      else f\<lparr>inter_token_ns := inter_token_ns f @ [latency_ns s]\<rparr>)"

partial_function (option) drain_loop ::
    "MetricSample LockFreeRingBuffer \<Rightarrow> TelemetryFlusher
       \<Rightarrow> (TelemetryFlusher \<times> MetricSample LockFreeRingBuffer) option" where
  "drain_loop q f = (case try_pop q of None \<Rightarrow> None | Some (r, q') \<Rightarrow>
     (case r of None \<Rightarrow> Some (f, q') | Some x \<Rightarrow> drain_loop q' (store_sample f x)))"

definition drain_once ::
    "TelemetryFlusher \<Rightarrow> TelemetryRecorder \<Rightarrow> (TelemetryFlusher \<times> TelemetryRecorder) option" where
  "drain_once f r =
     (case drain_loop (mring r) f of None \<Rightarrow> None | Some (f', q) \<Rightarrow> Some (f', r\<lparr>mring := q\<rparr>))"

definition start :: "TelemetryFlusher \<Rightarrow> TelemetryFlusher" where
  "start f = (if running f then f else f\<lparr>running := True, joinable := True\<rparr>)"

text \<open>\<open>stop\<close> at a moment when the background thread has left its last drain: the join returns and the
  final drain follows.\<close>

definition stop :: "TelemetryFlusher \<Rightarrow> TelemetryRecorder \<Rightarrow> (TelemetryFlusher \<times> TelemetryRecorder) option" where
  "stop f r = (if \<not> running f then Some (f, r) else drain_once (f\<lparr>running := False, joinable := False\<rparr>) r)"

definition delete_TelemetryFlusher :: "TelemetryFlusher \<Rightarrow> TelemetryRecorder \<Rightarrow> (TelemetryFlusher \<times> TelemetryRecorder) option" where
  "delete_TelemetryFlusher f r = stop f r"

definition snapshot :: "TelemetryFlusher \<Rightarrow> TelemetryRecorder \<Rightarrow> TelemetrySnapshot" where
  "snapshot f r =
     \<lparr>ttft = fst (compute_stats (ttft_ns f)), inter_token = fst (compute_stats (inter_token_ns f)),
      dropped_samples = dropped r\<rparr>"

text \<open>One evaluation of the loop of \<open>drain_once\<close>, the grain at which the background thread interleaves
  with the threads that record.\<close>

definition drain_step :: "TelemetryFlusher \<Rightarrow> TelemetryRecorder \<Rightarrow> (TelemetryFlusher \<times> TelemetryRecorder) option" where
  "drain_step f r = (case try_pop (mring r) of None \<Rightarrow> None | Some (x, q) \<Rightarrow>
     Some (case x of None \<Rightarrow> f | Some s \<Rightarrow> store_sample f s, r\<lparr>mring := q\<rparr>))"

section \<open>Recording and draining\<close>

definition tel_inv :: "TelemetryRecorder \<Rightarrow> bool" where
  "tel_inv r \<longleftrightarrow> ring_inv (mring r) \<and> capacity (mring r) = 65536"

lemma new_ring_facts:
  "capacity (new_LockFreeRingBuffer n d) = n" "ring_list (new_LockFreeRingBuffer n d) = []"
  by (simp_all add: capacity_def new_LockFreeRingBuffer_def ring_list_def ring_count_def)

lemma tel_inv_initial: "tel_inv initial_TelemetryRecorder" "ring_list (mring initial_TelemetryRecorder) = []"
  using ring_inv_new [of 16 default_MetricSample]
  by (simp_all add: tel_inv_def initial_TelemetryRecorder_def new_ring_facts)

text \<open>What a call of \<open>record\<close> does, from the contract of the queue it pushes into.\<close>

lemma record_metric_cases:
  assumes "tel_inv r"
  obtains (off) "\<not> enabled r" "record_metric r i k lat = Some r"
  | (kept) r' where "enabled r" "length (ring_list (mring r)) < 65536" "record_metric r i k lat = Some r'"
      "ring_list (mring r') = ring_list (mring r) @ [\<lparr>seq_id = i, kind = k, latency_ns = word_of_int lat\<rparr>]"
      "dropped r' = dropped r" "enabled r'" "tel_inv r'"
  | (full) r' where "enabled r" "length (ring_list (mring r)) = 65536" "record_metric r i k lat = Some r'"
      "ring_list (mring r') = ring_list (mring r)" "dropped r' = dropped r + 1" "enabled r'" "tel_inv r'"
proof (cases "enabled r")
  case False
  with off show ?thesis by (simp add: record_metric_def)
next
  case True
  have inv: "ring_inv (mring r)" and cap: "capacity (mring r) = 65536" using assms by (auto simp: tel_inv_def)
  obtain ok q where q: "try_push (mring r) \<lparr>seq_id = i, kind = k, latency_ns = word_of_int lat\<rparr> = Some (ok, q)"
    "ok \<longleftrightarrow> length (ring_list (mring r)) < capacity (mring r)" "ring_inv q"
    "ring_list q = (if ok then ring_list (mring r) @ [\<lparr>seq_id = i, kind = k, latency_ns = word_of_int lat\<rparr>]
       else ring_list (mring r))" "capacity q = capacity (mring r)"
    by (rule ring.push_result [OF inv])
  show ?thesis
  proof (cases ok)
    case ok: True
    show ?thesis by (rule kept [of "r\<lparr>mring := q\<rparr>"]) (use True q ok cap in \<open>simp_all add: record_metric_def tel_inv_def\<close>)
  next
    case notok: False
    have "length (ring_list (mring r)) = 65536" using notok q(2) cap ring.bounded [OF inv] by simp
    then show ?thesis
      by (intro full [of "r\<lparr>mring := q, dropped := dropped r + 1\<rparr>"])
        (use True q notok cap in \<open>simp_all add: record_metric_def tel_inv_def Let_def\<close>)
  qed
qed

lemma record_metric_total:
  "tel_inv r \<Longrightarrow> \<exists>r'. record_metric r i k lat = Some r' \<and> tel_inv r'"
  by (rule record_metric_cases [where r = r and i = i and k = k and lat = lat]) auto

lemma store_sample_foldl:
  "ttft_ns (foldl store_sample f ss) = ttft_ns f @ map latency_ns (filter (\<lambda>s. kind s = kTTFT) ss)"
  "inter_token_ns (foldl store_sample f ss) = inter_token_ns f @ map latency_ns (filter (\<lambda>s. kind s \<noteq> kTTFT) ss)"
  "running (foldl store_sample f ss) = running f" "joinable (foldl store_sample f ss) = joinable f"
  by (induction ss arbitrary: f) (simp_all add: store_sample_def)

lemma drain_once_result:
  assumes "tel_inv r"
  shows "\<exists>r'. drain_once f r = Some (foldl store_sample f (ring_list (mring r)), r') \<and> tel_inv r'
     \<and> ring_list (mring r') = [] \<and> enabled r' = enabled r \<and> dropped r' = dropped r"
proof -
  obtain q where "drain_loop (mring r) f = Some (foldl store_sample f (ring_list (mring r)), q)" "ring_inv q"
    "ring_list q = []" "capacity q = capacity (mring r)"
    using ring.drain_all [OF drain_loop.simps, of "mring r" f] assms by (auto simp: tel_inv_def)
  with assms show ?thesis by (simp add: drain_once_def tel_inv_def)
qed

lemma reset_for_testing_result:
  assumes "tel_inv r"
  shows "\<exists>r'. reset_for_testing r = Some r' \<and> tel_inv r' \<and> ring_list (mring r') = [] \<and> dropped r' = 0
     \<and> enabled r' = enabled r"
proof -
  obtain q where "discard_loop (mring r) () = Some ((), q)" "ring_inv q"
    "ring_list q = []" "capacity q = capacity (mring r)"
    using ring.drain_all [OF discard_loop.simps, of "mring r" "()"] assms by (auto simp: tel_inv_def)
  with assms show ?thesis by (simp add: reset_for_testing_def tel_inv_def)
qed

lemma drain_step_cases:
  assumes "tel_inv r"
  obtains (idle) "ring_list (mring r) = []" "drain_step f r = Some (f, r)"
  | (item) s ss r' where "ring_list (mring r) = s # ss" "drain_step f r = Some (store_sample f s, r')"
      "ring_list (mring r') = ss" "tel_inv r'" "enabled r' = enabled r" "dropped r' = dropped r"
proof (cases "ring_list (mring r)")
  case Nil
  with ring.pop_empty [of "mring r"] assms show ?thesis by (intro idle) (simp_all add: drain_step_def tel_inv_def)
next
  case (Cons s ss)
  obtain q where q: "try_pop (mring r) = Some (Some s, q)" "ring_inv q" "ring_list q = ss"
    "capacity q = capacity (mring r)"
    using ring.pop_item [OF _ Cons] assms by (auto simp: tel_inv_def)
  show ?thesis
    by (rule item [OF Cons, of "r\<lparr>mring := q\<rparr>"]) (use assms q in \<open>simp_all add: drain_step_def tel_inv_def\<close>)
qed

subsection \<open>Runs\<close>

text \<open>The telemetry of a running process. \<open>offered\<close> lists the samples passed to \<open>record\<close> while recording
  was enabled; the background thread takes single loop steps between the calls of the other threads. After
  \<open>reset_for_testing\<close> a new run begins, with a new flusher.\<close>

inductive tel_run :: "MetricSample list \<Rightarrow> TelemetryRecorder \<Rightarrow> TelemetryFlusher \<Rightarrow> bool" where
  init: "tel_run [] initial_TelemetryRecorder new_TelemetryFlusher"
| recorded: "tel_run off r f \<Longrightarrow> record_metric r i k lat = Some r' \<Longrightarrow>
    tel_run (if enabled r then off @ [\<lparr>seq_id = i, kind = k, latency_ns = word_of_int lat\<rparr>] else off) r' f"
| switched: "tel_run off r f \<Longrightarrow> tel_run off (set_enabled r b) f"
| started: "tel_run off r f \<Longrightarrow> tel_run off r (start f)"
| background: "tel_run off r f \<Longrightarrow> running f \<Longrightarrow> drain_step f r = Some (f', r') \<Longrightarrow> tel_run off r' f'"
| drained: "tel_run off r f \<Longrightarrow> drain_once f r = Some (f', r') \<Longrightarrow> tel_run off r' f'"
| stopped: "tel_run off r f \<Longrightarrow> stop f r = Some (f', r') \<Longrightarrow> tel_run off r' f'"
| was_reset: "tel_run off r f \<Longrightarrow> reset_for_testing r = Some r' \<Longrightarrow> tel_run [] r' new_TelemetryFlusher"

text \<open>The accounting invariant: \<open>kept\<close> is what was accepted, \<open>lost\<close> the number dropped.\<close>

definition accounted ::
    "MetricSample list \<Rightarrow> nat \<Rightarrow> TelemetryRecorder \<Rightarrow> TelemetryFlusher \<Rightarrow> bool" where
  "accounted kept lost r f \<longleftrightarrow> tel_inv r \<and> dropped r = word_of_nat lost
     \<and> map latency_ns (filter (\<lambda>s. kind s = kTTFT) kept)
         = ttft_ns f @ map latency_ns (filter (\<lambda>s. kind s = kTTFT) (ring_list (mring r)))
     \<and> map latency_ns (filter (\<lambda>s. kind s \<noteq> kTTFT) kept)
         = inter_token_ns f @ map latency_ns (filter (\<lambda>s. kind s \<noteq> kTTFT) (ring_list (mring r)))"

lemma accounted_drain:
  assumes "accounted kept lost r f" "tel_inv r'" "ring_list (mring r) = ss @ ring_list (mring r')"
    "dropped r' = dropped r" "ttft_ns f' = ttft_ns (foldl store_sample f ss)"
    "inter_token_ns f' = inter_token_ns (foldl store_sample f ss)"
  shows "accounted kept lost r' f'"
  using assms by (simp add: accounted_def store_sample_foldl)

lemma accounted_drain_once:
  assumes "accounted kept lost r f" "drain_once f r = Some (f', r')"
  shows "accounted kept lost r' f' \<and> ring_list (mring r') = []"
  using drain_once_result [of r f] assms
  by (auto simp: accounted_def store_sample_foldl)

lemma accounted_drain_step:
  assumes acc: "accounted kept lost r f" and d: "drain_step f r = Some (f', r')"
  shows "accounted kept lost r' f'"
proof -
  have inv: "tel_inv r" using acc by (simp add: accounted_def)
  show ?thesis
  proof (rule drain_step_cases [OF inv, of f])
    fix s ss r''
    assume "ring_list (mring r) = s # ss" "drain_step f r = Some (store_sample f s, r'')"
      "ring_list (mring r'') = ss" "tel_inv r''" "dropped r'' = dropped r"
    with d show ?thesis by (intro accounted_drain [OF acc, where ss = "[s]"]) auto
  qed (use d acc in auto)
qed

lemma accounted_stop:
  assumes "accounted kept lost r f" "stop f r = Some (f', r')"
  shows "accounted kept lost r' f'"
  using assms accounted_drain_once [of kept lost r "f\<lparr>running := False, joinable := False\<rparr>" f' r']
  by (auto simp: stop_def accounted_def split: if_splits)

text \<open>A sample offered while recording is enabled is either kept or counted as lost.\<close>

definition all_accounted :: "MetricSample list \<Rightarrow> TelemetryRecorder \<Rightarrow> TelemetryFlusher \<Rightarrow> bool" where
  "all_accounted off r f \<longleftrightarrow>
     (\<exists>kept lost. subseq kept off \<and> length kept + lost = length off \<and> accounted kept lost r f)"

lemma all_accounted_record:
  assumes acc: "all_accounted off r f" and rec: "record_metric r i k lat = Some r'"
  shows "all_accounted (if enabled r then off @ [\<lparr>seq_id = i, kind = k, latency_ns = word_of_int lat\<rparr>] else off) r' f"
proof -
  obtain kept lost where kl: "subseq kept off" "length kept + lost = length off" "accounted kept lost r f"
    using acc unfolding all_accounted_def by blast
  from kl(3) have inv: "tel_inv r" by (simp add: accounted_def)
  let ?s = "\<lparr>seq_id = i, kind = k, latency_ns = word_of_int lat\<rparr>"
  show ?thesis
  proof (rule record_metric_cases [OF inv, of i k lat])
    assume "\<not> enabled r" "record_metric r i k lat = Some r"
    with rec acc show ?thesis by simp
  next
    fix r'' assume new: "enabled r" "record_metric r i k lat = Some r''" "dropped r'' = dropped r"
      "ring_list (mring r'') = ring_list (mring r) @ [?s]" "tel_inv r''"
    have "subseq (kept @ [?s]) (off @ [?s])" using kl(1) by (simp add: list_emb_append_mono)
    moreover have "accounted (kept @ [?s]) lost r'' f" using kl(3) new by (simp add: accounted_def)
    ultimately show ?thesis using rec new kl(2) unfolding all_accounted_def
      by (intro exI [of _ "kept @ [?s]"] exI [of _ lost]) simp
  next
    fix r'' assume full: "enabled r" "record_metric r i k lat = Some r''" "dropped r'' = dropped r + 1"
      "ring_list (mring r'') = ring_list (mring r)" "tel_inv r''"
    have "accounted kept (Suc lost) r'' f" using kl(3) full by (simp add: accounted_def)
    with rec full kl show ?thesis unfolding all_accounted_def
      by (intro exI [of _ kept] exI [of _ "Suc lost"]) (simp add: list_emb_prefix)
  qed
qed

lemma all_accounted_cong:
  assumes "all_accounted off r f" "\<And>kept lost. accounted kept lost r f \<Longrightarrow> accounted kept lost r' f'"
  shows "all_accounted off r' f'"
  using assms unfolding all_accounted_def by blast

lemma all_accounted_fresh:
  "tel_inv r \<Longrightarrow> ring_list (mring r) = [] \<Longrightarrow> dropped r = 0 \<Longrightarrow> all_accounted [] r new_TelemetryFlusher"
  unfolding all_accounted_def by (intro exI [of _ "[]"] exI [of _ 0]) (simp add: accounted_def new_TelemetryFlusher_def)

lemma accounted_run: "tel_run off r f \<Longrightarrow> all_accounted off r f"
proof (induction rule: tel_run.induct)
  case init
  show ?case by (rule all_accounted_fresh) (simp_all add: tel_inv_initial, simp add: initial_TelemetryRecorder_def)
next
  case (switched off r f b)
  from switched.IH show ?case
    by (rule all_accounted_cong) (auto simp: accounted_def set_enabled_def tel_inv_def)
next
  case (started off r f)
  from started.IH show ?case by (rule all_accounted_cong) (auto simp: accounted_def start_def)
next
  case (recorded off r f i k lat r')
  then show ?case by (intro all_accounted_record)
next
  case (was_reset off r f r')
  then have "tel_inv r" by (auto simp: all_accounted_def accounted_def)
  from reset_for_testing_result [OF this] was_reset.hyps(2) show ?case by (intro all_accounted_fresh) auto
qed (auto elim: all_accounted_cong dest: accounted_drain_step accounted_drain_once accounted_stop)

section \<open>Percentiles\<close>

lemma last_sorted_eq_Max:
  fixes ys :: "'a :: linorder list"
  assumes "sorted ys" "ys \<noteq> []"
  shows "last ys = Max (set ys)"
  using assms by (induction ys) (auto simp: max_def intro: antisym split: if_splits)

lemma sorted_filter_le_nth:
  fixes ys :: "'a :: linorder list"
  assumes "sorted ys" "k < length ys"
  shows "Suc k \<le> length (filter (\<lambda>x. x \<le> ys ! k) ys)"
proof -
  have "\<forall>x \<in> set (take (Suc k) ys). x \<le> ys ! k"
    using assms sorted_nth_mono [OF assms(1) _ assms(2)] by (auto simp: in_set_conv_nth less_Suc_eq_le)
  then have "filter (\<lambda>x. x \<le> ys ! k) (take (Suc k) ys) = take (Suc k) ys" by (simp add: filter_id_conv)
  then have "length (filter (\<lambda>x. x \<le> ys ! k) (take (Suc k) ys)) = Suc k" using assms(2) by simp
  moreover have "filter (\<lambda>x. x \<le> ys ! k) ys
      = filter (\<lambda>x. x \<le> ys ! k) (take (Suc k) ys) @ filter (\<lambda>x. x \<le> ys ! k) (drop (Suc k) ys)"
    by (metis append_take_drop_id filter_append)
  ultimately show ?thesis by simp
qed

lemma sorted_filter_below_nth:
  fixes ys :: "'a :: linorder list"
  assumes "sorted ys" "k < length ys" "\<And>x. ys ! k \<le> x \<Longrightarrow> \<not> P x"
  shows "length (filter P ys) \<le> k"
proof -
  have "\<forall>x \<in> set (drop k ys). \<not> P x"
    using assms by (auto simp: in_set_conv_nth intro!: assms(3) sorted_nth_mono)
  then have "filter P (drop k ys) = []" by simp
  moreover have "filter P ys = filter P (take k ys) @ filter P (drop k ys)"
    by (metis append_take_drop_id filter_append)
  ultimately show ?thesis using length_filter_le [of P "take k ys"] by simp
qed

lemma length_filter_sort: "length (filter P (sort xs)) = length (filter P xs)"
  by (metis mset_filter mset_sort size_mset)

lemma to_double_le_iff [simp]: "to_double a \<le> to_double b \<longleftrightarrow> a \<le> b"
  unfolding to_double_def of_nat_le_iff word_le_nat_alt ..

definition rank :: "rat \<Rightarrow> nat \<Rightarrow> nat" where
  "rank p n = nat \<lceil>p * of_nat n\<rceil>"

lemma rank_bounds:
  assumes "0 < p" "p \<le> 1" "0 < n"
  shows "0 < rank p n" "rank p n \<le> n" "p * of_nat n \<le> of_nat (rank p n)" "of_nat (rank p n) < p * of_nat n + 1"
proof -
  have pos: "0 < p * of_nat n" using assms by simp
  then show "0 < rank p n" by (simp add: rank_def)
  have "p * of_nat n \<le> of_nat n" using assms mult_right_mono [of p 1 "of_nat n"] by simp
  then show "rank p n \<le> n" by (simp add: rank_def nat_le_iff ceiling_le_iff)
  have r: "of_nat (rank p n) = (of_int \<lceil>p * of_nat n\<rceil> :: rat)"
    using pos by (simp add: rank_def of_nat_nat)
  show "p * of_nat n \<le> of_nat (rank p n)" "of_nat (rank p n) < p * of_nat n + 1"
    unfolding r by linarith+
qed

lemma pct_rank:
  assumes "0 < p" "p \<le> 1" "v \<noteq> []"
  shows "pct v p = to_double (v ! (rank p (length v) - 1))"
  using rank_bounds [OF assms(1,2), of "length v"] assms(3) by (simp add: pct_def Let_def flip: rank_def)

lemma rank_mono: "p \<le> q \<Longrightarrow> rank p n \<le> rank q n"
  by (simp add: rank_def nat_mono ceiling_mono mult_right_mono)

lemma sum_doubles: "foldl (\<lambda>acc x. acc + to_double x) a xs = a + sum_list (map to_double xs)"
  by (induction xs arbitrary: a) (simp_all add: ac_simps)

lemma sum_list_between:
  fixes a b :: rat
  assumes "\<And>x. x \<in> set xs \<Longrightarrow> a \<le> f x \<and> f x \<le> b"
  shows "of_nat (length xs) * a \<le> sum_list (map f xs) \<and> sum_list (map f xs) \<le> of_nat (length xs) * b"
  using assms by (induction xs) (auto simp: algebra_simps add_mono)

section \<open>Properties\<close>

text \<open>C34. No sample is lost without being counted, duplicated or reordered: whatever the interleaving of
  recording threads with the background flusher, the samples offered while recording was enabled split
  into \<open>kept\<close> and \<open>lost\<close>; the drop counter is \<open>lost\<close> modulo \<open>2^64\<close>, and per metric the flushed latencies
  followed by those still in the ring are the kept ones, in the order they were offered.\<close>

theorem telemetry_accounting:
  assumes "tel_run off r f"
  shows "\<exists>kept lost. subseq kept off \<and> length kept + lost = length off \<and> dropped r = word_of_nat lost
     \<and> map latency_ns (filter (\<lambda>s. kind s = kTTFT) kept)
         = ttft_ns f @ map latency_ns (filter (\<lambda>s. kind s = kTTFT) (ring_list (mring r)))
     \<and> map latency_ns (filter (\<lambda>s. kind s \<noteq> kTTFT) kept)
         = inter_token_ns f @ map latency_ns (filter (\<lambda>s. kind s \<noteq> kTTFT) (ring_list (mring r)))"
  using accounted_run [OF assms] unfolding all_accounted_def accounted_def by blast

lemma tel_run_record:
  assumes "tel_run off r f" "enabled r"
  shows "\<exists>r'. tel_run (off @ [\<lparr>seq_id = i, kind = k, latency_ns = word_of_int lat\<rparr>]) r' f \<and> enabled r'"
proof -
  have inv: "tel_inv r" using accounted_run [OF assms(1)] by (auto simp: all_accounted_def accounted_def)
  obtain r' where r': "record_metric r i k lat = Some r'" "enabled r'"
    by (rule record_metric_cases [OF inv, of i k lat]) (use assms(2) in auto)
  from tel_run.recorded [OF assms(1) r'(1)] r'(2) assms(2) show ?thesis by auto
qed

lemma tel_run_two:
  "\<exists>r. tel_run [\<lparr>seq_id = 1, kind = kTTFT, latency_ns = 30\<rparr>, \<lparr>seq_id = 1, kind = kInterToken, latency_ns = 10\<rparr>]
     r (start new_TelemetryFlusher)"
proof -
  have "tel_run [] initial_TelemetryRecorder (start new_TelemetryFlusher)" by (intro tel_run.intros)
  moreover have "enabled initial_TelemetryRecorder" by (simp add: initial_TelemetryRecorder_def)
  ultimately obtain r1 where "tel_run [\<lparr>seq_id = 1, kind = kTTFT, latency_ns = 30\<rparr>] r1
      (start new_TelemetryFlusher)" "enabled r1"
    using tel_run_record [of "[]" _ _ 1 kTTFT 30] by fastforce
  then show ?thesis using tel_run_record [of _ r1 _ 1 kInterToken 10] by fastforce
qed

theorem telemetry_accounting_witness:
  "\<exists>r off. tel_run off r (start new_TelemetryFlusher) \<and> length off = 2
     \<and> (\<exists>kept lost. subseq kept off \<and> length kept + lost = 2 \<and> dropped r = word_of_nat lost)"
  using tel_run_two telemetry_accounting by (metis length_Cons list.size(3) numeral_2_eq_2)

lemma stop_accounts:
  assumes "tel_run off r f" "running f" "length off < 2 ^ 64"
  shows "\<exists>f' r'. stop f r = Some (f', r') \<and> \<not> running f' \<and> ring_list (mring r') = []
     \<and> stat_count (ttft (snapshot f' r')) + stat_count (inter_token (snapshot f' r'))
         + unat (dropped_samples (snapshot f' r')) = length off"
proof -
  obtain kept lost where kl: "length kept + lost = length off" "accounted kept lost r f"
    using accounted_run [OF assms(1)] unfolding all_accounted_def by blast
  let ?f = "f\<lparr>running := False, joinable := False\<rparr>"
  have acc: "accounted kept lost r ?f" using kl(2) by (simp add: accounted_def)
  then obtain r' where r': "drain_once ?f r = Some (foldl store_sample ?f (ring_list (mring r)), r')"
    using drain_once_result [of r ?f] by (auto simp: accounted_def)
  let ?f' = "foldl store_sample ?f (ring_list (mring r))"
  have drained: "accounted kept lost r' ?f'" "ring_list (mring r') = []"
    using accounted_drain_once [OF acc r'] by auto
  have counts: "stat_count (fst (compute_stats xs)) = length xs" for xs
    by (simp add: compute_stats_def Let_def)
  have "length (ttft_ns ?f') + length (inter_token_ns ?f') = length kept"
    using drained sum_length_filter_compl [of "\<lambda>s. kind s = kTTFT" kept]
    by (metis (no_types, lifting) accounted_def append_Nil2 filter.simps(1) length_map list.simps(8))
  moreover have "unat (dropped r') = lost" using drained(1) kl(1) assms(3) by (simp add: accounted_def)
  ultimately have "stat_count (ttft (snapshot ?f' r')) + stat_count (inter_token (snapshot ?f' r'))
      + unat (dropped_samples (snapshot ?f' r')) = length off"
    using kl(1) by (simp add: snapshot_def counts)
  moreover have "stop f r = Some (?f', r')" using assms(2) r' by (simp add: stop_def)
  ultimately show ?thesis using drained(2) by (intro exI [of _ ?f'] exI [of _ r']) (simp add: store_sample_foldl)
qed

text \<open>Stopping a running flusher returns with an empty ring, so a snapshot taken then is complete: the
  sample counts of the two metrics and the drop count add up to the number of samples offered while
  recording was enabled.\<close>

theorem stop_snapshot_complete:
  assumes "tel_run off r f" "running f" "length off < 2 ^ 64"
  shows "\<exists>f' r'. stop f r = Some (f', r') \<and> \<not> running f' \<and> ring_list (mring r') = []
     \<and> stat_count (ttft (snapshot f' r')) + stat_count (inter_token (snapshot f' r'))
         + unat (dropped_samples (snapshot f' r')) = length off"
  by (rule stop_accounts [OF assms])

theorem stop_snapshot_complete_witness:
  "\<exists>r f' r'. stop (start new_TelemetryFlusher) r = Some (f', r')
     \<and> stat_count (ttft (snapshot f' r')) + stat_count (inter_token (snapshot f' r'))
         + unat (dropped_samples (snapshot f' r')) = 2"
proof -
  obtain r where r: "tel_run [\<lparr>seq_id = 1, kind = kTTFT, latency_ns = 30\<rparr>,
      \<lparr>seq_id = 1, kind = kInterToken, latency_ns = 10\<rparr>] r (start new_TelemetryFlusher)"
    using tel_run_two by blast
  have "running (start new_TelemetryFlusher)" by (simp add: start_def new_TelemetryFlusher_def)
  with stop_snapshot_complete [OF r] show ?thesis by fastforce
qed

text \<open>The reported percentile is the nearest-rank percentile: it is one of the samples, at least a
  fraction \<open>p\<close> of the samples are at or below it, and no smaller value has that property.\<close>

theorem percentile_is_nearest_rank:
  assumes "xs \<noteq> []" "0 < p" "p \<le> 1"
  shows "pct (sort xs) p \<in> to_double ` set xs
     \<and> p * of_nat (length xs) \<le> of_nat (length (filter (\<lambda>x. to_double x \<le> pct (sort xs) p) xs))
     \<and> (\<forall>w < pct (sort xs) p. of_nat (length (filter (\<lambda>x. to_double x \<le> w) xs)) < p * of_nat (length xs))"
proof -
  let ?ys = "sort xs" and ?k = "rank p (length xs) - 1"
  note r = rank_bounds [OF assms(2,3), of "length xs"]
  have k: "?k < length ?ys" "Suc ?k = rank p (length xs)" using r(1,2) assms(1) by auto
  have "?ys \<noteq> []" using assms(1) by (metis set_empty set_sort)
  then have v: "pct ?ys p = to_double (?ys ! ?k)" using pct_rank [OF assms(2,3), of ?ys] by simp
  have "?ys ! ?k \<in> set xs" using k(1) by (metis nth_mem set_sort)
  moreover have "of_nat (rank p (length xs)) \<le> (of_nat (length (filter (\<lambda>x. x \<le> ?ys ! ?k) xs)) :: rat)"
    using sorted_filter_le_nth [OF _ k(1)] k(2) by (simp add: length_filter_sort)
  moreover have "of_nat (length (filter (\<lambda>x. to_double x \<le> w) xs)) < p * of_nat (length xs)"
    if "w < to_double (?ys ! ?k)" for w
  proof -
    have "length (filter (\<lambda>x. to_double x \<le> w) ?ys) \<le> ?k"
    proof (rule sorted_filter_below_nth [OF _ k(1)])
      show "\<not> to_double x \<le> w" if "?ys ! ?k \<le> x" for x
        using that \<open>w < _\<close> to_double_le_iff [of "?ys ! ?k" x] by linarith
    qed simp
    then have "of_nat (length (filter (\<lambda>x. to_double x \<le> w) xs)) + 1 \<le> (of_nat (rank p (length xs)) :: rat)"
      using k(2) by (simp add: length_filter_sort flip: of_nat_Suc)
    with r(4) assms(1) show ?thesis by simp
  qed
  ultimately show ?thesis using r(3) assms(1) by (auto simp: v)
qed

lemma ceiling_evals [eval_simps]:
  "\<lceil>57 / 20 :: rat\<rceil> = 3" "\<lceil>3 / 2 :: rat\<rceil> = 2" "\<lceil>297 / 100 :: rat\<rceil> = 3"
  by (simp_all add: ceiling_eq_iff)

theorem percentile_is_nearest_rank_witness:
  "pct (sort [30, 10, 20]) (95 / 100) = 30
     \<and> of_nat (length (filter (\<lambda>x. to_double x \<le> 29) [30, 10, 20])) < (95 / 100 :: rat) * 3"
proof -
  have p: "pct (sort [30, 10, 20]) (95 / 100) = 30" by (simp add: pct_def to_double_def eval_simps)
  have c: "[30, 10, 20] \<noteq> ([] :: u64 list)" "(0 :: rat) < 95 / 100" "95 / 100 \<le> (1 :: rat)" by simp_all
  have "\<forall>w < 30. of_nat (length (filter (\<lambda>x. to_double x \<le> w) [30, 10, 20])) < (95 / 100 :: rat) * of_nat (length [30 :: u64, 10, 20])"
    using percentile_is_nearest_rank [OF c] unfolding p by blast
  from spec [OF this, of 29] p show ?thesis by simp
qed

text \<open>A summary is consistent: it counts its samples, the median, the 95th and the 99th percentile
  are in this order and at most the maximum, the mean lies between the least and the greatest sample,
  and the maximum is the greatest sample.\<close>

theorem summary_consistent:
  assumes "xs \<noteq> []"
  shows "let s = fst (compute_stats xs) in
    stat_count s = length xs \<and> p50_ns s \<le> p95_ns s \<and> p95_ns s \<le> p99_ns s \<and> p99_ns s \<le> max_ns s
    \<and> to_double (Min (set xs)) \<le> p50_ns s \<and> max_ns s = to_double (Max (set xs))
    \<and> to_double (Min (set xs)) \<le> mean_ns s \<and> mean_ns s \<le> max_ns s"
proof -
  let ?ys = "sort xs" and ?n = "length xs"
  have ys: "?ys \<noteq> []" "sorted ?ys" using assms by (metis set_empty set_sort, simp)
  have last: "last ?ys = Max (set xs)" using last_sorted_eq_Max [OF ys(2,1)] by simp
  have pc: "pct ?ys p = to_double (?ys ! (rank p ?n - 1))" "rank p ?n - 1 < length ?ys"
    if "0 < p" "p \<le> 1" for p
    using pct_rank [OF that ys(1)] rank_bounds [OF that, of ?n] assms by auto
  have mono: "pct ?ys p \<le> pct ?ys q" if "0 < p" "p \<le> q" "q \<le> 1" for p q
    using that ys pc [of p] pc [of q] rank_mono [of p q ?n] by (auto intro: sorted_nth_mono diff_le_mono)
  have ends: "to_double (Min (set xs)) \<le> pct ?ys p \<and> pct ?ys p \<le> to_double (Max (set xs))" if "0 < p" "p \<le> 1" for p
    using pc [OF that] nth_mem [of "rank p ?n - 1" ?ys] by simp
  have "to_double (Min (set xs)) \<le> sum_list (map to_double ?ys) / of_nat ?n
      \<and> sum_list (map to_double ?ys) / of_nat ?n \<le> to_double (Max (set xs))"
    using sum_list_between [of ?ys "to_double (Min (set xs))" to_double "to_double (Max (set xs))"] assms
    by (simp add: le_divide_eq divide_le_eq ac_simps)
  with mono [of "1/2" "95/100"] mono [of "95/100" "99/100"] ends [of "99/100"] ends [of "1/2"] assms
  show ?thesis by (simp add: compute_stats_def Let_def sum_doubles last)
qed

theorem summary_consistent_witness:
  "p50_ns (fst (compute_stats [30, 10, 20])) = 20 \<and> mean_ns (fst (compute_stats [30, 10, 20])) = 20
     \<and> p50_ns (fst (compute_stats [30, 10, 20])) \<le> p95_ns (fst (compute_stats [30, 10, 20]))"
  using summary_consistent [of "[30, 10, 20]"]
  by (simp add: compute_stats_def pct_def to_double_def eval_simps)

end
