(* ===== verification/Scheduler.thy ===== *)
theory Scheduler
  imports Page_Table Sequence Telemetry
begin

text \<open>
  The iteration-level scheduler (\<open>src/core/scheduler.hpp\<close>): the waiting queue, the active list, and
  \<open>step\<close> with its three loops (decode, prefill of active sequences, admission).

  The scheduler's state holds the page table it references, the process-wide telemetry recorder it calls,
  and the number of times \<open>steady_clock::now\<close> was read; the clock itself is the parameter \<open>clk\<close>, about
  which nothing is assumed. A sequence is reached only through the scheduler once it is admitted, so the
  \<open>shared_ptr\<close>s of the two queues are the sequences themselves. A loop over \<open>active_\<close> carries the visited
  part \<open>vis\<close> and the rest of the list.
\<close>

section \<open>Model\<close>

record StepResult =
  result_id :: u64
  was_prefill_chunk :: bool
  tokens_processed :: nat
  phase_after :: SequencePhase

record SchedulerConfig =
  max_batch_tokens :: nat
  max_prefill_chunk :: nat

record ContinuousBatchingScheduler =
  config :: SchedulerConfig
  page_table :: PagedKVCacheAllocator
  waiting :: "Sequence list"
  active :: "Sequence list"
  recorder :: TelemetryRecorder
  clock_reads :: nat

definition new_ContinuousBatchingScheduler ::
    "SchedulerConfig \<Rightarrow> PagedKVCacheAllocator \<Rightarrow> TelemetryRecorder \<Rightarrow> ContinuousBatchingScheduler" where
  "new_ContinuousBatchingScheduler cfg pt tr =
     \<lparr>config = cfg, page_table = pt, waiting = [], active = [], recorder = tr, clock_reads = 0\<rparr>"

definition admit :: "ContinuousBatchingScheduler \<Rightarrow> Sequence \<Rightarrow> ContinuousBatchingScheduler" where
  "admit st s = st\<lparr>waiting := waiting st @ [s]\<rparr>"

definition num_waiting :: "ContinuousBatchingScheduler \<Rightarrow> nat" where
  "num_waiting st = length (waiting st)"

definition num_active :: "ContinuousBatchingScheduler \<Rightarrow> nat" where
  "num_active st = length (active st)"

definition kPlaceholderToken :: u32 where
  "kPlaceholderToken = 0xFFFFFFFF"

definition record_latency :: "TelemetryRecorder \<Rightarrow> Sequence \<Rightarrow> int \<Rightarrow> TelemetryRecorder option" where
  "record_latency tr s now =
     (if generated_tokens s = [] then record_ttft tr (sid s) (now - admitted_at s)
      else record_inter_token tr (sid s) (now - last_decode_at s))"

text \<open>The body of the decode loop for one sequence in phase DECODE: the sequence that stays in the list
  (\<open>None\<close> when it is erased), the remaining budget, the state, the results.\<close>

definition decode_body ::
    "(nat \<Rightarrow> int) \<Rightarrow> Sequence \<Rightarrow> nat \<Rightarrow> ContinuousBatchingScheduler \<Rightarrow> StepResult list
       \<Rightarrow> cpp_exn + (Sequence option \<times> nat \<times> ContinuousBatchingScheduler \<times> StepResult list)" where
  "decode_body clk s budget st res =
     (let (ok, pt) = ensure_capacity (page_table st) (sid s) (total_tokens s + 1);
          st1 = st\<lparr>page_table := pt\<rparr>
      in if \<not> ok then Inr (Some s, budget, st1, res)
         else let now = clk (clock_reads st1);
                  st2 = st1\<lparr>clock_reads := clock_reads st1 + 1\<rparr>
              in case of_spin (record_latency (recorder st2) s now) of
                   Inl e \<Rightarrow> Inl e
                 | Inr tr \<Rightarrow>
                     (let st3 = st2\<lparr>recorder := tr\<rparr>;
                          s1 = s\<lparr>last_decode_at := now,
                                 generated_tokens := generated_tokens s @ [kPlaceholderToken]\<rparr>
                      in if length (generated_tokens s1) \<ge> unat (max_new_tokens s1)
                         then (case transition_to s1 FINISHED of
                                 Inl e \<Rightarrow> Inl e
                               | Inr s2 \<Rightarrow>
                                   Inr (None, budget - 1,
                                     st3\<lparr>page_table := free_sequence (page_table st3) (sid s2)\<rparr>,
                                     res @ [\<lparr>result_id = sid s2, was_prefill_chunk = False,
                                             tokens_processed = 1, phase_after = phase s2\<rparr>]))
                         else Inr (Some s1, budget - 1, st3,
                                   res @ [\<lparr>result_id = sid s1, was_prefill_chunk = False,
                                           tokens_processed = 1, phase_after = phase s1\<rparr>])))"

fun decode_loop ::
    "(nat \<Rightarrow> int) \<Rightarrow> Sequence list \<Rightarrow> Sequence list \<Rightarrow> nat \<Rightarrow> ContinuousBatchingScheduler \<Rightarrow> StepResult list
       \<Rightarrow> cpp_exn + (nat \<times> ContinuousBatchingScheduler \<times> StepResult list)" where
  "decode_loop clk vis [] budget st res = Inr (budget, st\<lparr>active := vis\<rparr>, res)"
| "decode_loop clk vis (s # rest) budget st res =
     (if budget = 0 then Inr (budget, st\<lparr>active := vis @ s # rest\<rparr>, res)
      else if phase s = DECODE
      then (case decode_body clk s budget st res of
              Inl e \<Rightarrow> Inl e
            | Inr (keep, budget', st', res') \<Rightarrow>
                decode_loop clk (case keep of None \<Rightarrow> vis | Some s' \<Rightarrow> vis @ [s']) rest budget' st' res')
      else decode_loop clk (vis @ [s]) rest budget st res)"

definition do_prefill_chunk ::
    "SchedulerConfig \<Rightarrow> PagedKVCacheAllocator \<Rightarrow> Sequence \<Rightarrow> nat
       \<Rightarrow> cpp_exn + (nat \<times> Sequence \<times> PagedKVCacheAllocator)" where
  "do_prefill_chunk cfg pt s budget =
     (if prefill_complete s
      then (case transition_to s DECODE of Inl e \<Rightarrow> Inl e | Inr s' \<Rightarrow> Inr (0, s', pt))
      else let remaining_prompt = length (prompt_tokens s) - prefill_cursor s;
               chunk = min (min remaining_prompt (max_prefill_chunk cfg)) budget
           in if chunk = 0 then Inr (0, s, pt)
              else let (ok, pt') = ensure_capacity pt (sid s) (prefill_cursor s + chunk)
                   in if \<not> ok then Inr (0, s, pt')
                      else let s1 = s\<lparr>prefill_cursor := prefill_cursor s + chunk\<rparr>
                           in if prefill_complete s1
                              then (case transition_to s1 DECODE of
                                      Inl e \<Rightarrow> Inl e
                                    | Inr s2 \<Rightarrow> Inr (chunk, s2, pt'))
                              else Inr (chunk, s1, pt'))"

fun prefill_loop ::
    "Sequence list \<Rightarrow> Sequence list \<Rightarrow> nat \<Rightarrow> ContinuousBatchingScheduler \<Rightarrow> StepResult list
       \<Rightarrow> cpp_exn + (nat \<times> ContinuousBatchingScheduler \<times> StepResult list)" where
  "prefill_loop vis [] budget st res = Inr (budget, st\<lparr>active := vis\<rparr>, res)"
| "prefill_loop vis (s # rest) budget st res =
     (if budget = 0 then Inr (budget, st\<lparr>active := vis @ s # rest\<rparr>, res)
      else if phase s \<noteq> PREFILL then prefill_loop (vis @ [s]) rest budget st res
      else case do_prefill_chunk (config st) (page_table st) s budget of
             Inl e \<Rightarrow> Inl e
           | Inr (chunk, s', pt) \<Rightarrow>
               prefill_loop (vis @ [s']) rest (if chunk > 0 then budget - chunk else budget)
                 (st\<lparr>page_table := pt\<rparr>)
                 (if chunk > 0
                  then res @ [\<lparr>result_id = sid s', was_prefill_chunk = True, tokens_processed = chunk,
                               phase_after = phase s'\<rparr>]
                  else res))"

text \<open>The admission loop runs over the waiting queue, given as its last list argument.\<close>

fun admission_loop ::
    "Sequence list \<Rightarrow> nat \<Rightarrow> ContinuousBatchingScheduler \<Rightarrow> StepResult list
       \<Rightarrow> cpp_exn + (nat \<times> ContinuousBatchingScheduler \<times> StepResult list)" where
  "admission_loop [] budget st res = Inr (budget, st\<lparr>waiting := []\<rparr>, res)"
| "admission_loop (s # ws) budget st res =
     (if budget = 0 then Inr (budget, st\<lparr>waiting := s # ws\<rparr>, res)
      else case do_prefill_chunk (config st) (page_table st) s budget of
             Inl e \<Rightarrow> Inl e
           | Inr (chunk, s', pt) \<Rightarrow>
               if chunk = 0 then Inr (budget, st\<lparr>page_table := pt, waiting := s' # ws\<rparr>, res)
               else admission_loop ws (budget - chunk)
                      (st\<lparr>page_table := pt, waiting := ws, active := active st @ [s']\<rparr>)
                      (res @ [\<lparr>result_id = sid s', was_prefill_chunk = True, tokens_processed = chunk,
                               phase_after = phase s'\<rparr>]))"

definition step ::
    "(nat \<Rightarrow> int) \<Rightarrow> ContinuousBatchingScheduler \<Rightarrow> cpp_exn + (StepResult list \<times> ContinuousBatchingScheduler)" where
  "step clk st =
     (case decode_loop clk [] (active st) (max_batch_tokens (config st)) st [] of
        Inl e \<Rightarrow> Inl e
      | Inr (b1, st1, res1) \<Rightarrow>
          (case prefill_loop [] (active st1) b1 st1 res1 of
             Inl e \<Rightarrow> Inl e
           | Inr (b2, st2, res2) \<Rightarrow>
               (case admission_loop (waiting st2) b2 st2 res2 of
                  Inl e \<Rightarrow> Inl e
                | Inr (b3, st3, res3) \<Rightarrow> Inr (res3, st3))))"

section \<open>Invariant\<close>

text \<open>The tokens whose keys and values a sequence has stored.\<close>

definition kv_tokens :: "Sequence \<Rightarrow> nat" where
  "kv_tokens s = prefill_cursor s + length (generated_tokens s)"

definition max_tokens :: "Sequence \<Rightarrow> nat" where
  "max_tokens s = length (prompt_tokens s) + max 1 (unat (max_new_tokens s))"

definition active_ok :: "Sequence \<Rightarrow> bool" where
  "active_ok s \<longleftrightarrow>
     phase s = PREFILL \<and> prefill_cursor s < length (prompt_tokens s) \<and> generated_tokens s = []
   \<or> phase s = DECODE \<and> prefill_cursor s = length (prompt_tokens s)
       \<and> length (generated_tokens s) < max 1 (unat (max_new_tokens s))"

text \<open>A waiting sequence is untouched, except that an empty prompt at the head was turned to DECODE.\<close>

definition waiting_ok :: "Sequence \<Rightarrow> bool" where
  "waiting_ok s \<longleftrightarrow> prefill_cursor s = 0 \<and> generated_tokens s = []
     \<and> (phase s = PREFILL \<or> phase s = DECODE \<and> prompt_tokens s = [])"

text \<open>Every active sequence owns exactly the blocks its stored tokens need, nobody else owns any.\<close>

definition mem_ok :: "PagedKVCacheAllocator \<Rightarrow> Sequence list \<Rightarrow> bool" where
  "mem_ok pt seqs \<longleftrightarrow>
     (\<forall>s \<in> set seqs. 0 < kv_tokens s \<and> owned_count pt (sid s) = blocks_needed_for pt (kv_tokens s))
   \<and> (\<forall>i. i \<notin> sid ` set seqs \<longrightarrow> owned_count pt i = 0)"

text \<open>The invariant while a loop runs: \<open>seqs\<close> is the current active list, \<open>ws\<close> the waiting queue.\<close>

definition loop_inv :: "PagedKVCacheAllocator \<Rightarrow> TelemetryRecorder \<Rightarrow> Sequence list \<Rightarrow> Sequence list \<Rightarrow> bool" where
  "loop_inv pt tr seqs ws \<longleftrightarrow> pt_inv pt \<and> tel_inv tr \<and> distinct (map sid (seqs @ ws))
     \<and> (\<forall>s \<in> set seqs. active_ok s) \<and> (\<forall>s \<in> set ws. waiting_ok s)
     \<and> (\<forall>s \<in> set (seqs @ ws). max_tokens s + block_size pt \<le> 2 ^ 64) \<and> mem_ok pt seqs"

definition sched_inv :: "ContinuousBatchingScheduler \<Rightarrow> bool" where
  "sched_inv st \<longleftrightarrow> loop_inv (page_table st) (recorder st) (active st) (waiting st)"

lemma loop_inv_mid: "loop_inv pt tr (vis @ s # rest) ws \<longleftrightarrow> loop_inv pt tr (s # vis @ rest) ws"
  by (auto simp: loop_inv_def mem_ok_def)

lemma loop_invD:
  assumes "loop_inv pt tr (s # seqs) ws"
  shows "pt_inv pt" "tel_inv tr" "active_ok s" "0 < kv_tokens s" "max_tokens s + block_size pt \<le> 2 ^ 64"
    "owned_count pt (sid s) = blocks_needed_for pt (kv_tokens s)" "0 < block_size pt"
    "sid s \<notin> sid ` set seqs" "sid s \<notin> sid ` set ws"
  using assms by (auto simp: loop_inv_def mem_ok_def pt_inv_def)

lemma loop_inv_recorder: "loop_inv pt tr seqs ws \<Longrightarrow> tel_inv tr' \<Longrightarrow> loop_inv pt tr' seqs ws"
  by (simp add: loop_inv_def)

text \<open>A request for more blocks: refused, it changes no ownership; granted, the sequence owns what its
  new token count needs.\<close>

lemma loop_inv_refused:
  assumes "loop_inv pt tr seqs ws" "ensure_capacity pt i n = (False, pt')"
  shows "loop_inv pt' tr seqs ws"
proof -
  have inv: "pt_inv pt" using assms(1) by (simp add: loop_inv_def)
  have pt': "pt' = snd (ensure_capacity pt i n)" "\<not> fst (ensure_capacity pt i n)" using assms(2) by simp_all
  show ?thesis using assms(1) inv pt'(2)
    by (simp add: loop_inv_def mem_ok_def pt'(1) pt.alloc_specs frame_simps)
qed

lemma mem_ok_add:
  assumes "mem_ok pt seqs \<or> mem_ok pt (s # seqs)" "sid s \<notin> sid ` set seqs" "sid s' = sid s" "0 < kv_tokens s'"
    and own: "\<And>j. owned_count pt' j = (if j = sid s then blocks_needed_for pt (kv_tokens s') else owned_count pt j)"
    and need: "\<And>n. blocks_needed_for pt' n = blocks_needed_for pt n"
  shows "mem_ok pt' (s' # seqs)"
proof -
  have "sid t \<noteq> sid s" if "t \<in> set seqs" for t using assms(2) that by (metis imageI)
  with assms(1,3,4) show ?thesis by (auto simp: mem_ok_def own need)
qed

lemma loop_inv_granted:
  assumes inv: "loop_inv pt tr (s # seqs) ws" and call: "ensure_capacity pt (sid s) n = (True, pt')"
    and n: "kv_tokens s \<le> n" "n + block_size pt \<le> 2 ^ 64"
    and s': "sid s' = sid s" "kv_tokens s' = n" "active_ok s'" "max_tokens s' = max_tokens s"
  shows "loop_inv pt' tr (s' # seqs) ws"
proof -
  note d = loop_invD [OF inv]
  have pt': "pt' = snd (ensure_capacity pt (sid s) n)" "fst (ensure_capacity pt (sid s) n)" using call by simp_all
  have "blocks_needed_for pt (kv_tokens s) \<le> blocks_needed_for pt n"
    using d n by (intro blocks_needed_for_mono) auto
  then have own: "owned_count pt' j = (if j = sid s then blocks_needed_for pt n else owned_count pt j)" for j
    using d pt.ensure_owned [OF d(1), of "sid s" n j] pt'(2) by (auto simp: pt'(1))
  have "mem_ok pt' (s' # seqs)"
    by (rule mem_ok_add [of pt seqs s]) (use inv d n s' own in \<open>simp_all add: loop_inv_def pt'(1) pt.alloc_specs\<close>)
  with inv s' d(1) show ?thesis
    by (auto simp: loop_inv_def pt'(1) pt.alloc_specs frame_simps)
qed

lemma loop_inv_admitted:
  assumes inv: "loop_inv pt tr seqs (s # ws)" and call: "ensure_capacity pt (sid s) n = (True, pt')"
    and n: "0 < n"
    and s': "sid s' = sid s" "kv_tokens s' = n" "active_ok s'" "max_tokens s' = max_tokens s"
  shows "loop_inv pt' tr (s' # seqs) ws"
proof -
  have d: "pt_inv pt" "sid s \<notin> sid ` set seqs" "owned_count pt (sid s) = 0"
    using inv by (auto simp: loop_inv_def mem_ok_def)
  have pt': "pt' = snd (ensure_capacity pt (sid s) n)" "fst (ensure_capacity pt (sid s) n)" using call by simp_all
  have own: "owned_count pt' j = (if j = sid s then blocks_needed_for pt n else owned_count pt j)" for j
    using d pt.ensure_owned [OF d(1), of "sid s" n j] pt'(2) by (auto simp: pt'(1))
  have "mem_ok pt' (s' # seqs)"
    by (rule mem_ok_add [of pt seqs s]) (use inv d n s' own in \<open>simp_all add: loop_inv_def pt'(1) pt.alloc_specs\<close>)
  with inv s' d(1) show ?thesis
    by (auto simp: loop_inv_def pt'(1) pt.alloc_specs frame_simps)
qed

lemma loop_inv_released:
  assumes inv: "loop_inv pt tr (s # seqs) ws" and pt': "pt' = snd (ensure_capacity pt (sid s) n)"
  shows "loop_inv (free_sequence pt' (sid s)) tr seqs ws"
proof -
  note d = loop_invD [OF inv]
  have own: "owned_count (free_sequence pt' (sid s)) j = (if j = sid s then 0 else owned_count pt j)" for j
    using pt.release_owned [of pt' "sid s" j] pt.ensure_owned [OF d(1), of "sid s" n j] pt.invar_ensure [OF d(1)]
    by (simp add: pt')
  have "sid t \<noteq> sid s" if "t \<in> set seqs" for t using d(8) that by (metis imageI)
  then have "mem_ok (free_sequence pt' (sid s)) seqs"
    using inv unfolding loop_inv_def mem_ok_def own by (auto simp: pt' frame_simps)
  with inv d(1) show ?thesis by (auto simp: loop_inv_def pt' inv_intros frame_simps)
qed

section \<open>The loop bodies\<close>

definition decode_result :: "Sequence \<Rightarrow> SequencePhase \<Rightarrow> StepResult" where
  "decode_result s p = \<lparr>result_id = sid s, was_prefill_chunk = False, tokens_processed = 1, phase_after = p\<rparr>"

definition prefill_result :: "Sequence \<Rightarrow> nat \<Rightarrow> StepResult" where
  "prefill_result s n = \<lparr>result_id = sid s, was_prefill_chunk = True, tokens_processed = n, phase_after = phase s\<rparr>"

definition same_size :: "PagedKVCacheAllocator \<Rightarrow> PagedKVCacheAllocator \<Rightarrow> bool" where
  "same_size p q \<longleftrightarrow> num_blocks p = num_blocks q \<and> block_size p = block_size q"

lemma same_size_ensure: "ensure_capacity pt i n = (ok, pt') \<Longrightarrow> same_size pt' pt"
  using ensure_capacity_frame [of pt i n] by (simp add: same_size_def)

lemma same_size_free: "same_size (free_sequence pt i) q \<longleftrightarrow> same_size pt q"
  by (simp add: same_size_def frame_simps)

text \<open>Decoding one token of \<open>s\<close> at time \<open>now\<close>.\<close>

definition decoded :: "Sequence \<Rightarrow> int \<Rightarrow> Sequence" where
  "decoded s now = s\<lparr>last_decode_at := now, generated_tokens := generated_tokens s @ [kPlaceholderToken]\<rparr>"

lemma decoded_simps [simp]:
  "sid (decoded s now) = sid s" "phase (decoded s now) = phase s" "max_tokens (decoded s now) = max_tokens s"
  "prompt_tokens (decoded s now) = prompt_tokens s" "prefill_cursor (decoded s now) = prefill_cursor s"
  "length (generated_tokens (decoded s now)) = Suc (length (generated_tokens s))"
  "max_new_tokens (decoded s now) = max_new_tokens s" "kv_tokens (decoded s now) = Suc (kv_tokens s)"
  by (simp_all add: decoded_def kv_tokens_def max_tokens_def)

lemma record_latency_total: "tel_inv tr \<Longrightarrow> \<exists>tr'. record_latency tr s now = Some tr' \<and> tel_inv tr'"
  by (simp add: record_latency_def record_ttft_def record_inter_token_def record_metric_total)

text \<open>The three outcomes of decoding a sequence.\<close>

lemma decode_body_cases [consumes 2, case_names oom more finish]:
  assumes inv: "loop_inv (page_table st) (recorder st) (vis @ s # rest) ws" and ph: "phase s = DECODE"
  obtains (oom) pt where
      "\<not> fst (ensure_capacity (page_table st) (sid s) (kv_tokens s + 1))"
      "decode_body clk s b st res = Inr (Some s, b, st\<lparr>page_table := pt\<rparr>, res)"
      "loop_inv pt (recorder st) (vis @ s # rest) ws" "same_size pt (page_table st)"
  | (more) pt tr where "length (generated_tokens s) + 1 < unat (max_new_tokens s)"
      "decode_body clk s b st res =
         Inr (Some (decoded s (clk (clock_reads st))), b - 1,
              st\<lparr>page_table := pt, recorder := tr, clock_reads := clock_reads st + 1\<rparr>,
              res @ [decode_result s DECODE])"
      "loop_inv pt tr (vis @ decoded s (clk (clock_reads st)) # rest) ws" "same_size pt (page_table st)"
  | (finish) pt tr where "length (generated_tokens s) + 1 = max 1 (unat (max_new_tokens s))"
      "decode_body clk s b st res =
         Inr (None, b - 1, st\<lparr>page_table := pt, recorder := tr, clock_reads := clock_reads st + 1\<rparr>,
              res @ [decode_result s FINISHED])"
      "loop_inv pt tr (vis @ rest) ws" "owned_count pt (sid s) = 0" "same_size pt (page_table st)"
proof -
  let ?p = "page_table st" and ?now = "clk (clock_reads st)"
  have inv': "loop_inv ?p (recorder st) (s # vis @ rest) ws" using inv by (simp add: loop_inv_mid)
  note d = loop_invD [OF inv']
  have act: "prefill_cursor s = length (prompt_tokens s)" "length (generated_tokens s) < max 1 (unat (max_new_tokens s))"
    using d(3) ph by (auto simp: active_ok_def)
  have tot: "total_tokens s = kv_tokens s" using act by (simp add: total_tokens_def kv_tokens_def)
  obtain ok pt where call: "ensure_capacity ?p (sid s) (kv_tokens s + 1) = (ok, pt)" by fastforce
  obtain tr where tr: "record_latency (recorder st) s ?now = Some tr" "tel_inv tr"
    using record_latency_total [OF d(2)] by blast
  have fits: "kv_tokens s + 1 + block_size ?p \<le> 2 ^ 64"
    using d(5) act by (simp add: kv_tokens_def max_tokens_def)
  have size: "same_size pt ?p" using call by (rule same_size_ensure)
  have grown: "loop_inv pt tr (decoded s ?now # vis @ rest) ws"
    if ok "active_ok (decoded s ?now)"
    using that call fits by (intro loop_inv_recorder [OF loop_inv_granted [OF inv'] tr(2)]) simp_all
  show thesis
  proof (cases ok)
    case False
    with call have "ensure_capacity ?p (sid s) (kv_tokens s + 1) = (False, pt)" by simp
    from oom [of pt] loop_inv_refused [OF inv this] call False size show ?thesis by (simp add: decode_body_def tot)
  next
    case ok: True
    show ?thesis
    proof (cases "length (generated_tokens s) + 1 < unat (max_new_tokens s)")
      case True
      then have "active_ok (decoded s ?now)" using act ph by (simp add: active_ok_def)
      with True show ?thesis using ok call tr grown ph size
        by (intro more [where pt = pt and tr = tr]) (simp_all add: decode_body_def tot Let_def loop_inv_mid decode_result_def decoded_def)
    next
      case False
      have pt: "pt = snd (ensure_capacity ?p (sid s) (kv_tokens s + 1))" using call by simp
      have "loop_inv (free_sequence pt (sid s)) tr (vis @ rest) ws"
        by (rule loop_inv_recorder [OF loop_inv_released [OF inv' pt] tr(2)])
      moreover have "owned_count (free_sequence pt (sid s)) (sid s) = 0"
        using d(1) pt by (simp add: pt.alloc_specs)
      moreover have "length (generated_tokens s) + 1 = max 1 (unat (max_new_tokens s))" using False act by linarith
      ultimately show ?thesis using ok call tr ph False size
        by (intro finish [where pt = "free_sequence pt (sid s)" and tr = tr])
          (simp_all add: decode_body_def tot Let_def decode_result_def same_size_free)
    qed
  qed
qed

text \<open>Prefilling \<open>n\<close> prompt tokens of \<open>s\<close>.\<close>

definition prefilled :: "Sequence \<Rightarrow> nat \<Rightarrow> Sequence" where
  "prefilled s n =
     (let s1 = s\<lparr>prefill_cursor := prefill_cursor s + n\<rparr>
      in if prefill_complete s1 then s1\<lparr>phase := DECODE\<rparr> else s1)"

lemma prefilled_simps [simp]:
  "sid (prefilled s n) = sid s" "prompt_tokens (prefilled s n) = prompt_tokens s"
  "prefill_cursor (prefilled s n) = prefill_cursor s + n" "generated_tokens (prefilled s n) = generated_tokens s"
  "max_new_tokens (prefilled s n) = max_new_tokens s" "kv_tokens (prefilled s n) = kv_tokens s + n"
  "max_tokens (prefilled s n) = max_tokens s"
  by (simp_all add: prefilled_def kv_tokens_def max_tokens_def Let_def)

lemma phase_prefilled:
  "phase (prefilled s n) = (if length (prompt_tokens s) \<le> prefill_cursor s + n then DECODE else phase s)"
  by (simp add: prefilled_def Let_def prefill_complete_def)

definition chunk_size :: "SchedulerConfig \<Rightarrow> Sequence \<Rightarrow> nat \<Rightarrow> nat" where
  "chunk_size cfg s b = min (min (length (prompt_tokens s) - prefill_cursor s) (max_prefill_chunk cfg)) b"

lemma do_prefill_chunk_cases [consumes 1, case_names complete zero oom chunk]:
  assumes "phase s \<noteq> FINISHED"
  obtains (complete) "prefill_complete s" "do_prefill_chunk cfg pt s b = Inr (0, s\<lparr>phase := DECODE\<rparr>, pt)"
  | (zero) "\<not> prefill_complete s" "chunk_size cfg s b = 0" "do_prefill_chunk cfg pt s b = Inr (0, s, pt)"
  | (oom) pt' where "\<not> prefill_complete s" "0 < chunk_size cfg s b"
      "ensure_capacity pt (sid s) (prefill_cursor s + chunk_size cfg s b) = (False, pt')"
      "do_prefill_chunk cfg pt s b = Inr (0, s, pt')"
  | (chunk) pt' where "\<not> prefill_complete s" "0 < chunk_size cfg s b"
      "ensure_capacity pt (sid s) (prefill_cursor s + chunk_size cfg s b) = (True, pt')"
      "do_prefill_chunk cfg pt s b = Inr (chunk_size cfg s b, prefilled s (chunk_size cfg s b), pt')"
proof -
  have ph: "phase s \<le> DECODE" using assms by (cases "phase s") (simp_all)
  obtain ok pt' where call: "ensure_capacity pt (sid s) (prefill_cursor s + chunk_size cfg s b) = (ok, pt')"
    by fastforce
  show thesis
  proof (cases "prefill_complete s")
    case True
    with complete ph show ?thesis by (simp add: do_prefill_chunk_def)
  next
    case inc: False
    show ?thesis
    proof (cases "chunk_size cfg s b = 0")
      case True
      with inc zero show ?thesis by (simp add: do_prefill_chunk_def flip: chunk_size_def)
    next
      case False
      with inc oom [of pt'] chunk [of pt'] call ph show ?thesis
        by (cases ok) (simp_all add: do_prefill_chunk_def prefilled_def Let_def flip: chunk_size_def)
    qed
  qed
qed

lemma active_ok_prefilled:
  assumes "prefill_cursor s < length (prompt_tokens s)" "generated_tokens s = []" "phase s = PREFILL"
  shows "active_ok (prefilled s (chunk_size cfg s b))"
proof -
  have "prefill_cursor s + chunk_size cfg s b \<le> length (prompt_tokens s)"
    using assms(1) by (simp add: chunk_size_def)
  with assms show ?thesis by (auto simp: active_ok_def phase_prefilled)
qed

section \<open>Stages\<close>

text \<open>What any part of an iteration does to the requests in the scheduler: it processes tokens, each
  paid from the budget and taken off the remaining work; the requests stay the same, in the same order,
  except that the ones reported FINISHED are gone.\<close>

definition ticket :: "Sequence \<Rightarrow> u64 \<times> u32 list \<times> u32" where
  "ticket s = (sid s, prompt_tokens s, max_new_tokens s)"

definition tokens :: "StepResult list \<Rightarrow> nat" where
  "tokens res = sum_list (map tokens_processed res)"

definition finished_ids :: "StepResult list \<Rightarrow> u64 set" where
  "finished_ids res = {result_id r |r. r \<in> set res \<and> phase_after r = FINISHED}"

definition remaining :: "Sequence \<Rightarrow> nat" where
  "remaining s = (length (prompt_tokens s) - prefill_cursor s)
     + (max 1 (unat (max_new_tokens s)) - length (generated_tokens s))"

definition work :: "Sequence list \<Rightarrow> nat" where
  "work seqs = sum_list (map remaining seqs)"

definition stage ::
    "Sequence list \<Rightarrow> Sequence list \<Rightarrow> nat \<Rightarrow> StepResult list \<Rightarrow> Sequence list \<Rightarrow> Sequence list \<Rightarrow> nat \<Rightarrow> bool" where
  "stage seqs ws b new seqs' ws' b' \<longleftrightarrow> b' + tokens new = b \<and> work (seqs' @ ws') + tokens new = work (seqs @ ws)
     \<and> map ticket (seqs' @ ws') = filter (\<lambda>t. fst t \<notin> finished_ids new) (map ticket (seqs @ ws))"

lemma result_simps [simp]:
  "tokens [] = 0" "tokens (r # res) = tokens_processed r + tokens res" "tokens (res @ res') = tokens res + tokens res'"
  "finished_ids [] = {}" "finished_ids (res @ res') = finished_ids res \<union> finished_ids res'"
  "finished_ids (r # res) = (if phase_after r = FINISHED then insert (result_id r) (finished_ids res) else finished_ids res)"
  "work [] = 0" "work (s # seqs) = remaining s + work seqs" "work (seqs @ seqs') = work seqs + work seqs'"
  by (auto simp: tokens_def finished_ids_def work_def)

lemma stage_refl: "stage seqs ws b [] seqs ws b"
  by (simp add: stage_def)

lemma stage_trans:
  "stage s0 w0 b0 n1 s1 w1 b1 \<Longrightarrow> stage s1 w1 b1 n2 s2 w2 b2 \<Longrightarrow> stage s0 w0 b0 (n1 @ n2) s2 w2 b2"
  unfolding stage_def by (auto simp: conj_commute)

lemma stage_decoded:
  assumes "0 < b" "active_ok s" "phase s = DECODE"
  shows "stage (vis @ s # rest) ws b [decode_result s DECODE] (vis @ decoded s now # rest) ws (b - 1)"
  using assms by (auto simp: stage_def decode_result_def remaining_def ticket_def active_ok_def)

lemma filter_other_ids:
  "i \<notin> sid ` set seqs \<Longrightarrow> filter (\<lambda>t. fst t \<noteq> i) (map ticket seqs) = map ticket seqs"
  by (auto simp: filter_id_conv ticket_def)

lemma stage_finished:
  assumes "0 < b" "active_ok s" "phase s = DECODE" "length (generated_tokens s) + 1 = max 1 (unat (max_new_tokens s))"
    "sid s \<notin> sid ` set (vis @ rest @ ws)"
  shows "stage (vis @ s # rest) ws b [decode_result s FINISHED] (vis @ rest) ws (b - 1)"
proof -
  have "remaining s = 1" using assms(2,3,4) by (simp add: remaining_def active_ok_def)
  with assms(1,5) show ?thesis
    using filter_other_ids [of "sid s" vis] filter_other_ids [of "sid s" rest] filter_other_ids [of "sid s" ws]
    by (simp add: stage_def decode_result_def ticket_def image_Un)
qed

lemma phase_prefilled_not_finished: "phase s = PREFILL \<Longrightarrow> phase (prefilled s n) \<noteq> FINISHED"
  by (simp add: phase_prefilled)

lemma stage_prefilled:
  assumes "n \<le> b" "n \<le> length (prompt_tokens s) - prefill_cursor s" "phase s = PREFILL"
  shows "stage (vis @ s # rest) ws b [prefill_result (prefilled s n) n] (vis @ prefilled s n # rest) ws (b - n)"
  using assms phase_prefilled_not_finished [OF assms(3)]
  by (simp add: stage_def prefill_result_def ticket_def remaining_def)

lemma stage_admitted:
  assumes "n \<le> b" "n \<le> length (prompt_tokens s) - prefill_cursor s" "phase s = PREFILL"
  shows "stage seqs (s # ws) b [prefill_result (prefilled s n) n] (seqs @ [prefilled s n]) ws (b - n)"
  using assms phase_prefilled_not_finished [OF assms(3)]
  by (simp add: stage_def prefill_result_def ticket_def remaining_def)

section \<open>The loops\<close>

text \<open>The phase a decode step reports.\<close>

definition decode_phase :: "Sequence \<Rightarrow> SequencePhase" where
  "decode_phase s = (if length (generated_tokens s) + 1 < unat (max_new_tokens s) then DECODE else FINISHED)"

abbreviation decode_results :: "Sequence list \<Rightarrow> StepResult list \<Rightarrow> bool" where
  "decode_results seqs new \<equiv> \<forall>r \<in> set new. \<exists>s \<in> set seqs. phase s = DECODE \<and> r = decode_result s (decode_phase s)"

text \<open>What a loop returns: it never fails, keeps the invariant and the configuration, and is a stage.\<close>

definition loop_post ::
    "ContinuousBatchingScheduler \<Rightarrow> Sequence list \<Rightarrow> Sequence list \<Rightarrow> nat \<Rightarrow> StepResult list
       \<Rightarrow> nat \<Rightarrow> ContinuousBatchingScheduler \<Rightarrow> bool" where
  "loop_post st seqs ws b new b' st' \<longleftrightarrow> config st' = config st
     \<and> same_size (page_table st') (page_table st)
     \<and> loop_inv (page_table st') (recorder st') (active st') (waiting st')
     \<and> stage seqs ws b new (active st') (waiting st') b'"

lemma loop_post_step:
  assumes "stage seqs ws b n1 seqs1 ws1 b1" "loop_post st1 seqs1 ws1 b1 n2 b2 st2"
    "config st1 = config st" "same_size (page_table st1) (page_table st)"
  shows "loop_post st seqs ws b (n1 @ n2) b2 st2"
  using assms stage_trans by (auto simp: loop_post_def same_size_def)

lemma decode_loop_post:
  assumes "loop_inv (page_table st) (recorder st) (vis @ todo) (waiting st)"
  shows "\<exists>new b' st'. decode_loop clk vis todo b st res = Inr (b', st', res @ new)
     \<and> loop_post st (vis @ todo) (waiting st) b new b' st' \<and> waiting st' = waiting st
     \<and> decode_results todo new"
  using assms
proof (induction todo arbitrary: vis b st res)
  case Nil
  then show ?case by (simp add: loop_post_def stage_refl same_size_def)
next
  case (Cons s rest)
  show ?case
  proof (cases "b = 0 \<or> phase s \<noteq> DECODE")
    case True
    then show ?thesis using Cons.IH [of st "vis @ [s]" b res] Cons.prems
      by (auto simp: loop_post_def stage_refl same_size_def)
  next
    case False
    then have b: "0 < b" and ph: "phase s = DECODE" by auto
    have inv: "loop_inv (page_table st) (recorder st) (s # vis @ rest) (waiting st)"
      using Cons.prems by (simp add: loop_inv_mid)
    have act: "active_ok s" "sid s \<notin> sid ` set (vis @ rest @ waiting st)"
      using loop_invD [OF inv] by auto
    from Cons.prems ph show ?thesis
    proof (cases rule: decode_body_cases [where clk = clk and b = b and res = res])
      case (oom pt)
      let ?st = "st\<lparr>page_table := pt\<rparr>"
      obtain new b' st' where "decode_loop clk (vis @ [s]) rest b ?st res = Inr (b', st', res @ new)"
        "loop_post ?st (vis @ s # rest) (waiting st) b new b' st'" "waiting st' = waiting st"
        "decode_results rest new"
        using Cons.IH [of ?st "vis @ [s]" b res] oom by auto
      then show ?thesis using oom False
        loop_post_step [OF stage_refl, of ?st "vis @ s # rest" "waiting st" b new b' st' st] by auto
    next
      case (more pt tr)
      let ?s = "decoded s (clk (clock_reads st))"
      let ?st = "st\<lparr>page_table := pt, recorder := tr, clock_reads := clock_reads st + 1\<rparr>"
      let ?r = "decode_result s DECODE"
      obtain new b' st' where "decode_loop clk (vis @ [?s]) rest (b - 1) ?st (res @ [?r]) = Inr (b', st', (res @ [?r]) @ new)"
        "loop_post ?st (vis @ ?s # rest) (waiting st) (b - 1) new b' st'" "waiting st' = waiting st"
        "decode_results rest new"
        using Cons.IH [of ?st "vis @ [?s]" "b - 1" "res @ [?r]"] more by auto
      then show ?thesis using more(1,2,4) False ph
        loop_post_step [OF stage_decoded [OF b act(1) ph], of ?st vis "clk (clock_reads st)" rest "waiting st" new b' st' st]
        by (intro exI [of _ "?r # new"]) (auto simp: decode_phase_def)
    next
      case (finish pt tr)
      let ?st = "st\<lparr>page_table := pt, recorder := tr, clock_reads := clock_reads st + 1\<rparr>"
      let ?r = "decode_result s FINISHED"
      obtain new b' st' where "decode_loop clk vis rest (b - 1) ?st (res @ [?r]) = Inr (b', st', (res @ [?r]) @ new)"
        "loop_post ?st (vis @ rest) (waiting st) (b - 1) new b' st'" "waiting st' = waiting st"
        "decode_results rest new"
        using Cons.IH [of ?st vis "b - 1" "res @ [?r]"] finish by auto
      then show ?thesis using finish(1,2,5) False ph
        loop_post_step [OF stage_finished [OF b act(1) ph finish(1) act(2)], of ?st new b' st' st]
        by (intro exI [of _ "?r # new"]) (auto simp: decode_phase_def)
    qed
  qed
qed

abbreviation prefill_results :: "SchedulerConfig \<Rightarrow> StepResult list \<Rightarrow> bool" where
  "prefill_results cfg new \<equiv> \<forall>r \<in> set new. was_prefill_chunk r \<and> 0 < tokens_processed r
     \<and> tokens_processed r \<le> max_prefill_chunk cfg \<and> phase_after r \<noteq> FINISHED"

lemma chunk_size_bounds:
  "chunk_size cfg s b \<le> b" "chunk_size cfg s b \<le> length (prompt_tokens s) - prefill_cursor s"
  "chunk_size cfg s b \<le> max_prefill_chunk cfg"
  by (auto simp: chunk_size_def)

lemma prefill_results_one:
  "phase s = PREFILL \<Longrightarrow> 0 < chunk_size cfg s b \<Longrightarrow>
     prefill_results cfg [prefill_result (prefilled s (chunk_size cfg s b)) (chunk_size cfg s b)]"
  using chunk_size_bounds(3) [of cfg s b] by (simp add: prefill_result_def phase_prefilled)

lemma prefill_fits:
  assumes "prefill_cursor s < length (prompt_tokens s)" "max_tokens s + bs \<le> 2 ^ 64"
  shows "prefill_cursor s + chunk_size cfg s b + bs \<le> 2 ^ 64"
  using assms chunk_size_bounds(2) [of cfg s b] by (simp add: max_tokens_def)

lemma loop_inv_prefilled:
  assumes inv: "loop_inv pt tr (vis @ s # rest) ws" and ph: "phase s = PREFILL"
    and g: "ensure_capacity pt (sid s) (prefill_cursor s + chunk_size cfg s b) = (True, pt')"
  shows "loop_inv pt' tr (vis @ prefilled s (chunk_size cfg s b) # rest) ws"
proof -
  have inv': "loop_inv pt tr (s # vis @ rest) ws" using inv by (simp add: loop_inv_mid)
  note d = loop_invD [OF inv']
  have cur: "prefill_cursor s < length (prompt_tokens s)" "generated_tokens s = []"
    using d(3) ph by (auto simp: active_ok_def)
  have "loop_inv pt' tr (prefilled s (chunk_size cfg s b) # vis @ rest) ws"
    by (rule loop_inv_granted [OF inv' g])
      (use cur ph prefill_fits [OF cur(1) d(5)] in \<open>simp_all add: active_ok_prefilled kv_tokens_def\<close>)
  then show ?thesis by (simp add: loop_inv_mid)
qed

lemma prefill_loop_post:
  assumes "loop_inv (page_table st) (recorder st) (vis @ todo) (waiting st)"
  shows "\<exists>new b' st'. prefill_loop vis todo b st res = Inr (b', st', res @ new)
     \<and> loop_post st (vis @ todo) (waiting st) b new b' st' \<and> waiting st' = waiting st
     \<and> prefill_results (config st) new"
  using assms
proof (induction todo arbitrary: vis b st res)
  case Nil
  then show ?case by (simp add: loop_post_def stage_refl same_size_def)
next
  case (Cons s rest)
  show ?case
  proof (cases "b = 0 \<or> phase s \<noteq> PREFILL")
    case True
    then show ?thesis using Cons.IH [of st "vis @ [s]" b res] Cons.prems
      by (auto simp: loop_post_def stage_refl same_size_def)
  next
    case False
    then have ph: "phase s = PREFILL" by simp
    have inc: "\<not> prefill_complete s"
      using Cons.prems ph by (auto simp: loop_inv_def active_ok_def prefill_complete_def)
    from ph have "phase s \<noteq> FINISHED" by simp
    then show ?thesis
    proof (cases rule: do_prefill_chunk_cases [where cfg = "config st" and pt = "page_table st" and b = b])
      case complete
      with inc show ?thesis by simp
    next
      case zero
      then show ?thesis using False Cons.IH [of st "vis @ [s]" b res] Cons.prems by auto
    next
      case (oom pt)
      let ?st = "st\<lparr>page_table := pt\<rparr>"
      obtain new b' st' where "prefill_loop (vis @ [s]) rest b ?st res = Inr (b', st', res @ new)"
        "loop_post ?st (vis @ s # rest) (waiting st) b new b' st'" "waiting st' = waiting st"
        "prefill_results (config st) new"
        using Cons.IH [of ?st "vis @ [s]" b res] loop_inv_refused [OF Cons.prems oom(3)] by auto
      then show ?thesis using oom False same_size_ensure [OF oom(3)]
        loop_post_step [OF stage_refl, of ?st "vis @ s # rest" "waiting st" b new b' st' st] by auto
    next
      case (chunk pt)
      let ?n = "chunk_size (config st) s b" and ?st = "st\<lparr>page_table := pt\<rparr>"
      let ?s = "prefilled s ?n" and ?r = "prefill_result (prefilled s ?n) ?n"
      obtain new b' st' where "prefill_loop (vis @ [?s]) rest (b - ?n) ?st (res @ [?r]) = Inr (b', st', (res @ [?r]) @ new)"
        "loop_post ?st (vis @ ?s # rest) (waiting st) (b - ?n) new b' st'" "waiting st' = waiting st"
        "prefill_results (config st) new"
        using Cons.IH [of ?st "vis @ [?s]" "b - ?n" "res @ [?r]"] loop_inv_prefilled [OF Cons.prems ph chunk(3)] by auto
      moreover have "prefill_loop vis (s # rest) b st res = prefill_loop (vis @ [?s]) rest (b - ?n) ?st (res @ [?r])"
        using chunk False by (simp add: prefill_result_def)
      ultimately show ?thesis using prefill_results_one [OF ph chunk(2)] same_size_ensure [OF chunk(3)]
        loop_post_step [OF stage_prefilled [OF chunk_size_bounds(1,2) ph], of ?st vis "config st" b rest "waiting st" new b' st' st]
        by (intro exI [of _ "?r # new"]) auto
    qed
  qed
qed

lemma loop_inv_moved:
  assumes inv: "loop_inv pt tr acts (s # ws)" and inc: "\<not> prefill_complete s" and n: "0 < chunk_size cfg s b"
    and g: "ensure_capacity pt (sid s) (prefill_cursor s + chunk_size cfg s b) = (True, pt')"
  shows "phase s = PREFILL" "loop_inv pt' tr (acts @ [prefilled s (chunk_size cfg s b)]) ws"
proof -
  have "waiting_ok s" "max_tokens s + block_size pt \<le> 2 ^ 64" using inv by (auto simp: loop_inv_def)
  then have cur: "prefill_cursor s < length (prompt_tokens s)" "generated_tokens s = []" "phase s = PREFILL"
    "kv_tokens s = 0" "prefill_cursor s = 0"
    using inc by (auto simp: waiting_ok_def prefill_complete_def kv_tokens_def)
  show "phase s = PREFILL" by (rule cur)
  have "loop_inv pt' tr (prefilled s (chunk_size cfg s b) # acts) ws"
    by (rule loop_inv_admitted [OF inv g]) (use cur n active_ok_prefilled [OF cur(1-3)] in simp_all)
  then show "loop_inv pt' tr (acts @ [prefilled s (chunk_size cfg s b)]) ws" by (simp add: loop_inv_mid)
qed

lemma admission_loop_post:
  assumes "loop_inv (page_table st) (recorder st) (active st) ws"
  shows "\<exists>new b' st'. admission_loop ws b st res = Inr (b', st', res @ new)
     \<and> loop_post st (active st) ws b new b' st' \<and> prefill_results (config st) new"
  using assms
proof (induction ws arbitrary: b st res)
  case Nil
  then show ?case by (simp add: loop_post_def stage_refl same_size_def)
next
  case (Cons s ws)
  show ?case
  proof (cases "b = 0")
    case True
    then show ?thesis using Cons.prems by (auto simp: loop_post_def stage_refl same_size_def)
  next
    case False
    have wait: "waiting_ok s" "max_tokens s + block_size (page_table st) \<le> 2 ^ 64"
      using Cons.prems by (auto simp: loop_inv_def)
    then have "phase s \<noteq> FINISHED" by (auto simp: waiting_ok_def)
    then show ?thesis
    proof (cases rule: do_prefill_chunk_cases [where cfg = "config st" and pt = "page_table st" and b = b])
      case complete
      then have "waiting_ok (s\<lparr>phase := DECODE\<rparr>)" using wait by (simp add: waiting_ok_def prefill_complete_def)
      then have "loop_inv (page_table st) (recorder st) (active st) (s\<lparr>phase := DECODE\<rparr> # ws)"
        using Cons.prems by (simp add: loop_inv_def max_tokens_def)
      then show ?thesis using complete False
        by (auto simp: loop_post_def same_size_def stage_def ticket_def remaining_def)
    next
      case zero
      then show ?thesis using False Cons.prems by (auto simp: loop_post_def stage_refl same_size_def)
    next
      case (oom pt)
      with loop_inv_refused [OF Cons.prems oom(3)] same_size_ensure [OF oom(3)] False show ?thesis
        by (auto simp: loop_post_def stage_refl)
    next
      case (chunk pt)
      let ?n = "chunk_size (config st) s b"
      let ?s = "prefilled s ?n" and ?r = "prefill_result (prefilled s ?n) ?n"
      let ?st = "st\<lparr>page_table := pt, waiting := ws, active := active st @ [?s]\<rparr>"
      note moved = loop_inv_moved [OF Cons.prems chunk(1-3)]
      obtain new b' st' where "admission_loop ws (b - ?n) ?st (res @ [?r]) = Inr (b', st', (res @ [?r]) @ new)"
        "loop_post ?st (active st @ [?s]) ws (b - ?n) new b' st'" "prefill_results (config st) new"
        using Cons.IH [of ?st "b - ?n" "res @ [?r]"] moved(2) by auto
      moreover have "admission_loop (s # ws) b st res = admission_loop ws (b - ?n) ?st (res @ [?r])"
        using chunk False by (simp add: prefill_result_def)
      ultimately show ?thesis using prefill_results_one [OF moved(1) chunk(2)] same_size_ensure [OF chunk(3)]
        loop_post_step [OF stage_admitted [OF chunk_size_bounds(1,2) moved(1)], of ?st "active st" "config st" b ws new b' st' st]
        by (intro exI [of _ "?r # new"]) auto
    qed
  qed
qed

text \<open>One iteration: a run of decode results, then a run of prefill results.\<close>

lemma step_post:
  assumes "sched_inv st"
  obtains decs prefs b st' where "step clk st = Inr (decs @ prefs, st')"
    "loop_post st (active st) (waiting st) (max_batch_tokens (config st)) (decs @ prefs) b st'"
    "decode_results (active st) decs"
    "prefill_results (config st) prefs"
proof -
  let ?b = "max_batch_tokens (config st)"
  obtain n1 b1 st1 where 1: "decode_loop clk [] (active st) ?b st [] = Inr (b1, st1, n1)"
    "loop_post st (active st) (waiting st) ?b n1 b1 st1" "waiting st1 = waiting st"
    "decode_results (active st) n1"
    using decode_loop_post [of st "[]" "active st" clk ?b "[]"] assms by (auto simp: sched_inv_def)
  then obtain n2 b2 st2 where 2: "prefill_loop [] (active st1) b1 st1 n1 = Inr (b2, st2, n1 @ n2)"
    "loop_post st1 (active st1) (waiting st1) b1 n2 b2 st2" "waiting st2 = waiting st1"
    "prefill_results (config st1) n2"
    using prefill_loop_post [of st1 "[]" "active st1" b1 n1] by (auto simp: loop_post_def)
  then obtain n3 b3 st3 where 3: "admission_loop (waiting st2) b2 st2 (n1 @ n2) = Inr (b3, st3, (n1 @ n2) @ n3)"
    "loop_post st2 (active st2) (waiting st2) b2 n3 b3 st3" "prefill_results (config st2) n3"
    using admission_loop_post [of st2 "waiting st2" b2 "n1 @ n2"] by (auto simp: loop_post_def)
  have c: "config st1 = config st" "config st2 = config st" "same_size (page_table st1) (page_table st)"
    "same_size (page_table st2) (page_table st)"
    using 1(2) 2(2) by (auto simp: loop_post_def same_size_def)
  show thesis
  proof (rule that [of n1 "n2 @ n3" st3 b3])
    show "step clk st = Inr (n1 @ n2 @ n3, st3)" using 1(1) 2(1) 3(1) by (simp add: step_def)
    have s: "stage (active st) (waiting st) ?b n1 (active st1) (waiting st1) b1"
      "stage (active st1) (waiting st1) b1 n2 (active st2) (waiting st2) b2"
      using 1(2) 2(2) by (simp_all add: loop_post_def)
    show "loop_post st (active st) (waiting st) ?b (n1 @ n2 @ n3) b3 st3"
      using loop_post_step [OF stage_trans [OF s] 3(2) c(2,4)] by simp
  qed (use 1(4) 2(4) 3(3) c in auto)
qed

end
