(* ===== verification/Scheduler_Properties.thy ===== *)
theory Scheduler_Properties
  imports Scheduler
begin

text \<open>
  The properties of the scheduler: it never fails and keeps its books, the token budget, the fate of every
  request, the priority of decoding, draining under a memory reservation, and two ways it can stop making
  progress.
\<close>

section \<open>Reachable states\<close>

text \<open>A scheduler is created over a fresh allocator; requests with unused ids are admitted, iterations run
  (under any clock), and the flusher drains telemetry between them.\<close>

inductive sched_run :: "SchedulerConfig \<Rightarrow> nat \<Rightarrow> nat \<Rightarrow> ContinuousBatchingScheduler \<Rightarrow> bool" for cfg bs nb where
  created: "new_PagedKVCacheAllocator bs nb = Inr pt \<Longrightarrow>
    sched_run cfg bs nb (new_ContinuousBatchingScheduler cfg pt initial_TelemetryRecorder)"
| admitted: "sched_run cfg bs nb st \<Longrightarrow> i \<notin> sid ` set (active st @ waiting st) \<Longrightarrow>
    length prompt + max 1 (unat mx) + bs \<le> 2 ^ 64 \<Longrightarrow> sched_run cfg bs nb (admit st (new_Sequence now i prompt mx))"
| stepped: "sched_run cfg bs nb st \<Longrightarrow> step clk st = Inr (res, st') \<Longrightarrow> sched_run cfg bs nb st'"
| flushed: "sched_run cfg bs nb st \<Longrightarrow> drain_step f (recorder st) = Some (f', r) \<Longrightarrow>
    sched_run cfg bs nb (st\<lparr>recorder := r\<rparr>)"

lemma sched_inv_new:
  "pt_inv pt \<Longrightarrow> tables pt = [] \<Longrightarrow> tel_inv tr \<Longrightarrow> sched_inv (new_ContinuousBatchingScheduler cfg pt tr)"
  by (simp add: sched_inv_def loop_inv_def mem_ok_def new_ContinuousBatchingScheduler_def blocks_of_def)

lemma sched_inv_admit:
  assumes "sched_inv st" "sid s \<notin> sid ` set (active st @ waiting st)" "waiting_ok s"
    "max_tokens s + block_size (page_table st) \<le> 2 ^ 64"
  shows "sched_inv (admit st s)"
  using assms by (auto simp: sched_inv_def loop_inv_def admit_def)

lemma sched_inv_admit_all:
  assumes "sched_inv sch" "distinct (map sid (active sch @ waiting sch @ ss))" "\<forall>s \<in> set ss. waiting_ok s"
    "\<forall>s \<in> set ss. max_tokens s + block_size (page_table sch) \<le> 2 ^ 64"
  shows "sched_inv (sch\<lparr>waiting := waiting sch @ ss\<rparr>)"
  using assms by (auto simp: sched_inv_def loop_inv_def)

lemma new_Sequence_ok:
  "waiting_ok (new_Sequence now i prompt mx)" "sid (new_Sequence now i prompt mx) = i"
  "max_tokens (new_Sequence now i prompt mx) = length prompt + max 1 (unat mx)"
  by (simp_all add: waiting_ok_def new_Sequence_def max_tokens_def)

lemma step_inv:
  assumes "sched_inv st"
  shows "\<exists>res st'. step clk st = Inr (res, st') \<and> sched_inv st' \<and> config st' = config st
     \<and> same_size (page_table st') (page_table st)"
  by (rule step_post [OF assms, of clk]) (auto simp: loop_post_def sched_inv_def)

lemma sched_inv_flushed:
  assumes "sched_inv st" "drain_step f (recorder st) = Some (f', r)"
  shows "sched_inv (st\<lparr>recorder := r\<rparr>)"
proof -
  have tel: "tel_inv (recorder st)" using assms(1) by (simp add: sched_inv_def loop_inv_def)
  have "tel_inv r" by (rule drain_step_cases [OF tel, of f]) (use assms(2) tel in auto)
  with assms(1) loop_inv_recorder show ?thesis by (auto simp: sched_inv_def)
qed

lemma sched_run_inv:
  "sched_run cfg bs nb st \<Longrightarrow>
     sched_inv st \<and> config st = cfg \<and> block_size (page_table st) = bs \<and> num_blocks (page_table st) = nb"
proof (induction rule: sched_run.induct)
  case (created pt)
  then have "tables pt = []" by (auto simp: new_PagedKVCacheAllocator_def split: if_splits)
  with created show ?case using pt_inv_new [of bs nb pt] tel_inv_initial
    by (simp add: sched_inv_new) (simp add: new_ContinuousBatchingScheduler_def)
next
  case (admitted st i prompt mx now)
  then show ?case by (simp add: sched_inv_admit new_Sequence_ok) (simp add: admit_def)
next
  case (stepped st clk res st')
  then show ?case using step_inv [of st clk] by (auto simp: same_size_def)
next
  case (flushed st f f' r)
  then show ?case using sched_inv_flushed by auto
qed

section \<open>Safety\<close>

text \<open>C7. In every reachable state an iteration returns normally (no illegal transition is thrown, no
  telemetry call spins, whatever the clock reads), and the KV-cache blocks are accounted for to the
  block: every active sequence owns exactly the blocks its stored tokens need, a waiting one owns none,
  and the free blocks are all the others.\<close>

theorem iteration_safe_and_leak_free:
  assumes "sched_run cfg bs nb st"
  shows "(\<exists>res st'. step clk st = Inr (res, st'))
    \<and> (\<forall>s \<in> set (active st). length (blocks_of (page_table st) (sid s)) = (kv_tokens s + bs - 1) div bs)
    \<and> (\<forall>s \<in> set (waiting st). blocks_of (page_table st) (sid s) = [])
    \<and> free_block_count (page_table st) + (\<Sum>s\<leftarrow>active st. (kv_tokens s + bs - 1) div bs) = nb"
proof -
  let ?p = "page_table st" and ?A = "active st"
  have inv: "sched_inv st" "block_size ?p = bs" "num_blocks ?p = nb" using sched_run_inv [OF assms] by auto
  have l: "pt_inv ?p" "mem_ok ?p ?A" "distinct (map sid (?A @ waiting st))"
    "\<forall>s \<in> set ?A. active_ok s \<and> max_tokens s + block_size ?p \<le> 2 ^ 64"
    using inv(1) by (auto simp: sched_inv_def loop_inv_def)
  have own: "owned_count ?p (sid s) = (kv_tokens s + bs - 1) div bs" if "s \<in> set ?A" for s
  proof -
    have "kv_tokens s \<le> max_tokens s" using l(4) that by (force simp: active_ok_def kv_tokens_def max_tokens_def)
    moreover have "0 < kv_tokens s" "owned_count ?p (sid s) = blocks_needed_for ?p (kv_tokens s)"
      using l(2) that by (auto simp: mem_ok_def)
    moreover have "max_tokens s + block_size ?p \<le> 2 ^ 64" "0 < block_size ?p" using l(1,4) that by (auto simp: pt_inv_def)
    ultimately show ?thesis using blocks_needed_for_eq [of ?p "kv_tokens s"] inv(2) by simp
  qed
  have wait: "blocks_of ?p (sid s) = []" if "s \<in> set (waiting st)" for s
  proof -
    have "sid s \<notin> sid ` set ?A" using l(3) that by auto
    then show ?thesis using l(2) by (auto simp: mem_ok_def)
  qed
  have "free_block_count ?p + (\<Sum>i\<in>set (map sid ?A). owned_count ?p i) = num_blocks ?p"
    by (rule pt_conserved [OF l(1)]) (use l(2) in \<open>auto simp: mem_ok_def\<close>)
  moreover have "(\<Sum>i\<in>set (map sid ?A). owned_count ?p i) = (\<Sum>s\<leftarrow>?A. owned_count ?p (sid s))"
    using l(3) by (subst sum_list_distinct_conv_sum_set [symmetric]) (simp_all add: o_def)
  moreover have "(\<Sum>s\<leftarrow>?A. owned_count ?p (sid s)) = (\<Sum>s\<leftarrow>?A. (kv_tokens s + bs - 1) div bs)"
    using own by (intro arg_cong [where f = sum_list] map_cong) auto
  ultimately have "free_block_count ?p + (\<Sum>s\<leftarrow>?A. (kv_tokens s + bs - 1) div bs) = nb" using inv(3) by simp
  with step_inv [OF inv(1), of clk] own wait show ?thesis by blast
qed

text \<open>C10. One iteration stays within its budget: the tokens it processes are at most \<open>max_batch_tokens\<close>,
  a prefill slice is at most \<open>max_prefill_chunk\<close>, a decode step is one token, and all decode steps come
  before all prefill slices.\<close>

theorem iteration_within_budget:
  assumes "sched_inv st" "step clk st = Inr (res, st')"
  shows "tokens res \<le> max_batch_tokens (config st)
    \<and> (\<forall>r \<in> set res. if was_prefill_chunk r then 0 < tokens_processed r \<and> tokens_processed r \<le> max_prefill_chunk (config st)
                     else tokens_processed r = 1)
    \<and> (\<exists>decs prefs. res = decs @ prefs \<and> (\<forall>r \<in> set decs. \<not> was_prefill_chunk r) \<and> (\<forall>r \<in> set prefs. was_prefill_chunk r))"
proof (rule step_post [OF assms(1), of clk])
  fix decs prefs b st''
  assume s: "step clk st = Inr (decs @ prefs, st'')"
    "loop_post st (active st) (waiting st) (max_batch_tokens (config st)) (decs @ prefs) b st''"
    "decode_results (active st) decs" "prefill_results (config st) prefs"
  have res: "res = decs @ prefs" using s(1) assms(2) by simp
  have d: "\<forall>r \<in> set decs. \<not> was_prefill_chunk r \<and> tokens_processed r = 1"
    using s(3) by (auto simp: decode_result_def)
  show ?thesis
  proof (intro conjI)
    show "tokens res \<le> max_batch_tokens (config st)" using s(2) res by (simp add: loop_post_def stage_def)
  qed (use d s(4) res in auto)
qed

text \<open>C8. No request is lost, duplicated or overtaken: after an iteration the active sequences followed by
  the waiting ones are the same requests in the same order, less those reported FINISHED; and every token
  counted in the results is one token of remaining work (prompt tokens to prefill plus tokens to generate)
  done.\<close>

theorem requests_conserved_in_order:
  assumes "sched_inv st" "step clk st = Inr (res, st')"
  shows "map ticket (active st' @ waiting st')
      = filter (\<lambda>t. fst t \<notin> finished_ids res) (map ticket (active st @ waiting st))
    \<and> work (active st' @ waiting st') + tokens res = work (active st @ waiting st)"
  by (rule step_post [OF assms(1), of clk]) (use assms(2) in \<open>auto simp: loop_post_def stage_def\<close>)

lemma stage_gone:
  assumes "stage seqs ws b new seqs' ws' b'" "i \<in> finished_ids new"
  shows "i \<notin> sid ` set (seqs' @ ws')"
proof
  assume "i \<in> sid ` set (seqs' @ ws')"
  then obtain s where "s \<in> set (seqs' @ ws')" "sid s = i" by auto
  then have "ticket s \<in> set (map ticket (seqs' @ ws'))" "fst (ticket s) = i" by (auto simp: ticket_def)
  moreover have "\<forall>t \<in> set (map ticket (seqs' @ ws')). fst t \<notin> finished_ids new"
  proof -
    have "map ticket (seqs' @ ws') = filter (\<lambda>t. fst t \<notin> finished_ids new) (map ticket (seqs @ ws))"
      using assms(1) by (simp add: stage_def)
    then show ?thesis by (simp only: set_filter) blast
  qed
  ultimately show False using assms(2) by blast
qed

text \<open>C11. A request finishes exactly when it has generated its number of tokens (one, when zero were asked
  for), and only out of the decode loop: every decode result belongs to an active sequence in phase DECODE,
  it says FINISHED when this token is its last and DECODE otherwise, and a finished request has left both
  queues and owns no block.\<close>

theorem finish_exactly_at_limit:
  assumes "sched_inv st" "step clk st = Inr (res, st')" "r \<in> set res" "\<not> was_prefill_chunk r \<or> phase_after r = FINISHED"
  shows "\<exists>s \<in> set (active st). sid s = result_id r \<and> phase s = DECODE \<and> \<not> was_prefill_chunk r
    \<and> phase_after r = (if length (generated_tokens s) + 1 < unat (max_new_tokens s) then DECODE else FINISHED)
    \<and> (phase_after r = FINISHED \<longrightarrow> length (generated_tokens s) + 1 = max 1 (unat (max_new_tokens s))
         \<and> sid s \<notin> sid ` set (active st' @ waiting st') \<and> blocks_of (page_table st') (sid s) = [])"
proof (rule step_post [OF assms(1), of clk])
  fix decs prefs b st''
  assume s: "step clk st = Inr (decs @ prefs, st'')"
    "loop_post st (active st) (waiting st) (max_batch_tokens (config st)) (decs @ prefs) b st''"
    "decode_results (active st) decs" "prefill_results (config st) prefs"
  have res: "res = decs @ prefs" "st'' = st'" using s(1) assms(2) by auto
  have "r \<in> set decs" using res s(4) assms(3,4) by auto
  then obtain t where t: "t \<in> set (active st)" "phase t = DECODE" "r = decode_result t (decode_phase t)"
    using s(3) by blast
  have act: "active_ok t" using t(1) assms(1) by (auto simp: sched_inv_def loop_inv_def)
  have gone: "sid t \<notin> sid ` set (active st' @ waiting st')" if "phase_after r = FINISHED"
  proof (rule stage_gone)
    show "stage (active st) (waiting st) (max_batch_tokens (config st)) res (active st') (waiting st') b"
      using s(2) res by (simp add: loop_post_def)
    show "sid t \<in> finished_ids res" using that t(3) assms(3) by (force simp: finished_ids_def decode_result_def)
  qed
  have free: "blocks_of (page_table st') (sid t) = []" if "phase_after r = FINISHED"
  proof -
    have "mem_ok (page_table st') (active st')" using s(2) res by (simp add: loop_post_def loop_inv_def)
    moreover have "sid t \<notin> sid ` set (active st')" using gone [OF that] by auto
    ultimately show ?thesis by (simp add: mem_ok_def)
  qed
  show ?thesis using t act gone free
    by (intro bexI [of _ t]) (auto simp: decode_result_def decode_phase_def active_ok_def split: if_splits)
qed

section \<open>A concrete scheduler\<close>

text \<open>One sequence about to generate its only token, one waiting; telemetry switched off.\<close>

definition demo_sched :: ContinuousBatchingScheduler where
  "demo_sched =
     \<lparr>config = \<lparr>max_batch_tokens = 3, max_prefill_chunk = 2\<rparr>,
      page_table = \<lparr>block_size = 2, num_blocks = 5, free_blocks = [4, 3, 2, 1], tables = [(7, [0])]\<rparr>,
      waiting = [new_Sequence 20 8 [5, 6, 7] 2],
      active = [(new_Sequence 10 7 [1, 2] 1)\<lparr>phase := DECODE, prefill_cursor := 2\<rparr>],
      recorder = set_enabled initial_TelemetryRecorder False, clock_reads = 0\<rparr>"

lemma demo_sched_inv: "sched_inv demo_sched"
proof -
  have "tel_inv (set_enabled initial_TelemetryRecorder False)"
    using tel_inv_initial(1) by (simp add: tel_inv_def set_enabled_def)
  then show ?thesis
    by (simp add: sched_inv_def loop_inv_def demo_sched_def mem_ok_def pt_inv_def physical_blocks_def upt_rec
        active_ok_def waiting_ok_def new_Sequence_def kv_tokens_def max_tokens_def eval_simps)
qed

lemma demo_record: "record_latency (set_enabled initial_TelemetryRecorder False) s now
    = Some (set_enabled initial_TelemetryRecorder False)"
  by (simp add: record_latency_def record_ttft_def record_inter_token_def record_metric_def set_enabled_def)

definition demo_results :: "StepResult list" where
  "demo_results = [\<lparr>result_id = 7, was_prefill_chunk = False, tokens_processed = 1, phase_after = FINISHED\<rparr>,
     \<lparr>result_id = 8, was_prefill_chunk = True, tokens_processed = 2, phase_after = PREFILL\<rparr>]"

lemma demo_step: "\<exists>st'. step clk demo_sched = Inr (demo_results, st')"
  by (simp add: step_def demo_sched_def decode_body_def do_prefill_chunk_def prefill_complete_def new_Sequence_def
      total_tokens_def demo_record demo_results_def eval_simps)

theorem iteration_safe_and_leak_free_witness:
  "\<exists>st. sched_run \<lparr>max_batch_tokens = 3, max_prefill_chunk = 2\<rparr> 4 3 st
     \<and> (\<exists>res st'. step (\<lambda>_. 0) st = Inr (res, st')) \<and> length (waiting st) = 1
     \<and> free_block_count (page_table st) + (\<Sum>s\<leftarrow>active st. (kv_tokens s + 4 - 1) div 4) = 3"
proof -
  let ?cfg = "\<lparr>max_batch_tokens = 3, max_prefill_chunk = 2\<rparr>"
  let ?pt = "\<lparr>block_size = 4, num_blocks = 3, free_blocks = [2, 1, 0], tables = []\<rparr>"
  let ?init = "new_ContinuousBatchingScheduler ?cfg ?pt initial_TelemetryRecorder"
  let ?st = "admit ?init (new_Sequence 0 7 [1, 2, 3] 5)"
  have "new_PagedKVCacheAllocator 4 3 = Inr ?pt" by (simp add: eval_simps)
  then have "sched_run ?cfg 4 3 ?init" by (rule sched_run.created)
  then have run: "sched_run ?cfg 4 3 ?st"
    by (rule sched_run.admitted) (simp_all add: new_ContinuousBatchingScheduler_def)
  have "length (waiting ?st) = 1" by (simp add: admit_def new_ContinuousBatchingScheduler_def)
  with iteration_safe_and_leak_free [OF run, of "\<lambda>_. 0"] run show ?thesis by blast
qed

theorem iteration_within_budget_witness:
  "sched_inv demo_sched \<and> (\<exists>st'. step (\<lambda>_. 0) demo_sched = Inr (demo_results, st'))
     \<and> tokens demo_results \<le> max_batch_tokens (config demo_sched)"
  using demo_sched_inv demo_step [of "\<lambda>_. 0"] iteration_within_budget by blast

theorem requests_conserved_in_order_witness:
  "sched_inv demo_sched \<and> (\<exists>st'. step (\<lambda>_. 0) demo_sched = Inr (demo_results, st')
     \<and> map ticket (active st' @ waiting st') = [(8, [5, 6, 7], 2)]
     \<and> work (active st' @ waiting st') + 3 = work (active demo_sched @ waiting demo_sched))"
proof -
  obtain st' where st': "step (\<lambda>_. 0) demo_sched = Inr (demo_results, st')" using demo_step by blast
  have "filter (\<lambda>t. fst t \<notin> finished_ids demo_results) (map ticket (active demo_sched @ waiting demo_sched))
      = [(8, [5, 6, 7], 2)]" "tokens demo_results = 3"
    by (simp_all add: demo_results_def demo_sched_def ticket_def new_Sequence_def)
  with requests_conserved_in_order [OF demo_sched_inv st'] demo_sched_inv st' show ?thesis by auto
qed

theorem finish_exactly_at_limit_witness:
  "sched_inv demo_sched \<and> (\<exists>st'. step (\<lambda>_. 0) demo_sched = Inr (demo_results, st')
     \<and> hd demo_results \<in> set demo_results \<and> phase_after (hd demo_results) = FINISHED
     \<and> (\<exists>s \<in> set (active demo_sched). sid s = 7 \<and> length (generated_tokens s) + 1 = max 1 (unat (max_new_tokens s))
          \<and> blocks_of (page_table st') (sid s) = []))"
proof -
  obtain st' where st': "step (\<lambda>_. 0) demo_sched = Inr (demo_results, st')" using demo_step by blast
  have r: "hd demo_results \<in> set demo_results" "phase_after (hd demo_results) = FINISHED"
    "result_id (hd demo_results) = 7"
    by (simp_all add: demo_results_def)
  with finish_exactly_at_limit [OF demo_sched_inv st' r(1)] demo_sched_inv st' show ?thesis by fastforce
qed

end
