(* ===== verification/Scheduler_Progress.thy ===== *)
theory Scheduler_Progress
  imports Scheduler_Properties
begin

text \<open>
  Progress of the scheduler: in-flight decodes run first, every request completes when the worst-case
  memory of all of them fits, and the two situations in which the scheduler stops for good.
\<close>

section \<open>Decode priority\<close>

definition grow_cost :: "PagedKVCacheAllocator \<Rightarrow> Sequence \<Rightarrow> nat" where
  "grow_cost pt s = blocks_needed_for pt (kv_tokens s + 1) - blocks_needed_for pt (kv_tokens s)"

lemma same_size_needed: "same_size p q \<Longrightarrow> blocks_needed_for p n = blocks_needed_for q n"
  by (simp add: same_size_def blocks_needed_for_def)

lemma ensure_free_count:
  assumes "pt_inv pt" "ensure_capacity pt i n = (True, pt')"
  shows "free_block_count pt = free_block_count pt' + (blocks_needed_for pt n - owned_count pt i)"
proof -
  obtain new where "length new = blocks_needed_for pt n - owned_count pt i"
    "mset (free_blocks pt) = mset (free_blocks pt') + mset new"
    using ensure_capacity_blocks_of_self [OF assms(1), of i n] assms(2) by auto
  then show ?thesis by (metis free_block_count_def size_mset size_union)
qed

lemma ensure_refused_free:
  assumes "pt_inv pt" "ensure_capacity pt i n = (False, pt')"
  shows "free_block_count pt' = free_block_count pt"
proof -
  obtain new where "length new = 0" "mset (free_blocks pt) = mset (free_blocks pt') + mset new"
    using ensure_capacity_blocks_of_self [OF assms(1), of i n] assms(2) by auto
  then show ?thesis by (metis add.right_neutral free_block_count_def length_0_conv mset.simps(1) size_mset)
qed

lemma decode_body_free:
  assumes inv: "loop_inv (page_table st) (recorder st) (vis @ s # rest) ws" and ph: "phase s = DECODE"
    and call: "decode_body clk s b st res = Inr (k, b', st', res')"
  shows "free_block_count (page_table st) \<le> free_block_count (page_table st') + grow_cost (page_table st) s"
proof -
  let ?p = "page_table st"
  have inv': "loop_inv ?p (recorder st) (s # vis @ rest) ws" using inv by (simp add: loop_inv_mid)
  note d = loop_invD [OF inv']
  have tot: "total_tokens s = kv_tokens s" using d(3) ph by (auto simp: active_ok_def total_tokens_def kv_tokens_def)
  obtain ok pt where e: "ensure_capacity ?p (sid s) (kv_tokens s + 1) = (ok, pt)" by fastforce
  show ?thesis
  proof (cases ok)
    case True
    then have "free_block_count ?p \<le> free_block_count pt + grow_cost ?p s"
      using ensure_free_count [OF d(1), of "sid s" "kv_tokens s + 1" pt] e d(6) by (simp add: grow_cost_def)
    moreover have "free_block_count pt \<le> free_block_count (page_table st')"
      using call e True tot
      by (auto simp: decode_body_def Let_def free_block_count_def free_sequence_free_blocks
          split: sum.splits if_splits)
    ultimately show ?thesis by linarith
  next
    case False
    with call e tot have "page_table st' = pt" by (auto simp: decode_body_def)
    with ensure_refused_free [OF d(1)] e False show ?thesis by fastforce
  qed
qed

abbreviation decoding :: "Sequence list \<Rightarrow> Sequence list" where
  "decoding seqs \<equiv> filter (\<lambda>s. phase s = DECODE) seqs"

lemma decode_loop_spent: "decode_loop clk vis todo 0 st res = Inr (0, st\<lparr>active := vis @ todo\<rparr>, res)"
  by (cases todo) simp_all

text \<open>As far as the budget and the free blocks reach, every decoding sequence gets its token.\<close>

lemma decode_loop_prefix:
  assumes "loop_inv (page_table st) (recorder st) (vis @ todo @ post) (waiting st)"
    "length (decoding todo) \<le> b" "(\<Sum>s\<leftarrow>decoding todo. grow_cost (page_table st) s) \<le> free_block_count (page_table st)"
  shows "\<exists>vis' b' st'. decode_loop clk vis (todo @ post) b st res
       = decode_loop clk vis' post b' st' (res @ map (\<lambda>s. decode_result s (decode_phase s)) (decoding todo))
     \<and> loop_inv (page_table st') (recorder st') (vis' @ post) (waiting st')"
  using assms
proof (induction todo arbitrary: vis b st res)
  case Nil
  then show ?case by auto
next
  case (Cons s rest)
  show ?case
  proof (cases "phase s = DECODE")
    case False
    then have "decode_loop clk vis ((s # rest) @ post) b st res = decode_loop clk (vis @ [s]) (rest @ post) b st res"
      by (cases "b = 0") (simp_all add: decode_loop_spent)
    with Cons.IH [of st "vis @ [s]" b res] Cons.prems False show ?thesis by simp
  next
    case ph: True
    then have b: "b \<noteq> 0" "length (decoding rest) \<le> b - 1" using Cons.prems(2) by auto
    have inv0: "loop_inv (page_table st) (recorder st) (vis @ s # rest @ post) (waiting st)" using Cons.prems(1) by simp
    have inv: "loop_inv (page_table st) (recorder st) (s # vis @ rest @ post) (waiting st)"
      using inv0 by (simp add: loop_inv_mid)
    note d = loop_invD [OF inv]
    have ok: "fst (ensure_capacity (page_table st) (sid s) (kv_tokens s + 1))"
      using Cons.prems(3) ph d(6) by (simp add: pt.ensure_iff [OF d(1)] grow_cost_def)
    have go: "\<exists>vis'' b' st'. decode_loop clk vis' (rest @ post) (b - 1) st1 (res @ [r])
        = decode_loop clk vis'' post b' st' ((res @ [r]) @ map (\<lambda>s. decode_result s (decode_phase s)) (decoding rest))
        \<and> loop_inv (page_table st') (recorder st') (vis'' @ post) (waiting st')"
      if "loop_inv (page_table st1) (recorder st1) (vis' @ rest @ post) (waiting st1)" "same_size (page_table st1) (page_table st)"
        "free_block_count (page_table st) \<le> free_block_count (page_table st1) + grow_cost (page_table st) s"
      for vis' st1 r
      using Cons.IH [OF that(1) b(2), of "res @ [r]"] that(2,3) Cons.prems(3) ph
      by (simp add: grow_cost_def same_size_needed)
    from inv0 ph show ?thesis
    proof (cases rule: decode_body_cases [where clk = clk and b = b and res = res])
      case (oom pt)
      with ok show ?thesis by simp
    next
      case (more pt tr)
      with go [of "st\<lparr>page_table := pt, recorder := tr, clock_reads := clock_reads st + 1\<rparr>"
          "vis @ [decoded s (clk (clock_reads st))]" "decode_result s DECODE"]
        decode_body_free [OF inv0 ph more(2)] b(1) ph
      show ?thesis by (simp add: decode_phase_def)
    next
      case (finish pt tr)
      with go [of "st\<lparr>page_table := pt, recorder := tr, clock_reads := clock_reads st + 1\<rparr>" vis
          "decode_result s FINISHED"] decode_body_free [OF inv0 ph finish(2)] b(1) ph
      show ?thesis by (simp add: decode_phase_def)
    qed
  qed
qed

text \<open>C9. In-flight generation is not disrupted by admissions: whatever the waiting queue holds and however many sequences
  are still in prefill, a decoding sequence gets its next token in this iteration when the budget and the free blocks cover
  it together with the decoding sequences before it in the active list. The results of these come first, in order, then
  other decode steps, of sequences further down the list, then prefill slices.\<close>

theorem decode_has_priority:
  assumes "sched_inv st" "active st = pre @ s # post" "phase s = DECODE" "length (decoding pre) < max_batch_tokens (config st)"
    "(\<Sum>r\<leftarrow>decoding pre. grow_cost (page_table st) r) + grow_cost (page_table st) s \<le> free_block_count (page_table st)"
  shows "\<exists>decs prefs st'. step clk st = Inr (map (\<lambda>s. decode_result s (decode_phase s)) (decoding pre @ [s]) @ decs @ prefs, st')
     \<and> (\<forall>r \<in> set decs. \<not> was_prefill_chunk r \<and> result_id r \<in> sid ` set (decoding post)) \<and> (\<forall>r \<in> set prefs. was_prefill_chunk r)"
proof -
  let ?D = "map (\<lambda>s. decode_result s (decode_phase s)) (decoding pre @ [s])" and ?b = "max_batch_tokens (config st)"
  have l: "loop_inv (page_table st) (recorder st) ([] @ (pre @ [s]) @ post) (waiting st)" using assms(1,2) by (simp add: sched_inv_def)
  obtain vis b1 st1 where 0: "decode_loop clk [] ((pre @ [s]) @ post) ?b st [] = decode_loop clk vis post b1 st1 ?D"
    "loop_inv (page_table st1) (recorder st1) (vis @ post) (waiting st1)"
    using decode_loop_prefix [OF l, of ?b clk "[]"] assms(3-5) by auto
  obtain decs b2 st2 where 1: "decode_loop clk vis post b1 st1 ?D = Inr (b2, st2, ?D @ decs)"
    "loop_inv (page_table st2) (recorder st2) (active st2) (waiting st2)" "decode_results post decs"
    using decode_loop_post [OF 0(2), of clk b1 ?D] by (auto simp: loop_post_def)
  obtain n2 b3 st3 where 2: "prefill_loop [] (active st2) b2 st2 (?D @ decs) = Inr (b3, st3, (?D @ decs) @ n2)"
    "loop_post st2 (active st2) (waiting st2) b2 n2 b3 st3" "prefill_results (config st2) n2"
    using prefill_loop_post [of st2 "[]" "active st2" b2 "?D @ decs"] 1(2) by auto
  then obtain n3 b4 st4 where 3: "admission_loop (waiting st3) b3 st3 ((?D @ decs) @ n2) = Inr (b4, st4, ((?D @ decs) @ n2) @ n3)"
    "prefill_results (config st3) n3"
    using admission_loop_post [of st3 "waiting st3" b3 "(?D @ decs) @ n2"] by (auto simp: loop_post_def)
  have "step clk st = Inr (?D @ decs @ n2 @ n3, st4)" using 0(1) 1(1) 2(1) 3(1) assms(2) by (simp add: step_def)
  moreover have "\<forall>r \<in> set (n2 @ n3). was_prefill_chunk r" using 2(3) 3(2) by auto
  moreover have "\<forall>r \<in> set decs. \<not> was_prefill_chunk r \<and> result_id r \<in> sid ` set (decoding post)" using 1(3) by (auto simp: decode_result_def)
  ultimately show ?thesis by blast
qed

theorem decode_has_priority_witness:
  "sched_inv demo_sched \<and> waiting demo_sched \<noteq> []
     \<and> (\<exists>prefs st'. step (\<lambda>_. 0) demo_sched = Inr (decode_result (hd (active demo_sched)) FINISHED # prefs, st'))"
proof -
  have a: "active demo_sched = [] @ hd (active demo_sched) # []" "phase (hd (active demo_sched)) = DECODE"
    "decode_phase (hd (active demo_sched)) = FINISHED" "waiting demo_sched \<noteq> []"
    "grow_cost (page_table demo_sched) (hd (active demo_sched)) = 1" "free_block_count (page_table demo_sched) = 4"
    "max_batch_tokens (config demo_sched) = 3"
    by (simp_all add: demo_sched_def decode_phase_def new_Sequence_def grow_cost_def kv_tokens_def
        free_block_count_def eval_simps)
  with decode_has_priority [OF demo_sched_inv a(1,2), of "\<lambda>_. 0"] demo_sched_inv show ?thesis by auto
qed

section \<open>Draining\<close>

text \<open>The blocks all sequences would hold at their largest.\<close>

definition reservation :: "PagedKVCacheAllocator \<Rightarrow> Sequence list \<Rightarrow> nat" where
  "reservation pt seqs = (\<Sum>s\<leftarrow>seqs. blocks_needed_for pt (max_tokens s))"

lemma kv_tokens_le_max: "active_ok s \<or> waiting_ok s \<Longrightarrow> kv_tokens s \<le> max_tokens s"
  by (auto simp: active_ok_def waiting_ok_def kv_tokens_def max_tokens_def)

lemma sum_by_sid:
  fixes f :: "Sequence \<Rightarrow> nat"
  assumes "distinct (map sid seqs)"
  shows "(\<Sum>i\<in>sid ` set seqs. the (map_of (map (\<lambda>s. (sid s, f s)) seqs) i)) = (\<Sum>s\<leftarrow>seqs. f s)"
  using assms
proof (induction seqs)
  case (Cons s seqs)
  let ?g = "\<lambda>l i. the (map_of (map (\<lambda>s. (sid s, f s)) l) i)"
  have "(\<Sum>i\<in>sid ` set seqs. ?g (s # seqs) i) = (\<Sum>i\<in>sid ` set seqs. ?g seqs i)"
    using Cons.prems by (intro sum.cong) (auto, metis imageI)
  with Cons show ?case by simp
qed simp

text \<open>Under a reservation that fits, no request of a sequence is refused.\<close>

lemma reserved_grant:
  assumes inv: "loop_inv pt tr seqs ws" and fits: "reservation pt (seqs @ ws) \<le> num_blocks pt"
    and s: "s \<in> set (seqs @ ws)" and n: "0 < n" "n \<le> max_tokens s"
  shows "fst (ensure_capacity pt (sid s) n)"
proof (rule pt.reserved_request_succeeds [where S = "sid ` set (seqs @ ws)"
      and r = "\<lambda>i. the (map_of (map (\<lambda>s. (sid s, blocks_needed_for pt (max_tokens s))) (seqs @ ws)) i)"])
  let ?all = "seqs @ ws"
  have d: "distinct (map sid ?all)" "pt_inv pt" "mem_ok pt seqs" "0 < block_size pt"
    "\<forall>t \<in> set ?all. max_tokens t + block_size pt \<le> 2 ^ 64" "\<forall>t \<in> set seqs. active_ok t" "\<forall>t \<in> set ws. waiting_ok t"
    using inv by (auto simp: loop_inv_def pt_inv_def)
  have look: "map_of (map (\<lambda>s. (sid s, blocks_needed_for pt (max_tokens s))) ?all) (sid t)
      = Some (blocks_needed_for pt (max_tokens t))" if "t \<in> set ?all" for t
    using d(1) that by (intro map_of_is_SomeI) (auto simp: o_def)
  show "pt_inv pt" by (rule d(2))
  show "sid s \<in> sid ` set ?all" using s by auto
  show "j \<in> sid ` set ?all" if "owned_count pt j \<noteq> 0" for j using d(3) that by (auto simp: mem_ok_def)
  show "(\<Sum>j\<in>sid ` set ?all. the (map_of (map (\<lambda>s. (sid s, blocks_needed_for pt (max_tokens s))) ?all) j))
      \<le> num_blocks pt"
    using sum_by_sid [OF d(1)] fits by (simp add: reservation_def)
  show "blocks_needed_for pt n \<le> the (map_of (map (\<lambda>s. (sid s, blocks_needed_for pt (max_tokens s))) ?all) (sid s))"
    using look [OF s] d(4,5) s n by (auto intro: blocks_needed_for_mono)
  show "owned_count pt j \<le> the (map_of (map (\<lambda>s. (sid s, blocks_needed_for pt (max_tokens s))) ?all) j)"
    if j: "j \<in> sid ` set ?all" for j
  proof (cases "j \<in> sid ` set seqs")
    case True
    then obtain t where t: "t \<in> set seqs" "j = sid t" by auto
    then have "owned_count pt j = blocks_needed_for pt (kv_tokens t)" "0 < kv_tokens t"
      using d(3) by (auto simp: mem_ok_def)
    moreover have "kv_tokens t \<le> max_tokens t" using d(6) t kv_tokens_le_max by blast
    ultimately show ?thesis using look [of t] t d(4,5) by (auto intro: blocks_needed_for_mono)
  next
    case False
    then show ?thesis using d(3) by (auto simp: mem_ok_def)
  qed
qed simp

lemma decode_loop_idle:
  "decoding todo = [] \<Longrightarrow> decode_loop clk vis todo b st res = Inr (b, st\<lparr>active := vis @ todo\<rparr>, res)"
  by (induction todo arbitrary: vis) (auto split: if_splits)

lemma loop_inv_fewer:
  "loop_inv pt tr seqs (ws @ ws') \<Longrightarrow> loop_inv pt tr seqs ws"
  by (auto simp: loop_inv_def)

lemma active_grant:
  assumes "loop_inv pt tr seqs ws" "reservation pt seqs \<le> num_blocks pt" "s \<in> set seqs" "0 < n" "n \<le> max_tokens s"
  shows "fst (ensure_capacity pt (sid s) n)"
  using reserved_grant [OF loop_inv_fewer [of pt tr seqs "[]" ws]] assms by simp

lemma decode_grant:
  assumes "loop_inv pt tr seqs ws" "reservation pt seqs \<le> num_blocks pt" "s \<in> set seqs" "phase s = DECODE"
  shows "fst (ensure_capacity pt (sid s) (kv_tokens s + 1))"
proof -
  have "active_ok s" using assms(1,3) by (auto simp: loop_inv_def)
  then show ?thesis
    using assms(4) by (intro active_grant [OF assms(1-3)]) (auto simp: active_ok_def kv_tokens_def max_tokens_def)
qed

lemma decode_loop_progress:
  assumes "loop_inv (page_table st) (recorder st) (vis @ todo) (waiting st)"
    "reservation (page_table st) (vis @ todo) \<le> num_blocks (page_table st)"
    "0 < b" "decoding todo \<noteq> []" "decode_loop clk vis todo b st res = Inr (b', st', res @ new)"
  shows "new \<noteq> []"
  using assms
proof (induction todo arbitrary: vis)
  case (Cons s rest)
  show ?case
  proof (cases "phase s = DECODE")
    case False
    with Cons.IH [of "vis @ [s]"] Cons.prems show ?thesis by simp
  next
    case ph: True
    have ok: "fst (ensure_capacity (page_table st) (sid s) (kv_tokens s + 1))"
      by (rule decode_grant [OF Cons.prems(1,2) _ ph]) simp
    from Cons.prems(1) ph show ?thesis
    proof (cases rule: decode_body_cases [where clk = clk and b = b and res = res])
      case (oom pt)
      with ok show ?thesis by simp
    next
      case (more pt tr)
      then show ?thesis using Cons.prems(3,5) ph
        decode_loop_post [of "st\<lparr>page_table := pt, recorder := tr, clock_reads := clock_reads st + 1\<rparr>"
          "vis @ [decoded s (clk (clock_reads st))]" rest clk "b - 1" "res @ [decode_result s DECODE]"] by auto
    next
      case (finish pt tr)
      then show ?thesis using Cons.prems(3,5) ph
        decode_loop_post [of "st\<lparr>page_table := pt, recorder := tr, clock_reads := clock_reads st + 1\<rparr>"
          vis rest clk "b - 1" "res @ [decode_result s FINISHED]"] by auto
    qed
  qed
qed simp

lemma reserved_chunk:
  assumes "loop_inv pt tr seqs ws" "reservation pt (seqs @ ws) \<le> num_blocks pt" "s \<in> set (seqs @ ws)"
    "phase s = PREFILL" "prefill_cursor s < length (prompt_tokens s)" "0 < max_prefill_chunk cfg" "0 < b"
  shows "\<exists>pt'. do_prefill_chunk cfg pt s b = Inr (chunk_size cfg s b, prefilled s (chunk_size cfg s b), pt')
    \<and> ensure_capacity pt (sid s) (prefill_cursor s + chunk_size cfg s b) = (True, pt')
    \<and> 0 < chunk_size cfg s b"
proof -
  have c: "0 < chunk_size cfg s b" using assms(5-7) by (simp add: chunk_size_def)
  have ok: "fst (ensure_capacity pt (sid s) (prefill_cursor s + chunk_size cfg s b))"
    by (rule reserved_grant [OF assms(1-3)])
      (use c assms(5) chunk_size_bounds(2) [of cfg s b] in \<open>auto simp: max_tokens_def\<close>)
  from assms(4) have "phase s \<noteq> FINISHED" by simp
  then show ?thesis
    by (cases rule: do_prefill_chunk_cases [where cfg = cfg and pt = pt and b = b])
      (use ok c assms(5) in \<open>auto simp: prefill_complete_def\<close>)
qed

lemma prefill_loop_progress:
  assumes "loop_inv (page_table st) (recorder st) (s # rest) (waiting st)"
    "reservation (page_table st) (s # rest) \<le> num_blocks (page_table st)"
    "0 < b" "0 < max_prefill_chunk (config st)" "phase s = PREFILL"
  shows "\<exists>new b' st'. prefill_loop [] (s # rest) b st res = Inr (b', st', res @ new) \<and> new \<noteq> []
     \<and> loop_inv (page_table st') (recorder st') (active st') (waiting st')"
proof -
  note d = loop_invD [OF assms(1)]
  have cur: "prefill_cursor s < length (prompt_tokens s)" "generated_tokens s = []"
    using d(3) assms(5) by (auto simp: active_ok_def)
  let ?n = "chunk_size (config st) s b"
  obtain pt where pt: "do_prefill_chunk (config st) (page_table st) s b = Inr (?n, prefilled s ?n, pt)"
    "ensure_capacity (page_table st) (sid s) (prefill_cursor s + ?n) = (True, pt)" "0 < ?n"
    using reserved_chunk [OF loop_inv_fewer [of "page_table st" "recorder st" "s # rest" "[]" "waiting st"] _ _ assms(5) cur(1) assms(4,3)]
      assms(1,2) by auto
  have "loop_inv pt (recorder st) (prefilled s ?n # rest) (waiting st)"
    by (rule loop_inv_granted [OF assms(1) pt(2)])
      (use cur assms(5) prefill_fits [OF cur(1) d(5)] in \<open>simp_all add: active_ok_prefilled kv_tokens_def\<close>)
  then obtain new b' st' where
    "prefill_loop [prefilled s ?n] rest (b - ?n) (st\<lparr>page_table := pt\<rparr>) (res @ [prefill_result (prefilled s ?n) ?n])
       = Inr (b', st', (res @ [prefill_result (prefilled s ?n) ?n]) @ new)"
    "loop_post (st\<lparr>page_table := pt\<rparr>) (prefilled s ?n # rest) (waiting st) (b - ?n) new b' st'"
    using prefill_loop_post [of "st\<lparr>page_table := pt\<rparr>" "[prefilled s ?n]" rest "b - ?n"
      "res @ [prefill_result (prefilled s ?n) ?n]"] by auto
  then show ?thesis using pt assms(3,5)
    by (intro exI [of _ "prefill_result (prefilled s ?n) ?n # new"]) (simp add: prefill_result_def loop_post_def)
qed

lemma admission_loop_progress:
  assumes "loop_inv (page_table st) (recorder st) (active st) (s # ws)"
    "reservation (page_table st) (active st @ [s]) \<le> num_blocks (page_table st)"
    "0 < b" "0 < max_prefill_chunk (config st)" "prompt_tokens s \<noteq> []"
  shows "\<exists>new b' st'. admission_loop (s # ws) b st res = Inr (b', st', res @ new) \<and> new \<noteq> []"
proof -
  have w: "phase s = PREFILL" "prefill_cursor s = 0" "prefill_cursor s < length (prompt_tokens s)" "generated_tokens s = []"
    using assms(1,5) by (auto simp: loop_inv_def waiting_ok_def)
  let ?n = "chunk_size (config st) s b"
  obtain pt where pt: "do_prefill_chunk (config st) (page_table st) s b = Inr (?n, prefilled s ?n, pt)"
    "ensure_capacity (page_table st) (sid s) (prefill_cursor s + ?n) = (True, pt)" "0 < ?n"
    using reserved_chunk [OF loop_inv_fewer [of "page_table st" "recorder st" "active st" "[s]" ws] _ _ w(1,3) assms(4,3)]
      assms(1,2) by auto
  let ?st = "st\<lparr>page_table := pt, waiting := ws, active := active st @ [prefilled s ?n]\<rparr>"
  have "loop_inv pt (recorder st) (prefilled s ?n # active st) ws"
    by (rule loop_inv_admitted [OF assms(1) pt(2)])
      (use w pt(3) active_ok_prefilled [OF w(3,4,1)] in \<open>simp_all add: kv_tokens_def\<close>)
  then have "loop_inv pt (recorder st) (active st @ [prefilled s ?n]) ws" by (simp add: loop_inv_mid)
  then obtain new b' st' where
    "admission_loop ws (b - ?n) ?st (res @ [prefill_result (prefilled s ?n) ?n])
       = Inr (b', st', (res @ [prefill_result (prefilled s ?n) ?n]) @ new)"
    using admission_loop_post [of ?st ws "b - ?n" "res @ [prefill_result (prefilled s ?n) ?n]"] by auto
  then show ?thesis using pt assms(3)
    by (intro exI [of _ "prefill_result (prefilled s ?n) ?n # new"]) (simp add: prefill_result_def)
qed

text \<open>The conditions under which the scheduler drains.\<close>

definition can_drain :: "ContinuousBatchingScheduler \<Rightarrow> bool" where
  "can_drain st \<longleftrightarrow> sched_inv st \<and> 0 < max_batch_tokens (config st) \<and> 0 < max_prefill_chunk (config st)
     \<and> (\<forall>s \<in> set (active st @ waiting st). prompt_tokens s \<noteq> [])
     \<and> reservation (page_table st) (active st @ waiting st) \<le> num_blocks (page_table st)"

text \<open>What an iteration needs to process a token: room for the active sequences at their largest, and for each
  waiting one alone.\<close>

definition can_progress :: "ContinuousBatchingScheduler \<Rightarrow> bool" where
  "can_progress st \<longleftrightarrow> sched_inv st \<and> 0 < max_batch_tokens (config st) \<and> 0 < max_prefill_chunk (config st)
     \<and> reservation (page_table st) (active st) \<le> num_blocks (page_table st)
     \<and> (\<forall>s \<in> set (waiting st). prompt_tokens s \<noteq> [] \<and> blocks_needed_for (page_table st) (max_tokens s) \<le> num_blocks (page_table st))"

lemma can_drain_progress: "can_drain st \<Longrightarrow> can_progress st"
proof -
  assume d: "can_drain st"
  have "blocks_needed_for (page_table st) (max_tokens s) \<le> reservation (page_table st) (waiting st)" if "s \<in> set (waiting st)" for s
    using that unfolding reservation_def by (intro member_le_sum_list) simp_all
  then show ?thesis using d by (force simp: can_drain_def can_progress_def reservation_def)
qed

lemma step_progress:
  assumes "can_progress st" "active st @ waiting st \<noteq> []" "step clk st = Inr (res, st')"
  shows "res \<noteq> []"
proof -
  let ?b = "max_batch_tokens (config st)" and ?A = "active st"
  have l: "loop_inv (page_table st) (recorder st) ([] @ ?A) (waiting st)"
    and r: "reservation (page_table st) ([] @ ?A) \<le> num_blocks (page_table st)"
    and pos: "0 < ?b" "0 < max_prefill_chunk (config st)"
    using assms(1) by (auto simp: can_progress_def sched_inv_def)
  obtain n1 b1 st1 where 1: "decode_loop clk [] ?A ?b st [] = Inr (b1, st1, [] @ n1)"
    "loop_inv (page_table st1) (recorder st1) (active st1) (waiting st1)"
    using decode_loop_post [OF l, of clk ?b "[]"] by (auto simp: loop_post_def)
  obtain n2 b2 st2 where 2: "prefill_loop [] (active st1) b1 st1 n1 = Inr (b2, st2, n1 @ n2)"
    "loop_inv (page_table st2) (recorder st2) (active st2) (waiting st2)"
    using prefill_loop_post [of st1 "[]" "active st1" b1 n1] 1(2) by (auto simp: loop_post_def)
  obtain n3 b3 st3 where 3: "admission_loop (waiting st2) b2 st2 (n1 @ n2) = Inr (b3, st3, (n1 @ n2) @ n3)"
    using admission_loop_post [of st2 "waiting st2" b2 "n1 @ n2"] 2(2) by auto
  have res: "res = n1 @ n2 @ n3" using 1(1) 2(1) 3 assms(3) by (simp add: step_def)
  show ?thesis
  proof (cases "decoding ?A = []")
    case False
    then have "n1 \<noteq> []" using decode_loop_progress [OF l r pos(1) _ 1(1)] by simp
    then show ?thesis using res by simp
  next
    case idle: True
    then have st1: "st1 = st" "b1 = ?b" "n1 = []" using 1(1) by (auto simp: decode_loop_idle)
    show ?thesis
    proof (cases ?A)
      case (Cons s rest)
      then have "phase s = PREFILL" using l idle by (auto simp: loop_inv_def active_ok_def split: if_splits)
      then show ?thesis using prefill_loop_progress [of st s rest ?b "[]"] l r pos Cons 2(1) st1 res by auto
    next
      case Nil
      then obtain s ws where w: "waiting st = s # ws" using assms(2) by (cases "waiting st") auto
      have "st2 = st" "b2 = ?b" "n2 = []" using 2(1) st1 Nil by auto
      moreover have "prompt_tokens s \<noteq> []" "reservation (page_table st) [s] \<le> num_blocks (page_table st)"
        using assms(1) w by (auto simp: can_progress_def reservation_def)
      ultimately show ?thesis using admission_loop_progress [of st s ws ?b "[]"] l r pos Nil w 3 st1 res by auto
    qed
  qed
qed

lemma reservation_eq:
  "reservation pt seqs = (\<Sum>(i, prompt, mx)\<leftarrow>map ticket seqs. blocks_needed_for pt (length prompt + max 1 (unat mx)))"
  by (simp add: reservation_def ticket_def max_tokens_def o_def)

lemma can_drain_step:
  assumes "can_drain st" "step clk st = Inr (res, st')"
  shows "can_drain st'"
proof (rule step_post [of st clk])
  show "sched_inv st" using assms(1) by (simp add: can_drain_def)
  fix decs prefs b st''
  assume s: "step clk st = Inr (decs @ prefs, st'')"
    "loop_post st (active st) (waiting st) (max_batch_tokens (config st)) (decs @ prefs) b st''"
  then have st'': "st'' = st'" using assms(2) by simp
  let ?T = "map ticket (active st @ waiting st)" and ?T' = "map ticket (active st' @ waiting st')"
  have T: "?T' = filter (\<lambda>t. fst t \<notin> finished_ids (decs @ prefs)) ?T" and sz: "same_size (page_table st') (page_table st)"
    using s(2) st'' by (auto simp: loop_post_def stage_def)
  have "reservation (page_table st') (active st' @ waiting st') \<le> reservation (page_table st) (active st @ waiting st)"
    unfolding reservation_eq T same_size_needed [OF sz]
    by (rule sum_list_filter_le_nat)
  moreover have "\<forall>t \<in> set (active st' @ waiting st'). prompt_tokens t \<noteq> []"
  proof
    fix t assume "t \<in> set (active st' @ waiting st')"
    then have "ticket t \<in> set ?T'" by auto
    then have "ticket t \<in> set ?T" unfolding T by (simp only: set_filter) blast
    then show "prompt_tokens t \<noteq> []" using assms(1) by (auto simp: can_drain_def ticket_def)
  qed
  ultimately show ?thesis using assms(1) s(2) sz
    by (auto simp: can_drain_def sched_inv_def loop_post_def st'' same_size_def)
qed

text \<open>Iterating \<open>step\<close>, as the engine's loop does.\<close>

fun run_steps :: "(nat \<Rightarrow> int) \<Rightarrow> nat \<Rightarrow> ContinuousBatchingScheduler \<Rightarrow> cpp_exn + ContinuousBatchingScheduler" where
  "run_steps clk 0 st = Inr st"
| "run_steps clk (Suc n) st = (case step clk st of Inl e \<Rightarrow> Inl e | Inr (res, st') \<Rightarrow> run_steps clk n st')"

lemma tokens_pos:
  assumes "sched_inv st" "step clk st = Inr (res, st')" "res \<noteq> []"
  shows "0 < tokens res"
proof (rule step_post [OF assms(1), of clk])
  fix decs prefs b st''
  assume s: "step clk st = Inr (decs @ prefs, st'')" "decode_results (active st) decs" "prefill_results (config st) prefs"
  have "0 < tokens_processed r" if "r \<in> set res" for r
    using that s assms(2) by (auto simp: decode_result_def)
  then show ?thesis using assms(3) by (cases res) (auto simp: tokens_def)
qed

text \<open>A condition that every iteration keeps and that guarantees progress drains the scheduler, one token at least
  per iteration.\<close>

locale draining =
  fixes ok :: "ContinuousBatchingScheduler \<Rightarrow> bool"
  assumes progress: "ok st \<Longrightarrow> can_progress st"
    and preserved: "ok st \<Longrightarrow> step clk st = Inr (res, st') \<Longrightarrow> ok st'"
begin

lemma step_work:
  assumes "ok st" "active st @ waiting st \<noteq> []"
  shows "\<exists>res st'. step clk st = Inr (res, st') \<and> ok st' \<and> sched_inv st' \<and> 0 < tokens res
     \<and> work (active st' @ waiting st') + tokens res = work (active st @ waiting st)"
proof -
  have inv: "sched_inv st" using progress [OF assms(1)] by (simp add: can_progress_def)
  obtain res st' where st': "step clk st = Inr (res, st')" "sched_inv st'" using step_inv [OF inv] by blast
  have "res \<noteq> []" by (rule step_progress [OF progress [OF assms(1)] assms(2) st'(1)])
  then have "0 < tokens res" using tokens_pos [OF inv st'(1)] by simp
  moreover have "work (active st' @ waiting st') + tokens res = work (active st @ waiting st)"
    by (rule step_post [OF inv, of clk]) (use st'(1) in \<open>auto simp: loop_post_def stage_def\<close>)
  ultimately show ?thesis using st' preserved [OF assms(1) st'(1)] by blast
qed

lemma drains:
  assumes "ok st"
  shows "\<exists>n \<le> work (active st @ waiting st). \<exists>st'. run_steps clk n st = Inr st' \<and> ok st'
    \<and> active st' = [] \<and> waiting st' = [] \<and> free_block_count (page_table st') = num_blocks (page_table st')"
  using assms
proof (induction "work (active st @ waiting st)" arbitrary: st rule: less_induct)
  case less
  show ?case
  proof (cases "active st @ waiting st = []")
    case True
    have "sched_inv st" using progress [OF less.prems] by (simp add: can_progress_def)
    then have "free_block_count (page_table st) + (\<Sum>j\<in>({} :: u64 set). owned_count (page_table st) j) = num_blocks (page_table st)"
      using True by (intro pt_conserved) (auto simp: sched_inv_def loop_inv_def mem_ok_def)
    then show ?thesis using True less.prems by (intro exI [of _ 0]) simp
  next
    case False
    obtain res st' where s: "step clk st = Inr (res, st')" "ok st'" "0 < tokens res"
      "work (active st' @ waiting st') + tokens res = work (active st @ waiting st)"
      using step_work [OF less.prems False] by blast
    then have "work (active st' @ waiting st') < work (active st @ waiting st)" by simp
    from less.hyps [OF this s(2)]
    obtain n st'' where n: "n \<le> work (active st' @ waiting st')" "run_steps clk n st' = Inr st''" "ok st''"
      "active st'' = []" "waiting st'' = []" "free_block_count (page_table st'') = num_blocks (page_table st'')"
      by blast
    then show ?thesis using s by (intro exI [of _ "Suc n"]) auto
  qed
qed

end

interpretation reserved: draining can_drain
  by unfold_locales (rule can_drain_progress can_drain_step; assumption)+

text \<open>Every request completes when the memory suffices: if the block demand of all requests at their
  largest fits in the cache, no prompt is empty and the budgets are positive, then after at most as many
  iterations as there are tokens left to process the scheduler is empty and all blocks are free again.\<close>

theorem all_requests_complete:
  assumes "sched_inv st" "0 < max_batch_tokens (config st)" "0 < max_prefill_chunk (config st)"
    "\<forall>s \<in> set (active st @ waiting st). prompt_tokens s \<noteq> []"
    "(\<Sum>s\<leftarrow>active st @ waiting st. blocks_needed_for (page_table st) (max_tokens s)) \<le> num_blocks (page_table st)"
  shows "\<exists>n \<le> work (active st @ waiting st). \<exists>st'. run_steps clk n st = Inr st'
    \<and> active st' = [] \<and> waiting st' = [] \<and> free_block_count (page_table st') = num_blocks (page_table st')"
  using reserved.drains [of st clk] assms by (auto simp: can_drain_def reservation_def)

theorem all_requests_complete_witness:
  "sched_inv demo_sched \<and> work (active demo_sched @ waiting demo_sched) = 6
     \<and> (\<exists>n \<le> 6. \<exists>st'. run_steps (\<lambda>_. 0) n demo_sched = Inr st' \<and> active st' = [] \<and> waiting st' = [])"
proof -
  have w: "work (active demo_sched @ waiting demo_sched) = 6"
    by (simp add: demo_sched_def remaining_def new_Sequence_def)
  have "0 < max_batch_tokens (config demo_sched)" "0 < max_prefill_chunk (config demo_sched)"
    "\<forall>s \<in> set (active demo_sched @ waiting demo_sched). prompt_tokens s \<noteq> []"
    "(\<Sum>s\<leftarrow>active demo_sched @ waiting demo_sched. blocks_needed_for (page_table demo_sched) (max_tokens s))
       \<le> num_blocks (page_table demo_sched)"
    by (simp_all add: demo_sched_def new_Sequence_def max_tokens_def eval_simps)
  from all_requests_complete [OF demo_sched_inv this, of "\<lambda>_. 0"] demo_sched_inv w show ?thesis by auto
qed

section \<open>Loss of progress\<close>

lemma step_waiting_empty_prompt:
  assumes "sched_inv st" "waiting st = s # ws" "prompt_tokens s = []" "step clk st = Inr (res, st')"
  shows "\<exists>s'. waiting st' = s' # ws \<and> ticket s' = ticket s"
proof -
  let ?b = "max_batch_tokens (config st)"
  have l: "loop_inv (page_table st) (recorder st) ([] @ active st) (waiting st)" using assms(1) by (simp add: sched_inv_def)
  obtain n1 b1 st1 where 1: "decode_loop clk [] (active st) ?b st [] = Inr (b1, st1, n1)"
    "loop_inv (page_table st1) (recorder st1) (active st1) (waiting st1)" "waiting st1 = waiting st"
    using decode_loop_post [OF l, of clk ?b "[]"] by (auto simp: loop_post_def)
  obtain n2 b2 st2 where 2: "prefill_loop [] (active st1) b1 st1 n1 = Inr (b2, st2, n1 @ n2)"
    "waiting st2 = waiting st1"
    using prefill_loop_post [of st1 "[]" "active st1" b1 n1] 1(2) by auto
  have s: "phase s \<noteq> FINISHED" "prefill_complete s"
    using assms(1,2,3) by (auto simp: sched_inv_def loop_inv_def waiting_ok_def prefill_complete_def)
  have "do_prefill_chunk (config st2) (page_table st2) s b2 = Inr (0, s\<lparr>phase := DECODE\<rparr>, page_table st2)"
    using s by (cases "phase s") (simp_all add: do_prefill_chunk_def)
  then show ?thesis using 1 2 assms(2,4)
    by (cases "b2 = 0") (auto simp: step_def ticket_def)
qed

text \<open>C30. A request with an empty prompt at the head of the waiting queue is never admitted, and blocks
  every request behind it for ever: after any number of iterations the waiting queue holds the same
  requests.\<close>

theorem empty_prompt_blocks_admission:
  assumes "sched_inv st" "waiting st = s # ws" "prompt_tokens s = []"
  shows "\<exists>st'. run_steps clk n st = Inr st' \<and> map ticket (waiting st') = map ticket (waiting st)"
  using assms
proof (induction n arbitrary: st s)
  case (Suc n)
  obtain res st' where st': "step clk st = Inr (res, st')" "sched_inv st'" using step_inv [OF Suc.prems(1)] by blast
  obtain s' where s': "waiting st' = s' # ws" "ticket s' = ticket s"
    using step_waiting_empty_prompt [OF Suc.prems st'(1)] by blast
  then have "prompt_tokens s' = []" using Suc.prems(3) by (simp add: ticket_def)
  from Suc.IH [OF st'(2) s'(1) this] show ?case using st'(1) s' Suc.prems(2) by auto
qed simp

text \<open>Every decoding sequence lacks more blocks than are free.\<close>

definition starved :: "PagedKVCacheAllocator \<Rightarrow> Sequence list \<Rightarrow> bool" where
  "starved pt seqs \<longleftrightarrow> (\<forall>s \<in> set seqs. phase s = DECODE \<and> free_block_count pt < grow_cost pt s)"

lemma starved_decode_loop:
  assumes "loop_inv (page_table st) (recorder st) (vis @ todo) ws" "starved (page_table st) todo"
  shows "\<exists>pt. decode_loop clk vis todo b st res = Inr (b, st\<lparr>page_table := pt, active := vis @ todo\<rparr>, res)
     \<and> same_size pt (page_table st) \<and> free_block_count pt = free_block_count (page_table st)"
  using assms
proof (induction todo arbitrary: vis st)
  case Nil
  then show ?case by (intro exI [of _ "page_table st"]) (simp add: same_size_def)
next
  case (Cons s rest)
  let ?p = "page_table st"
  have inv: "loop_inv ?p (recorder st) (s # vis @ rest) ws" using Cons.prems(1) by (simp add: loop_inv_mid)
  note d = loop_invD [OF inv]
  have s: "phase s = DECODE" "free_block_count ?p < grow_cost ?p s" using Cons.prems(2) by (simp_all add: starved_def)
  show ?case
  proof (cases "b = 0")
    case True
    then show ?thesis by (intro exI [of _ ?p]) (simp add: same_size_def)
  next
    case False
    have "\<not> fst (ensure_capacity ?p (sid s) (kv_tokens s + 1))"
      using s(2) d(6) by (simp add: pt.ensure_iff [OF d(1)] grow_cost_def)
    then obtain pt where e: "ensure_capacity ?p (sid s) (kv_tokens s + 1) = (False, pt)"
      by (metis (full_types) prod.collapse)
    have tot: "total_tokens s = kv_tokens s"
      using d(3) s(1) by (auto simp: active_ok_def total_tokens_def kv_tokens_def)
    have same: "same_size pt ?p" "free_block_count pt = free_block_count ?p"
      using same_size_ensure [OF e] ensure_refused_free [OF d(1) e] .
    have "starved pt rest"
      using Cons.prems(2) same by (simp add: starved_def grow_cost_def same_size_needed)
    then obtain pt' where "decode_loop clk (vis @ [s]) rest b (st\<lparr>page_table := pt\<rparr>) res
        = Inr (b, st\<lparr>page_table := pt', active := vis @ s # rest\<rparr>, res)"
      "same_size pt' pt" "free_block_count pt' = free_block_count pt"
      using Cons.IH [of "st\<lparr>page_table := pt\<rparr>" "vis @ [s]"] loop_inv_refused [OF Cons.prems(1) e] by auto
    then show ?thesis using same False s(1) e tot
      by (intro exI [of _ pt']) (auto simp: decode_body_def same_size_def)
  qed
qed

text \<open>A decoding sequence needs at most one more block, so nothing is free, and nobody can be admitted.\<close>

lemma starved_no_blocks:
  assumes "loop_inv pt tr (s # seqs) ws" "starved pt (s # seqs)"
  shows "free_block_count pt = 0"
proof -
  note d = loop_invD [OF assms(1)]
  have "length (generated_tokens s) < max 1 (unat (max_new_tokens s))" "prefill_cursor s = length (prompt_tokens s)"
    using d(3) assms(2) by (auto simp: active_ok_def starved_def)
  then have b: "kv_tokens s + 1 + block_size pt \<le> 2 ^ 64" using d(5) by (simp add: kv_tokens_def max_tokens_def)
  then have "blocks_needed_for pt (kv_tokens s + 1) = (kv_tokens s + block_size pt) div block_size pt"
    "blocks_needed_for pt (kv_tokens s) = (kv_tokens s + block_size pt - 1) div block_size pt"
    using blocks_needed_for_eq [OF d(7)] d(4) by simp_all
  moreover have "(n + 1) div k \<le> n div k + 1" for n k :: nat by (metis Suc_eq_plus1 div_Suc le_Suc_eq order_refl)
  from this [of "kv_tokens s + block_size pt - 1" "block_size pt"]
  have "(kv_tokens s + block_size pt) div block_size pt \<le> (kv_tokens s + block_size pt - 1) div block_size pt + 1" using d(7) by simp
  ultimately have "grow_cost pt s \<le> 1" by (simp add: grow_cost_def)
  moreover have "free_block_count pt < grow_cost pt s" using assms(2) by (simp add: starved_def)
  ultimately show ?thesis by linarith
qed

lemma admission_without_blocks:
  assumes "loop_inv (page_table st) (recorder st) (active st) ws" "free_block_count (page_table st) = 0"
  shows "\<exists>pt ws'. admission_loop ws b st [] = Inr (b, st\<lparr>page_table := pt, waiting := ws'\<rparr>, [])
     \<and> map ticket ws' = map ticket ws \<and> same_size pt (page_table st) \<and> free_block_count pt = 0"
proof (cases "ws = [] \<or> b = 0")
  case True
  then have "admission_loop ws b st [] = Inr (b, st\<lparr>waiting := ws\<rparr>, [])" by (cases ws) auto
  then show ?thesis using assms(2) by (intro exI [of _ "page_table st"] exI [of _ ws]) (simp add: same_size_def)
next
  case False
  then obtain s rest where ws: "ws = s # rest" "b \<noteq> 0" by (cases ws) auto
  have s: "waiting_ok s" "sid s \<notin> sid ` set (active st)" "max_tokens s + block_size (page_table st) \<le> 2 ^ 64"
    "pt_inv (page_table st)" "0 < block_size (page_table st)" and free: "owned_count (page_table st) (sid s) = 0"
    using assms(1) ws by (auto simp: loop_inv_def mem_ok_def pt_inv_def)
  then have "phase s \<noteq> FINISHED" by (auto simp: waiting_ok_def)
  then show ?thesis
  proof (cases rule: do_prefill_chunk_cases [where cfg = "config st" and pt = "page_table st" and b = b])
    case complete
    then show ?thesis using ws assms(2)
      by (intro exI [of _ "page_table st"] exI [of _ "s\<lparr>phase := DECODE\<rparr> # rest"]) (simp add: same_size_def ticket_def)
  next
    case zero
    then show ?thesis using ws assms(2) by (intro exI [of _ "page_table st"] exI [of _ ws]) (simp add: same_size_def)
  next
    case (oom pt)
    then show ?thesis using ws assms(2) same_size_ensure [OF oom(3)] ensure_refused_free [OF s(4) oom(3)]
      by (intro exI [of _ pt] exI [of _ ws]) simp
  next
    case (chunk pt)
    let ?n = "prefill_cursor s + chunk_size (config st) s b"
    have "?n \<le> max_tokens s" using s(1) by (auto simp: chunk_size_def max_tokens_def waiting_ok_def)
    then have "0 < blocks_needed_for (page_table st) ?n"
      using blocks_needed_for_eq [OF s(5), of ?n] chunk(2) s(3,5) by (simp add: div_greater_zero_iff)
    then show ?thesis using ensure_free_count [OF s(4) chunk(3)] assms(2) free by simp
  qed
qed

lemma starved_step:
  assumes "sched_inv st" "starved (page_table st) (active st)" "active st \<noteq> []"
  shows "\<exists>st'. step clk st = Inr ([], st') \<and> active st' = active st \<and> map ticket (waiting st') = map ticket (waiting st)
     \<and> starved (page_table st') (active st')"
proof -
  let ?b = "max_batch_tokens (config st)"
  have l: "loop_inv (page_table st) (recorder st) ([] @ active st) (waiting st)" using assms(1) by (simp add: sched_inv_def)
  have none: "free_block_count (page_table st) = 0" using starved_no_blocks l assms(2,3) by (cases "active st") auto
  obtain pt where pt: "decode_loop clk [] (active st) ?b st [] = Inr (?b, st\<lparr>page_table := pt, active := active st\<rparr>, [])"
    "same_size pt (page_table st)" "free_block_count pt = free_block_count (page_table st)"
    using starved_decode_loop [OF l assms(2), of clk ?b "[]"] by auto
  let ?st = "st\<lparr>page_table := pt\<rparr>"
  have inv: "loop_inv (page_table ?st) (recorder ?st) (active ?st) (waiting ?st)"
    using decode_loop_post [OF l, of clk ?b "[]"] pt(1) by (auto simp: loop_post_def)
  have idle: "prefill_loop vis todo b st1 [] = Inr (b, st1\<lparr>active := vis @ todo\<rparr>, [])"
    if "\<forall>s \<in> set todo. phase s = DECODE" for vis todo b st1
    using that by (induction todo arbitrary: vis) auto
  have dec: "\<forall>s \<in> set (active st). phase s = DECODE" using assms(2) by (simp add: starved_def)
  have none': "free_block_count (page_table ?st) = 0" using none pt(3) by simp
  from admission_without_blocks [OF inv none', of ?b] obtain pt' ws' where a:
    "admission_loop (waiting st) ?b ?st [] = Inr (?b, ?st\<lparr>page_table := pt', waiting := ws'\<rparr>, [])"
    "map ticket ws' = map ticket (waiting st)" "same_size pt' pt" "free_block_count pt' = 0" by auto
  have "step clk st = Inr ([], st\<lparr>page_table := pt', waiting := ws'\<rparr>)" using pt(1) a(1) idle [OF dec] by (simp add: step_def)
  moreover have "starved pt' (active st)"
    using assms(2) pt(2) a(3,4) none by (simp add: starved_def grow_cost_def same_size_needed)
  ultimately show ?thesis using a(2) by (intro exI [of _ "st\<lparr>page_table := pt', waiting := ws'\<rparr>"]) simp
qed

text \<open>Iterations, arrivals and drains of the telemetry in any order, with the results of the iterations.\<close>

inductive sched_later :: "ContinuousBatchingScheduler \<Rightarrow> StepResult list \<Rightarrow> ContinuousBatchingScheduler \<Rightarrow> bool" for st0 where
  same: "sched_later st0 [] st0"
| admitted: "sched_later st0 res st \<Longrightarrow> i \<notin> sid ` set (active st @ waiting st) \<Longrightarrow>
    length prompt + max 1 (unat mx) + block_size (page_table st) \<le> 2 ^ 64 \<Longrightarrow> sched_later st0 res (admit st (new_Sequence now i prompt mx))"
| stepped: "sched_later st0 res st \<Longrightarrow> step clk st = Inr (new, st') \<Longrightarrow> sched_later st0 (res @ new) st'"
| flushed: "sched_later st0 res st \<Longrightarrow> drain_step f (recorder st) = Some (f', r) \<Longrightarrow> sched_later st0 res (st\<lparr>recorder := r\<rparr>)"

text \<open>C31. There is no preemption: once there are active sequences, all of them decoding and each in need of more blocks than
  are free, the scheduler is stuck for ever. Whatever is waiting and whatever arrives later, every further iteration returns
  without a result, the active sequences stay as they are, and the waiting requests stay in the queue.\<close>

theorem starved_scheduler_is_stuck:
  assumes "sched_inv st" "starved (page_table st) (active st)" "active st \<noteq> []" "sched_later st res st'"
  shows "res = [] \<and> active st' = active st \<and> (\<exists>arrived. map ticket (waiting st') = map ticket (waiting st) @ arrived)
     \<and> (\<exists>st''. step clk st' = Inr ([], st''))"
proof -
  have "res = [] \<and> active st' = active st \<and> (\<exists>arrived. map ticket (waiting st') = map ticket (waiting st) @ arrived)
      \<and> sched_inv st' \<and> starved (page_table st') (active st')"
    using assms(4)
  proof (induction rule: sched_later.induct)
    case same
    then show ?case using assms(1,2) by simp
  next
    case (admitted res t i prompt mx now)
    have "sched_inv (admit t (new_Sequence now i prompt mx))"
      using admitted new_Sequence_ok by (intro sched_inv_admit) auto
    then show ?case using admitted by (auto simp: admit_def)
  next
    case (stepped res t clk new t')
    then have "\<exists>u. step clk t = Inr ([], u) \<and> active u = active t \<and> map ticket (waiting u) = map ticket (waiting t) \<and> starved (page_table u) (active u)"
      using starved_step [of t clk] assms(3) by auto
    moreover have "sched_inv t'" using step_inv [of t clk] stepped by auto
    ultimately show ?case using stepped by auto
  next
    case (flushed res t f f' r)
    then show ?case using sched_inv_flushed by auto
  qed
  then show ?thesis using starved_step [of st' clk] assms(3) by auto
qed

text \<open>Two blocks of one token, two requests of one prompt token and one new token each: either fits alone,
  together they reach a state in which both hold one block and need a second one.\<close>

lemma demo_starved:
  "\<exists>st. sched_run \<lparr>max_batch_tokens = 8, max_prefill_chunk = 8\<rparr> 1 2 st \<and> starved (page_table st) (active st)
     \<and> waiting st = [] \<and> map sid (active st) = [1, 2]"
proof -
  let ?cfg = "\<lparr>max_batch_tokens = 8, max_prefill_chunk = 8\<rparr>"
  let ?pt = "\<lparr>block_size = 1, num_blocks = 2, free_blocks = [1, 0], tables = []\<rparr>"
  let ?init = "new_ContinuousBatchingScheduler ?cfg ?pt initial_TelemetryRecorder"
  let ?two = "admit (admit ?init (new_Sequence 0 1 [5] 1)) (new_Sequence 0 2 [6] 1)"
  have "new_PagedKVCacheAllocator 1 2 = Inr ?pt" by (simp add: eval_simps)
  then have "sched_run ?cfg 1 2 ?init" by (rule sched_run.created)
  then have "sched_run ?cfg 1 2 (admit ?init (new_Sequence 0 1 [5] 1))"
    by (rule sched_run.admitted) (simp_all add: new_ContinuousBatchingScheduler_def)
  then have two: "sched_run ?cfg 1 2 ?two"
    by (rule sched_run.admitted) (simp_all add: new_ContinuousBatchingScheduler_def admit_def new_Sequence_def)
  obtain res st where st: "step (\<lambda>_. 0) ?two = Inr (res, st)"
    using step_inv [of ?two "\<lambda>_. 0"] sched_run_inv [OF two] by metis
  have "waiting st = [] \<and> map sid (active st) = [1, 2] \<and> starved (page_table st) (active st)"
    using st by (auto simp: step_def new_ContinuousBatchingScheduler_def admit_def new_Sequence_def do_prefill_chunk_def
      prefill_complete_def starved_def grow_cost_def kv_tokens_def free_block_count_def eval_simps)
  then show ?thesis by (intro exI [of _ st] conjI sched_run.stepped [OF two st]) simp_all
qed

theorem starved_scheduler_is_stuck_witness:
  "\<exists>st st'. sched_run \<lparr>max_batch_tokens = 8, max_prefill_chunk = 8\<rparr> 1 2 st \<and> map sid (active st) = [1, 2]
     \<and> sched_later st [] st' \<and> waiting st' \<noteq> [] \<and> active st' = active st \<and> (\<exists>st''. step (\<lambda>_. 0) st' = Inr ([], st''))"
proof -
  from demo_starved obtain st where st: "sched_run \<lparr>max_batch_tokens = 8, max_prefill_chunk = 8\<rparr> 1 2 st" "starved (page_table st) (active st)"
    "waiting st = []" "map sid (active st) = [1, 2]" by (elim exE conjE)
  have inv: "sched_inv st" "block_size (page_table st) = 1" using sched_run_inv [OF st(1)] by simp_all
  let ?t = "admit st (new_Sequence 0 3 [7] 1)"
  have "set (map sid (active st)) = {1, 2}" using st(4) by simp
  then have ids: "3 \<notin> sid ` set (active st @ waiting st)" using st(3) by auto
  have t: "sched_later st [] ?t" by (rule sched_later.admitted [OF sched_later.same ids]) (simp add: inv(2))
  have "active st \<noteq> []" using st(4) by auto
  from starved_scheduler_is_stuck [OF inv(1) st(2) this t, of "\<lambda>_. 0"] show ?thesis
    using st(1,4) t by (intro exI [of _ st] exI [of _ ?t]) (simp add: admit_def)
qed

definition demo_blocked :: ContinuousBatchingScheduler where
  "demo_blocked = demo_sched\<lparr>active := [], waiting := [new_Sequence 0 8 [] 4, new_Sequence 0 9 [1] 4],
     page_table := \<lparr>block_size = 2, num_blocks = 3, free_blocks = [2, 1, 0], tables = []\<rparr>\<rparr>"

theorem empty_prompt_blocks_admission_witness:
  "sched_inv demo_blocked \<and> (\<exists>st'. run_steps (\<lambda>_. 0) 1000 demo_blocked = Inr st'
     \<and> map ticket (waiting st') = [(8, [], 4), (9, [1], 4)])"
proof -
  have "tel_inv (recorder demo_blocked)"
    using demo_sched_inv by (simp add: sched_inv_def loop_inv_def demo_blocked_def)
  then have inv: "sched_inv demo_blocked"
    by (simp add: sched_inv_def loop_inv_def demo_blocked_def mem_ok_def pt_inv_def physical_blocks_def upt_rec
        waiting_ok_def new_Sequence_def max_tokens_def eval_simps)
  have w: "waiting demo_blocked = new_Sequence 0 8 [] 4 # [new_Sequence 0 9 [1] 4]" by (simp add: demo_blocked_def)
  have "prompt_tokens (new_Sequence 0 8 [] 4) = []" by (simp add: new_Sequence_def)
  note blocked = empty_prompt_blocks_admission [OF inv w this, of "\<lambda>_. 0" 1000]
  have "map ticket (waiting demo_blocked) = [(8, [], 4), (9, [1], 4)]" by (simp add: w ticket_def new_Sequence_def)
  with blocked inv show ?thesis by metis
qed

end
