(* ===== verification/Scheduler_Batch.thy ===== *)
theory Scheduler_Batch
  imports Scheduler_Progress
begin

text \<open>
  The token budget bounds the batch. Every sequence that takes part in an iteration costs at least one token of
  the budget, and the admission loop only spends what the active sequences leave; so as long as no request for
  blocks is refused, there are never more active sequences than \<open>max_batch_tokens\<close>. Hence memory for that many
  requests is enough for any number of them: the scheduler completes all requests, however many wait.
\<close>

section \<open>Budget and batch\<close>

abbreviation prefilling :: "Sequence list \<Rightarrow> Sequence list" where
  "prefilling seqs \<equiv> filter (\<lambda>s. phase s = PREFILL) seqs"

lemma reservation_simps [simp]:
  "reservation pt [] = 0" "reservation pt (s # seqs) = blocks_needed_for pt (max_tokens s) + reservation pt seqs"
  "reservation pt (seqs @ seqs') = reservation pt seqs + reservation pt seqs'"
  by (simp_all add: reservation_def)

lemma reservation_same_size: "same_size p q \<Longrightarrow> reservation p seqs = reservation q seqs"
  by (simp add: reservation_def same_size_needed)

lemma reservation_le:
  "\<forall>s \<in> set seqs. blocks_needed_for pt (max_tokens s) \<le> q \<Longrightarrow> reservation pt seqs \<le> length seqs * q"
  by (induction seqs) auto

lemma active_phases:
  "\<forall>s \<in> set seqs. active_ok s \<Longrightarrow> length (decoding seqs) + length (prefilling seqs) = length seqs"
  by (induction seqs) (auto simp: active_ok_def)

text \<open>Unless the budget runs out, the decode loop spends a token on every decoding sequence, and the prefill loop
  one at least on every sequence in prefill.\<close>

lemma decode_loop_batch:
  assumes "loop_inv (page_table st) (recorder st) (vis @ todo) ws"
    "reservation (page_table st) (vis @ todo) \<le> num_blocks (page_table st)"
    "decode_loop clk vis todo b st res = Inr (b', st', res')"
  shows "(b' = 0 \<or> b' + length (decoding todo) \<le> b) \<and> prefilling (active st') = prefilling (vis @ todo)
     \<and> length (active st') \<le> length (vis @ todo)
     \<and> reservation (page_table st') (active st') \<le> reservation (page_table st) (vis @ todo)"
  using assms
proof (induction todo arbitrary: vis b st res)
  case (Cons s rest)
  show ?case
  proof (cases "b = 0 \<or> phase s \<noteq> DECODE")
    case True
    then show ?thesis using Cons.IH [of st "vis @ [s]" b res] Cons.prems by (cases "b = 0") auto
  next
    case False
    then have b: "0 < b" and ph: "phase s = DECODE" by auto
    have ok: "fst (ensure_capacity (page_table st) (sid s) (kv_tokens s + 1))"
      by (rule decode_grant [OF Cons.prems(1,2) _ ph]) simp
    from Cons.prems(1) ph show ?thesis
    proof (cases rule: decode_body_cases [where clk = clk and b = b and res = res])
      case (oom pt)
      with ok show ?thesis by simp
    next
      case (more pt tr)
      let ?st = "st\<lparr>page_table := pt, recorder := tr, clock_reads := clock_reads st + 1\<rparr>"
      have "reservation pt (vis @ decoded s (clk (clock_reads st)) # rest) = reservation (page_table st) (vis @ s # rest)"
        "num_blocks pt = num_blocks (page_table st)"
        using more(4) by (simp add: reservation_same_size same_size_needed, simp add: same_size_def)
      then show ?thesis
        using Cons.IH [of ?st "vis @ [decoded s (clk (clock_reads st))]" "b - 1" "res @ [decode_result s DECODE]"]
          more(2,3) Cons.prems(2,3) b ph by auto
    next
      case (finish pt tr)
      let ?st = "st\<lparr>page_table := pt, recorder := tr, clock_reads := clock_reads st + 1\<rparr>"
      have "reservation pt (vis @ rest) \<le> reservation (page_table st) (vis @ s # rest)"
        "num_blocks pt = num_blocks (page_table st)"
        using finish(5) by (simp add: reservation_same_size, simp add: same_size_def)
      then show ?thesis
        using Cons.IH [of ?st vis "b - 1" "res @ [decode_result s FINISHED]"] finish(2,3) Cons.prems(2,3) b ph by auto
    qed
  qed
qed auto

lemma prefill_loop_batch:
  assumes "loop_inv (page_table st) (recorder st) (vis @ todo) ws"
    "reservation (page_table st) (vis @ todo) \<le> num_blocks (page_table st)" "0 < max_prefill_chunk (config st)"
    "prefill_loop vis todo b st res = Inr (b', st', res')"
  shows "(b' = 0 \<or> b' + length (prefilling todo) \<le> b) \<and> length (active st') = length (vis @ todo)"
  using assms
proof (induction todo arbitrary: vis b st res)
  case (Cons s rest)
  show ?case
  proof (cases "b = 0 \<or> phase s \<noteq> PREFILL")
    case True
    then show ?thesis using Cons.IH [of st "vis @ [s]" b res] Cons.prems by (cases "b = 0") auto
  next
    case False
    then have b: "0 < b" and ph: "phase s = PREFILL" by auto
    let ?n = "chunk_size (config st) s b"
    have "prefill_cursor s < length (prompt_tokens s)" using Cons.prems(1) ph by (auto simp: loop_inv_def active_ok_def)
    then obtain pt where pt: "do_prefill_chunk (config st) (page_table st) s b = Inr (?n, prefilled s ?n, pt)"
      "ensure_capacity (page_table st) (sid s) (prefill_cursor s + ?n) = (True, pt)" "0 < ?n"
      using reserved_chunk [OF loop_inv_fewer [of "page_table st" "recorder st" "vis @ s # rest" "[]" ws] _ _ ph _ Cons.prems(3) b]
        Cons.prems(1,2) by auto
    have "reservation pt (vis @ prefilled s ?n # rest) \<le> num_blocks pt"
      using Cons.prems(2) same_size_ensure [OF pt(2)]
      by (simp add: reservation_same_size same_size_needed) (simp add: same_size_def)
    then show ?thesis
      using Cons.IH [of "st\<lparr>page_table := pt\<rparr>" "vis @ [prefilled s ?n]" "b - ?n" "res @ [prefill_result (prefilled s ?n) ?n]"]
        loop_inv_prefilled [OF Cons.prems(1) ph pt(2)] Cons.prems(3,4) pt(1,3) b ph chunk_size_bounds(1) [of "config st" s b]
      by (auto simp: prefill_result_def)
  qed
qed auto

lemma do_prefill_chunk_le: "do_prefill_chunk cfg pt s b = Inr (n, s', pt') \<Longrightarrow> n \<le> b"
  by (auto simp: do_prefill_chunk_def Let_def split: if_splits sum.splits prod.splits)

lemma admission_loop_batch:
  "admission_loop ws b st res = Inr (b', st', res') \<Longrightarrow> b' + length (active st') \<le> b + length (active st)"
proof (induction ws arbitrary: b st res)
  case (Cons s ws)
  then show ?case
    by (fastforce split: if_splits sum.splits prod.splits dest: do_prefill_chunk_le)
qed auto

section \<open>Draining\<close>

text \<open>A request with a prompt and at most \<open>q\<close> blocks at its largest.\<close>

fun request_fits :: "PagedKVCacheAllocator \<Rightarrow> nat \<Rightarrow> u64 \<times> u32 list \<times> u32 \<Rightarrow> bool" where
  "request_fits pt q (i, prompt, mx) \<longleftrightarrow> prompt \<noteq> [] \<and> blocks_needed_for pt (length prompt + max 1 (unat mx)) \<le> q"

lemma request_fits_tickets:
  "(\<forall>t \<in> set (map ticket seqs). request_fits pt q t)
     \<longleftrightarrow> (\<forall>s \<in> set seqs. prompt_tokens s \<noteq> [] \<and> blocks_needed_for pt (max_tokens s) \<le> q)"
  by (induction seqs) (auto simp: ticket_def max_tokens_def)

text \<open>The batch is within the budget, and a budget's worth of requests, each of at most \<open>q\<close> blocks, fits.\<close>

definition batch_ok :: "nat \<Rightarrow> ContinuousBatchingScheduler \<Rightarrow> bool" where
  "batch_ok q st \<longleftrightarrow> sched_inv st \<and> 0 < max_batch_tokens (config st) \<and> 0 < max_prefill_chunk (config st)
     \<and> length (active st) \<le> max_batch_tokens (config st)
     \<and> max_batch_tokens (config st) * q \<le> num_blocks (page_table st)
     \<and> (\<forall>s \<in> set (active st @ waiting st). prompt_tokens s \<noteq> [] \<and> blocks_needed_for (page_table st) (max_tokens s) \<le> q)"

lemma batch_ok_reservation:
  assumes "batch_ok q st"
  shows "reservation (page_table st) (active st) \<le> num_blocks (page_table st)"
proof -
  have "reservation (page_table st) (active st) \<le> length (active st) * q"
    using assms by (intro reservation_le) (simp add: batch_ok_def)
  also have "\<dots> \<le> max_batch_tokens (config st) * q" using assms by (simp add: batch_ok_def)
  also have "\<dots> \<le> num_blocks (page_table st)" using assms by (simp add: batch_ok_def)
  finally show ?thesis .
qed

lemma batch_ok_progress: "batch_ok q st \<Longrightarrow> can_progress st"
proof -
  assume b: "batch_ok q st"
  have "q \<le> max_batch_tokens (config st) * q" using b by (simp add: batch_ok_def)
  also have "\<dots> \<le> num_blocks (page_table st)" using b by (simp add: batch_ok_def)
  finally have "q \<le> num_blocks (page_table st)" .
  with b batch_ok_reservation [OF b] show ?thesis by (force simp: batch_ok_def can_progress_def)
qed

text \<open>A step keeps the batch within the budget.\<close>

lemma step_batch:
  assumes b: "batch_ok q st" and st': "step clk st = Inr (res, st')"
  shows "length (active st') \<le> max_batch_tokens (config st)"
proof -
  let ?B = "max_batch_tokens (config st)" and ?A = "active st"
  have l: "loop_inv (page_table st) (recorder st) ([] @ ?A) (waiting st)"
    and r: "reservation (page_table st) ([] @ ?A) \<le> num_blocks (page_table st)"
    using b batch_ok_reservation [OF b] by (simp_all add: batch_ok_def sched_inv_def)
  obtain n1 b1 st1 where 1: "decode_loop clk [] ?A ?B st [] = Inr (b1, st1, n1)"
    "loop_inv (page_table st1) (recorder st1) ([] @ active st1) (waiting st1)" "config st1 = config st"
    "same_size (page_table st1) (page_table st)"
    using decode_loop_post [OF l, of clk ?B "[]"] by (auto simp: loop_post_def)
  obtain n2 b2 st2 where 2: "prefill_loop [] (active st1) b1 st1 n1 = Inr (b2, st2, n1 @ n2)"
    using prefill_loop_post [OF 1(2), of b1 n1] by auto
  note d = decode_loop_batch [OF l r 1(1)]
  have same: "length (decoding ?A) + length (prefilling ?A) = length ?A"
    using b by (intro active_phases) (simp add: batch_ok_def sched_inv_def loop_inv_def)
  have "reservation (page_table st1) ([] @ active st1) \<le> num_blocks (page_table st1)"
    using r d 1(4) by (simp add: same_size_def)
  note p = prefill_loop_batch [OF 1(2) this _ 2]
  obtain b3 where "admission_loop (waiting st2) b2 st2 (n1 @ n2) = Inr (b3, st', res)"
    using st' 1(1) 2 by (auto simp: step_def split: sum.splits prod.splits)
  from admission_loop_batch [OF this] have "length (active st') \<le> b2 + length (active st2)" by simp
  also have "\<dots> \<le> ?B" using d p b same 1(3) by (auto simp: batch_ok_def)
  finally show ?thesis .
qed

lemma batch_ok_step:
  assumes b: "batch_ok q st" and st': "step clk st = Inr (res, st')"
  shows "batch_ok q st'"
proof (rule step_post [of st clk])
  show "sched_inv st" using b by (simp add: batch_ok_def)
  fix decs prefs c st''
  assume s: "step clk st = Inr (decs @ prefs, st'')"
    "loop_post st (active st) (waiting st) (max_batch_tokens (config st)) (decs @ prefs) c st''"
  then have eq: "st'' = st'" using st' by simp
  have "\<forall>t \<in> set (map ticket (active st @ waiting st)). request_fits (page_table st) q t"
    unfolding request_fits_tickets using b by (simp add: batch_ok_def)
  moreover have "set (map ticket (active st' @ waiting st')) \<subseteq> set (map ticket (active st @ waiting st))"
    using s(2) eq by (simp only: loop_post_def stage_def) auto
  ultimately have "\<forall>t \<in> set (map ticket (active st' @ waiting st')). request_fits (page_table st) q t" by blast
  then have "\<forall>s \<in> set (active st' @ waiting st'). prompt_tokens s \<noteq> [] \<and> blocks_needed_for (page_table st) (max_tokens s) \<le> q"
    unfolding request_fits_tickets .
  with b s(2) eq step_batch [OF b st'] show ?thesis
    by (auto simp: batch_ok_def loop_post_def sched_inv_def same_size_needed) (auto simp: same_size_def)
qed

interpretation batched: draining "batch_ok q" for q
  by unfold_locales (rule batch_ok_progress batch_ok_step; assumption)+

text \<open>Memory for one batch is enough for any load: when every request needs at most \<open>q\<close> blocks at its largest,
  \<open>max_batch_tokens\<close> requests of \<open>q\<close> blocks fit in the cache, and the batch starts within the budget, then all
  requests complete, however many wait, in at most as many iterations as there are tokens to process, and every
  block is free again; the batch never exceeds the budget on the way.\<close>

theorem batch_memory_suffices:
  assumes "sched_inv st" "0 < max_batch_tokens (config st)" "0 < max_prefill_chunk (config st)"
    "length (active st) \<le> max_batch_tokens (config st)" "max_batch_tokens (config st) * q \<le> num_blocks (page_table st)"
    "\<forall>s \<in> set (active st @ waiting st). prompt_tokens s \<noteq> [] \<and> blocks_needed_for (page_table st) (max_tokens s) \<le> q"
  shows "(\<exists>n \<le> work (active st @ waiting st). \<exists>st'. run_steps clk n st = Inr st'
      \<and> active st' = [] \<and> waiting st' = [] \<and> free_block_count (page_table st') = num_blocks (page_table st'))
    \<and> (\<forall>n. \<exists>st'. run_steps clk n st = Inr st' \<and> num_active st' \<le> max_batch_tokens (config st))"
proof -
  have b: "batch_ok q st" using assms by (simp add: batch_ok_def)
  have "\<exists>st'. run_steps clk n st = Inr st' \<and> batch_ok q st' \<and> config st' = config st" for n
    using b
  proof (induction n arbitrary: st)
    case (Suc n)
    obtain res st1 where "step clk st = Inr (res, st1)" "config st1 = config st"
      using step_inv [of st clk] Suc.prems by (auto simp: batch_ok_def)
    then show ?case using Suc.IH [of st1] batch_ok_step [OF Suc.prems] by auto
  qed simp
  then have "\<exists>st'. run_steps clk n st = Inr st' \<and> num_active st' \<le> max_batch_tokens (config st)" for n
    by (metis batch_ok_def num_active_def)
  with batched.drains [OF b, of clk] show ?thesis by blast
qed

text \<open>One block of four tokens and a budget of one token: three requests of one block each complete, although together
  they need three blocks.\<close>

definition demo_batch_sched :: ContinuousBatchingScheduler where
  "demo_batch_sched = \<lparr>config = \<lparr>max_batch_tokens = 1, max_prefill_chunk = 8\<rparr>,
     page_table = \<lparr>block_size = 4, num_blocks = 1, free_blocks = [0], tables = []\<rparr>,
     waiting = [new_Sequence 0 1 [5, 6] 2, new_Sequence 0 2 [7] 3, new_Sequence 0 3 [8, 9] 2], active = [],
     recorder = initial_TelemetryRecorder, clock_reads = 0\<rparr>"

lemma demo_batch_inv: "sched_inv demo_batch_sched"
  using tel_inv_initial(1)
  by (simp add: sched_inv_def loop_inv_def demo_batch_sched_def mem_ok_def pt_inv_def physical_blocks_def upt_rec
      waiting_ok_def new_Sequence_def max_tokens_def eval_simps)

theorem batch_memory_suffices_witness:
  "sched_inv demo_batch_sched \<and> reservation (page_table demo_batch_sched) (waiting demo_batch_sched) = 3
     \<and> (\<exists>n \<le> 12. \<exists>st'. run_steps (\<lambda>_. 0) n demo_batch_sched = Inr st' \<and> active st' = [] \<and> waiting st' = []
          \<and> free_block_count (page_table st') = num_blocks (page_table st'))"
proof -
  have w: "work (active demo_batch_sched @ waiting demo_batch_sched) = 12"
    and r: "reservation (page_table demo_batch_sched) (waiting demo_batch_sched) = 3"
    by (simp_all add: demo_batch_sched_def remaining_def new_Sequence_def max_tokens_def eval_simps)
  have "0 < max_batch_tokens (config demo_batch_sched)" "0 < max_prefill_chunk (config demo_batch_sched)"
    "length (active demo_batch_sched) \<le> max_batch_tokens (config demo_batch_sched)"
    "max_batch_tokens (config demo_batch_sched) * 1 \<le> num_blocks (page_table demo_batch_sched)"
    "\<forall>s \<in> set (active demo_batch_sched @ waiting demo_batch_sched).
       prompt_tokens s \<noteq> [] \<and> blocks_needed_for (page_table demo_batch_sched) (max_tokens s) \<le> 1"
    by (simp_all add: demo_batch_sched_def new_Sequence_def max_tokens_def eval_simps)
  from batch_memory_suffices [OF demo_batch_inv this, of "\<lambda>_. 0"] demo_batch_inv w r show ?thesis by auto
qed

end
