(* ===== verification/Scheduler_Telemetry.thy ===== *)
theory Scheduler_Telemetry
  imports Scheduler_Progress
begin

text \<open>
  The scheduler and its telemetry. Recording never influences the schedule: two runs that differ in the recorder
  only (enabled or not, full or not) produce the same results and the same state elsewhere. And every decode step
  offers exactly one sample to an enabled recorder.
\<close>

section \<open>Non-interference\<close>

text \<open>Two outcomes that agree on everything but the recorder.\<close>

definition agree ::
    "cpp_exn + 'a \<times> ContinuousBatchingScheduler \<times> 'b \<Rightarrow> cpp_exn + 'a \<times> ContinuousBatchingScheduler \<times> 'b \<Rightarrow> bool" where
  "agree x y \<longleftrightarrow> (case x of
      Inl e \<Rightarrow> y = Inl e
    | Inr (a, st, b) \<Rightarrow> tel_inv (recorder st) \<and> (\<exists>r. tel_inv r \<and> y = Inr (a, st\<lparr>recorder := r\<rparr>, b)))"

lemma agreeI: "tel_inv (recorder st) \<Longrightarrow> tel_inv r \<Longrightarrow> agree (Inr (a, st, b)) (Inr (a, st\<lparr>recorder := r\<rparr>, b))"
  by (auto simp: agree_def)

lemma agree_error [simp]: "agree (Inl e) (Inl e)"
  by (simp add: agree_def)

lemma recorder_last:
  "st\<lparr>recorder := r, active := a\<rparr> = st\<lparr>active := a, recorder := r\<rparr>"
  "st\<lparr>recorder := r, waiting := a\<rparr> = st\<lparr>waiting := a, recorder := r\<rparr>"
  "st\<lparr>recorder := r, page_table := pt\<rparr> = st\<lparr>page_table := pt, recorder := r\<rparr>"
  by simp_all

lemma agreeE [consumes 1, case_names error both]:
  assumes "agree x y"
  obtains (error) e where "x = Inl e" "y = Inl e"
  | (both) a st b r where "x = Inr (a, st, b)" "y = Inr (a, st\<lparr>recorder := r\<rparr>, b)" "tel_inv (recorder st)" "tel_inv r"
  using assms by (auto simp: agree_def split: sum.splits prod.splits)

lemma decode_body_agree:
  assumes "tel_inv (recorder st)" "tel_inv r"
  shows "case decode_body clk s b st res of
      Inl e \<Rightarrow> decode_body clk s b (st\<lparr>recorder := r\<rparr>) res = Inl e
    | Inr (k, b', st', res') \<Rightarrow> tel_inv (recorder st')
        \<and> (\<exists>r'. tel_inv r' \<and> decode_body clk s b (st\<lparr>recorder := r\<rparr>) res = Inr (k, b', st'\<lparr>recorder := r'\<rparr>, res'))"
proof -
  let ?now = "clk (clock_reads st)"
  obtain tr1 where 1: "record_latency (recorder st) s ?now = Some tr1" "tel_inv tr1"
    using record_latency_total [OF assms(1)] by blast
  obtain tr2 where 2: "record_latency r s ?now = Some tr2" "tel_inv tr2"
    using record_latency_total [OF assms(2)] by blast
  obtain ok pt where "ensure_capacity (page_table st) (sid s) (total_tokens s + 1) = (ok, pt)" by fastforce
  then show ?thesis using assms 1 2
    by (cases ok) (auto simp: decode_body_def Let_def split: sum.split)
qed

lemma decode_loop_agree:
  assumes "tel_inv (recorder st)" "tel_inv r"
  shows "agree (decode_loop clk vis todo b st res) (decode_loop clk vis todo b (st\<lparr>recorder := r\<rparr>) res)"
  using assms
proof (induction todo arbitrary: vis b st res r)
  case Nil
  then show ?case by (simp add: recorder_last agreeI)
next
  case (Cons s rest)
  show ?case
  proof (cases "b = 0 \<or> phase s \<noteq> DECODE")
    case True
    then show ?thesis using Cons by (cases "b = 0") (simp_all add: recorder_last agreeI)
  next
    case False
    show ?thesis
    proof (cases "decode_body clk s b st res")
      case (Inl e)
      then show ?thesis using False decode_body_agree [OF Cons.prems, of clk s b res] by simp
    next
      case (Inr x)
      obtain k b' st' res' where x: "x = (k, b', st', res')" by (cases x)
      obtain r' where "tel_inv (recorder st')" "tel_inv r'"
        "decode_body clk s b (st\<lparr>recorder := r\<rparr>) res = Inr (k, b', st'\<lparr>recorder := r'\<rparr>, res')"
        using decode_body_agree [OF Cons.prems, of clk s b res] Inr x by auto
      then show ?thesis using False Inr x Cons.IH [of st' r'] by simp
    qed
  qed
qed

lemma prefill_loop_agree:
  assumes "tel_inv (recorder st)" "tel_inv r"
  shows "agree (prefill_loop vis todo b st res) (prefill_loop vis todo b (st\<lparr>recorder := r\<rparr>) res)"
  using assms
  by (induction todo arbitrary: vis b st res) (auto simp: recorder_last agreeI split: sum.split)

lemma admission_loop_agree:
  assumes "tel_inv (recorder st)" "tel_inv r"
  shows "agree (admission_loop ws b st res) (admission_loop ws b (st\<lparr>recorder := r\<rparr>) res)"
  using assms
  by (induction ws arbitrary: b st res) (auto simp: recorder_last agreeI split: sum.split)

lemma step_agree:
  assumes "tel_inv (recorder st)" "tel_inv r"
  shows "case step clk st of
      Inl e \<Rightarrow> step clk (st\<lparr>recorder := r\<rparr>) = Inl e
    | Inr (res, st') \<Rightarrow> tel_inv (recorder st') \<and> (\<exists>r'. tel_inv r' \<and> step clk (st\<lparr>recorder := r\<rparr>) = Inr (res, st'\<lparr>recorder := r'\<rparr>))"
proof -
  from decode_loop_agree [OF assms, of clk "[]" "active st" "max_batch_tokens (config st)" "[]"] show ?thesis
  proof (cases rule: agreeE)
    case (both b1 st1 res1 r1)
    note 1 = this
    from prefill_loop_agree [OF 1(3,4), of "[]" "active st1" b1 res1] show ?thesis
    proof (cases rule: agreeE)
      case (both b2 st2 res2 r2)
      note 2 = this
      from admission_loop_agree [OF 2(3,4), of "waiting st2" b2 res2] show ?thesis
        by (cases rule: agreeE) (use 1 2 in \<open>auto simp: step_def\<close>)
    qed (use 1 in \<open>simp add: step_def\<close>)
  qed (simp add: step_def)
qed

text \<open>The results of a number of iterations.\<close>

fun trace_steps ::
    "(nat \<Rightarrow> int) \<Rightarrow> nat \<Rightarrow> ContinuousBatchingScheduler \<Rightarrow> cpp_exn + StepResult list list \<times> ContinuousBatchingScheduler" where
  "trace_steps clk 0 st = Inr ([], st)"
| "trace_steps clk (Suc n) st =
     (case step clk st of
        Inl e \<Rightarrow> Inl e
      | Inr (res, st') \<Rightarrow> (case trace_steps clk n st' of Inl e \<Rightarrow> Inl e | Inr (tr, st'') \<Rightarrow> Inr (res # tr, st'')))"

text \<open>C35. Telemetry does not influence the engine: for any two recorders, enabled or disabled, empty or full, any number
  of iterations from the same scheduler reports the same results and ends in the same state, clock reads included;
  only the recorder differs. Comparing throughput with and without telemetry compares the same work.\<close>

theorem telemetry_is_transparent:
  assumes "sched_inv st" "tel_inv r"
  shows "\<exists>tr st' r'. trace_steps clk n st = Inr (tr, st') \<and> trace_steps clk n (st\<lparr>recorder := r\<rparr>) = Inr (tr, st'\<lparr>recorder := r'\<rparr>)"
  using assms
proof (induction n arbitrary: st r)
  case (Suc n)
  have "tel_inv (recorder st)" using Suc.prems(1) by (simp add: sched_inv_def loop_inv_def)
  then obtain res st1 r1 where s: "step clk st = Inr (res, st1)" "step clk (st\<lparr>recorder := r\<rparr>) = Inr (res, st1\<lparr>recorder := r1\<rparr>)"
    "sched_inv st1" "tel_inv r1"
    using step_inv [OF Suc.prems(1), of clk] step_agree [OF _ Suc.prems(2), of st clk] by auto
  from Suc.IH [OF s(3,4)] show ?case using s(1,2) by auto
qed auto

section \<open>One sample per token\<close>

definition decode_count :: "StepResult list \<Rightarrow> nat" where
  "decode_count res = length (filter (\<lambda>r. \<not> was_prefill_chunk r) res)"

lemma decode_count_simps [simp]:
  "decode_count [] = 0" "decode_count (res @ res') = decode_count res + decode_count res'"
  "decode_count (r # res) = (if was_prefill_chunk r then 0 else 1) + decode_count res"
  by (simp_all add: decode_count_def)

text \<open>A sequence of calls of \<open>record\<close>, and the relation of recorders that \<open>n\<close> calls take from one to the other.\<close>

fun record_all :: "TelemetryRecorder \<Rightarrow> (u64 \<times> MetricKind \<times> int) list \<Rightarrow> TelemetryRecorder option" where
  "record_all r [] = Some r"
| "record_all r ((i, k, lat) # calls) = (case record_metric r i k lat of None \<Rightarrow> None | Some r' \<Rightarrow> record_all r' calls)"

definition offers :: "nat \<Rightarrow> TelemetryRecorder \<Rightarrow> TelemetryRecorder \<Rightarrow> bool" where
  "offers n r r' \<longleftrightarrow> (\<exists>calls. length calls = n \<and> record_all r calls = Some r')"

lemma record_all_append:
  "record_all r (calls @ calls') = (case record_all r calls of None \<Rightarrow> None | Some r' \<Rightarrow> record_all r' calls')"
  by (induction r calls rule: record_all.induct) (auto split: option.split)

lemma offers_refl: "offers 0 r r"
  by (simp add: offers_def)

lemma offers_trans: "offers m r r' \<Longrightarrow> offers n r' r'' \<Longrightarrow> offers (m + n) r r''"
  unfolding offers_def by (metis (no_types, lifting) length_append option.simps(5) record_all_append)

lemma record_metric_offers: "record_metric r i k lat = Some r' \<Longrightarrow> offers 1 r r'"
  unfolding offers_def by (intro exI [of _ "[(i, k, lat)]"]) simp

text \<open>What the calls amount to: a run of the telemetry with as many samples offered when recording is enabled, nothing
  when it is not.\<close>

lemma offers_run:
  assumes "offers n r r'" "enabled r" "tel_run off r f"
  shows "\<exists>ss. length ss = n \<and> tel_run (off @ ss) r' f \<and> enabled r'"
proof -
  have "record_all r calls = Some r' \<Longrightarrow> enabled r \<Longrightarrow> tel_run off r f \<Longrightarrow>
      \<exists>ss. length ss = length calls \<and> tel_run (off @ ss) r' f \<and> enabled r'" for calls
  proof (induction calls arbitrary: r off)
    case (Cons c calls)
    obtain i k lat where c: "c = (i, k, lat)" by (cases c)
    then obtain r1 where r1: "record_metric r i k lat = Some r1" "record_all r1 calls = Some r'"
      using Cons.prems(1) by (auto split: option.splits)
    let ?s = "\<lparr>seq_id = i, kind = k, latency_ns = word_of_int lat\<rparr>"
    have "enabled r1" using r1(1) Cons.prems(2) by (auto simp: record_metric_def Let_def split: option.splits if_splits)
    moreover have "tel_run (off @ [?s]) r1 f" using tel_run.recorded [OF Cons.prems(3) r1(1)] Cons.prems(2) by simp
    ultimately obtain ss where "length ss = length calls" "tel_run ((off @ [?s]) @ ss) r' f" "enabled r'"
      using Cons.IH [OF r1(2)] by blast
    then show ?case by (intro exI [of _ "?s # ss"]) simp
  qed simp
  then show ?thesis using assms unfolding offers_def by blast
qed

lemma offers_disabled:
  assumes "offers n r r'" "\<not> enabled r"
  shows "r' = r"
proof -
  have "record_all r calls = Some r' \<Longrightarrow> r' = r" for calls
    using assms(2) by (induction calls) (auto simp: record_metric_def)
  then show ?thesis using assms(1) by (auto simp: offers_def)
qed

text \<open>Without a flusher the ring fills up, and every later sample is dropped.\<close>

definition filled :: "nat \<Rightarrow> TelemetryRecorder \<Rightarrow> bool" where
  "filled n r \<longleftrightarrow> tel_inv r \<and> enabled r \<and> length (ring_list (mring r)) = min 65536 n \<and> dropped r = word_of_nat (n - 65536)"

lemma filled_record:
  assumes f: "filled n r" and r': "record_metric r i k lat = Some r'"
  shows "filled (Suc n) r'"
proof -
  have inv: "tel_inv r" using f by (simp add: filled_def)
  from inv show ?thesis
  proof (cases rule: record_metric_cases [where i = i and k = k and lat = lat])
    case (full r1)
    then have "65536 \<le> n" using f by (auto simp: filled_def min_def split: if_splits)
    then show ?thesis using f full r' by (simp add: filled_def Suc_diff_le)
  qed (use f r' in \<open>auto simp: filled_def\<close>)
qed

lemma filled_exists: "\<exists>r. filled n r"
proof (induction n)
  case 0
  have "filled 0 (set_enabled initial_TelemetryRecorder True)"
    using tel_inv_initial by (simp add: filled_def tel_inv_def set_enabled_def initial_TelemetryRecorder_def)
  then show ?case by blast
next
  case (Suc n)
  then obtain r where r: "filled n r" by blast
  then obtain r' where "record_metric r 0 kTTFT 0 = Some r'" using record_metric_total [of r 0 kTTFT 0] by (auto simp: filled_def)
  then show ?case using filled_record [OF r] by blast
qed

text \<open>Recording off, recording into an empty ring, and recording into a full ring.\<close>

theorem telemetry_is_transparent_witness:
  "\<exists>r tr st' r1 r2. enabled r \<and> length (ring_list (mring r)) = 65536 \<and> \<not> enabled (recorder demo_sched)
     \<and> trace_steps (\<lambda>_. 0) 4 demo_sched = Inr (tr, st')
     \<and> trace_steps (\<lambda>_. 0) 4 (demo_sched\<lparr>recorder := set_enabled initial_TelemetryRecorder True\<rparr>) = Inr (tr, st'\<lparr>recorder := r1\<rparr>)
     \<and> trace_steps (\<lambda>_. 0) 4 (demo_sched\<lparr>recorder := r\<rparr>) = Inr (tr, st'\<lparr>recorder := r2\<rparr>)"
proof -
  obtain r where r: "filled 65536 r" using filled_exists by blast
  have e: "tel_inv (set_enabled initial_TelemetryRecorder True)" using tel_inv_initial(1) by (simp add: tel_inv_def set_enabled_def)
  have f: "tel_inv r" "enabled r" "length (ring_list (mring r)) = 65536" using r by (simp_all add: filled_def)
  have "\<not> enabled (recorder demo_sched)" by (simp add: demo_sched_def set_enabled_def)
  then show ?thesis
    using telemetry_is_transparent [OF demo_sched_inv e, of "\<lambda>_. 0" 4] telemetry_is_transparent [OF demo_sched_inv f(1), of "\<lambda>_. 0" 4] f(2,3)
    by force
qed

lemma offers_filled:
  assumes "offers n r r'" "filled m r"
  shows "filled (m + n) r'"
proof -
  have "record_all r calls = Some r' \<Longrightarrow> filled m r \<Longrightarrow> filled (m + length calls) r'" for calls
  proof (induction calls arbitrary: r m)
    case (Cons c calls)
    then show ?case using filled_record by (cases c) (fastforce split: option.splits)
  qed simp
  then show ?thesis using assms unfolding offers_def by blast
qed

lemma decode_body_offers:
  assumes "decode_body clk s b st res = Inr (k, b', st', res')"
  shows "\<exists>new. res' = res @ new \<and> offers (decode_count new) (recorder st) (recorder st')"
proof -
  have rec: "record_latency (recorder st) s now = Some r' \<Longrightarrow> offers 1 (recorder st) r'" for now r'
    using record_metric_offers by (auto simp: record_latency_def record_ttft_def record_inter_token_def split: if_splits)
  show ?thesis using assms rec offers_refl
    by (auto simp: decode_body_def of_spin_def Let_def split: prod.splits if_splits option.splits sum.splits)
qed

lemma decode_loop_offers:
  assumes "decode_loop clk vis todo b st res = Inr (b', st', res')"
  shows "\<exists>new. res' = res @ new \<and> offers (decode_count new) (recorder st) (recorder st')"
  using assms
proof (induction todo arbitrary: vis b st res)
  case Nil
  then show ?case by (auto simp: offers_refl)
next
  case (Cons s rest)
  show ?case
  proof (cases "b = 0 \<or> phase s \<noteq> DECODE")
    case True
    then show ?thesis using Cons by (cases "b = 0") (auto simp: offers_refl)
  next
    case False
    then obtain k b1 st1 res1 where d: "decode_body clk s b st res = Inr (k, b1, st1, res1)"
      "decode_loop clk (case k of None \<Rightarrow> vis | Some s' \<Rightarrow> vis @ [s']) rest b1 st1 res1 = Inr (b', st', res')"
      using Cons.prems by (auto split: sum.splits)
    obtain new where n: "res1 = res @ new" "offers (decode_count new) (recorder st) (recorder st1)"
      using decode_body_offers [OF d(1)] by blast
    from Cons.IH [OF d(2)] obtain new' where "res' = res1 @ new'" "offers (decode_count new') (recorder st1) (recorder st')" by blast
    with n offers_trans show ?thesis by (intro exI [of _ "new @ new'"]) auto
  qed
qed

lemma prefill_loop_offers:
  "prefill_loop vis todo b st res = Inr (b', st', res') \<Longrightarrow> recorder st' = recorder st \<and> decode_count res' = decode_count res"
  by (induction todo arbitrary: vis b st res) (fastforce split: if_splits sum.splits)+

lemma admission_loop_offers:
  "admission_loop ws b st res = Inr (b', st', res') \<Longrightarrow> recorder st' = recorder st \<and> decode_count res' = decode_count res"
  by (induction ws arbitrary: b st res) (fastforce split: if_splits sum.splits)+

text \<open>An iteration offers one sample per decode step.\<close>

lemma step_offers:
  assumes "step clk st = Inr (res, st')"
  shows "offers (decode_count res) (recorder st) (recorder st')"
  using assms decode_loop_offers
  by (force simp: step_def split: sum.splits prod.splits dest: prefill_loop_offers admission_loop_offers)

section \<open>What the results of an iteration add up to\<close>

text \<open>A quantity \<open>f\<close> of sequences of which a result reports the share \<open>c\<close> that was taken from its sequence: over an
  iteration, what the sequences lose is what the results report.\<close>

locale step_measure =
  fixes f :: "Sequence \<Rightarrow> nat" and c :: "StepResult \<Rightarrow> nat"
  assumes decoded: "length (generated_tokens s) + 1 < unat (max_new_tokens s) \<Longrightarrow> f s = f (decoded s now) + c (decode_result s DECODE)"
    and finished: "length (generated_tokens s) + 1 = max 1 (unat (max_new_tokens s)) \<Longrightarrow> f s = c (decode_result s FINISHED)"
    and prefilled: "phase s = PREFILL \<Longrightarrow> f s = f (prefilled s n) + c (prefill_result (prefilled s n) n)"
    and turned: "f (s\<lparr>phase := DECODE\<rparr>) = f s"
begin

abbreviation F :: "Sequence list \<Rightarrow> nat" where
  "F seqs \<equiv> sum_list (map f seqs)"

abbreviation C :: "StepResult list \<Rightarrow> nat" where
  "C res \<equiv> sum_list (map c res)"

lemma decode_loop_measure:
  assumes "loop_inv (page_table st) (recorder st) (vis @ todo) ws" "decode_loop clk vis todo b st res = Inr (b', st', res')"
  shows "F (active st') + C res' = F (vis @ todo) + C res"
  using assms
proof (induction todo arbitrary: vis b st res)
  case (Cons s rest)
  show ?case
  proof (cases "b = 0 \<or> phase s \<noteq> DECODE")
    case True
    then show ?thesis using Cons.IH [of st "vis @ [s]" b res] Cons.prems by (cases "b = 0") auto
  next
    case False
    then have b: "0 < b" and ph: "phase s = DECODE" by auto
    from Cons.prems(1) ph show ?thesis
    proof (cases rule: decode_body_cases [where clk = clk and b = b and res = res])
      case (oom pt)
      then show ?thesis using Cons.IH [of "st\<lparr>page_table := pt\<rparr>" "vis @ [s]" b res] Cons.prems(2) b ph by auto
    next
      case (more pt tr)
      then show ?thesis
        using Cons.IH [of "st\<lparr>page_table := pt, recorder := tr, clock_reads := clock_reads st + 1\<rparr>"
            "vis @ [decoded s (clk (clock_reads st))]" "b - 1" "res @ [decode_result s DECODE]"]
          Cons.prems(2) b ph decoded [OF more(1), of "clk (clock_reads st)"] by auto
    next
      case (finish pt tr)
      then show ?thesis
        using Cons.IH [of "st\<lparr>page_table := pt, recorder := tr, clock_reads := clock_reads st + 1\<rparr>" vis "b - 1"
            "res @ [decode_result s FINISHED]"] Cons.prems(2) b ph finished [OF finish(1)] by auto
    qed
  qed
qed auto

lemma chunk_measure:
  assumes "do_prefill_chunk cfg pt s b = Inr (n, s', pt')" "phase s = PREFILL"
  shows "if n = 0 then f s' = f s else f s = f s' + c (prefill_result s' n)"
proof -
  from assms(2) have "phase s \<noteq> FINISHED" by simp
  then show ?thesis
    by (cases rule: do_prefill_chunk_cases [where cfg = cfg and pt = pt and b = b]) (use assms prefilled turned in auto)
qed

lemma prefill_loop_measure:
  "prefill_loop vis todo b st res = Inr (b', st', res') \<Longrightarrow> F (active st') + C res' = F (vis @ todo) + C res"
proof (induction todo arbitrary: vis b st res)
  case (Cons s rest)
  show ?case
  proof (cases "b = 0 \<or> phase s \<noteq> PREFILL")
    case True
    then show ?thesis using Cons.IH [of "vis @ [s]" b st res] Cons.prems by (cases "b = 0") auto
  next
    case False
    then obtain n s' pt where p: "do_prefill_chunk (config st) (page_table st) s b = Inr (n, s', pt)"
      using Cons.prems by (auto split: sum.splits)
    note m = chunk_measure [OF p]
    show ?thesis using Cons.prems False p m Cons.IH [of "vis @ [s']" "if n > 0 then b - n else b" "st\<lparr>page_table := pt\<rparr>"
        "if n > 0 then res @ [prefill_result s' n] else res"] by (auto simp: prefill_result_def split: if_splits)
  qed
qed auto

lemma admission_loop_measure:
  "admission_loop ws b st res = Inr (b', st', res') \<Longrightarrow> \<forall>s \<in> set ws. waiting_ok s \<Longrightarrow>
     F (active st' @ waiting st') + C res' = F (active st @ ws) + C res"
proof (induction ws arbitrary: b st res)
  case (Cons s ws)
  show ?case
  proof (cases "b = 0")
    case False
    then obtain n s' pt where p: "do_prefill_chunk (config st) (page_table st) s b = Inr (n, s', pt)"
      using Cons.prems(1) by (auto split: sum.splits)
    have m: "if n = 0 then f s' = f s else f s = f s' + c (prefill_result s' n)"
    proof (cases "phase s = PREFILL")
      case True
      then show ?thesis by (rule chunk_measure [OF p])
    next
      case other: False
      then have "prefill_complete s" "phase s = DECODE" using Cons.prems(2) by (auto simp: waiting_ok_def prefill_complete_def)
      then show ?thesis using p turned [of s] by (auto simp: do_prefill_chunk_def)
    qed
    then show ?thesis using Cons.prems False p Cons.IH [of "b - n" "st\<lparr>page_table := pt, waiting := ws, active := active st @ [s']\<rparr>"
        "res @ [prefill_result s' n]"] by (auto simp: prefill_result_def split: if_splits)
  qed (use Cons.prems in auto)
qed auto

lemma step_measure:
  assumes inv: "sched_inv st" and step: "step clk st = Inr (res, st')"
  shows "F (active st' @ waiting st') + C res = F (active st @ waiting st)"
proof -
  have l: "loop_inv (page_table st) (recorder st) ([] @ active st) (waiting st)" using inv by (simp add: sched_inv_def)
  obtain n1 b1 st1 where 1: "decode_loop clk [] (active st) (max_batch_tokens (config st)) st [] = Inr (b1, st1, n1)"
    "loop_inv (page_table st1) (recorder st1) ([] @ active st1) (waiting st1)" "waiting st1 = waiting st"
    using decode_loop_post [OF l, of clk "max_batch_tokens (config st)" "[]"] by (auto simp: loop_post_def)
  obtain n2 b2 st2 where 2: "prefill_loop [] (active st1) b1 st1 n1 = Inr (b2, st2, n1 @ n2)" "waiting st2 = waiting st1"
    using prefill_loop_post [OF 1(2), of b1 n1] by auto
  obtain b3 where 3: "admission_loop (waiting st2) b2 st2 (n1 @ n2) = Inr (b3, st', res)"
    using step 1(1) 2(1) by (auto simp: step_def split: sum.splits prod.splits)
  have "\<forall>s \<in> set (waiting st2). waiting_ok s" using 1(2) 2(2) by (simp add: loop_inv_def)
  with decode_loop_measure [OF l 1(1)] prefill_loop_measure [OF 2(1)] admission_loop_measure [OF 3] 1(3) 2(2)
  show ?thesis by simp
qed

end

text \<open>A request generates \<open>max_new_tokens\<close> tokens, and one even if that is 0; each decode step generates one of them.\<close>

definition to_generate :: "Sequence \<Rightarrow> nat" where
  "to_generate s = max 1 (unat (max_new_tokens s)) - length (generated_tokens s)"

definition gen_work :: "Sequence list \<Rightarrow> nat" where
  "gen_work seqs = sum_list (map to_generate seqs)"

lemma gen_work_simps [simp]:
  "gen_work [] = 0" "gen_work (s # seqs) = to_generate s + gen_work seqs" "gen_work (seqs @ seqs') = gen_work seqs + gen_work seqs'"
  by (simp_all add: gen_work_def)

interpretation generation: step_measure to_generate "\<lambda>r. if was_prefill_chunk r then 0 else 1"
  by unfold_locales (auto simp: to_generate_def decode_result_def prefill_result_def)

lemma step_gen:
  assumes "sched_inv st" "step clk st = Inr (res, st')"
  shows "gen_work (active st' @ waiting st') + decode_count res = gen_work (active st @ waiting st)"
proof -
  have "sum_list (map (\<lambda>r. if was_prefill_chunk r then 0 else 1) res) = decode_count res" for res by (induction res) auto
  with generation.step_measure [OF assms] show ?thesis by (simp add: gen_work_def)
qed

text \<open>A request leaves the scheduler exactly with a result that reports it FINISHED.\<close>

definition finish_count :: "StepResult list \<Rightarrow> nat" where
  "finish_count res = length (filter (\<lambda>r. phase_after r = FINISHED) res)"

interpretation completion: step_measure "\<lambda>s. 1" "\<lambda>r. if phase_after r = FINISHED then 1 else 0"
  by unfold_locales (auto simp: decode_result_def prefill_result_def phase_prefilled)

lemma step_finish:
  assumes "sched_inv st" "step clk st = Inr (res, st')"
  shows "length (active st' @ waiting st') + finish_count res = length (active st @ waiting st)"
proof -
  have "sum_list (map (\<lambda>r. if phase_after r = FINISHED then 1 else 0) res) = finish_count res" for res
    by (induction res) (auto simp: finish_count_def)
  with completion.step_measure [OF assms] show ?thesis by (simp add: sum_list_triv)
qed

end
