(* ===== verification/Bench_Overhead.thy ===== *)
theory Bench_Overhead
  imports Scheduler_Batch Scheduler_Telemetry
begin

text \<open>
  The telemetry overhead benchmark (\<open>benchmarks/bench_telemetry_overhead.cpp\<close>): the workload it drives through the
  scheduler with recording on and off, and its verdict. The values drawn from the two uniform distributions are the
  parameters \<open>prompt_len\<close> and \<open>max_new\<close> (one draw per request), the times of construction are \<open>now\<close>, the measured
  milliseconds the parameter of \<open>overhead_main\<close>.
\<close>

section \<open>Model\<close>

definition kNumSequences :: nat where
  "kNumSequences = 100000"

definition kRepeats :: nat where
  "kRepeats = 15"

definition overhead_cfg :: SchedulerConfig where
  "overhead_cfg = \<lparr>max_batch_tokens = 2048, max_prefill_chunk = 512\<rparr>"

definition overhead_sequence :: "(nat \<Rightarrow> int) \<Rightarrow> (nat \<Rightarrow> int) \<Rightarrow> (nat \<Rightarrow> int) \<Rightarrow> nat \<Rightarrow> Sequence" where
  "overhead_sequence now prompt_len max_new i =
     new_Sequence (now i) (word_of_nat i) (replicate (nat (prompt_len i)) 1) (word_of_int (max_new i))"

definition admit_loop ::
    "(nat \<Rightarrow> int) \<Rightarrow> (nat \<Rightarrow> int) \<Rightarrow> (nat \<Rightarrow> int) \<Rightarrow> ContinuousBatchingScheduler \<Rightarrow> ContinuousBatchingScheduler" where
  "admit_loop now prompt_len max_new sched =
     foldl (\<lambda>sch i. admit sch (overhead_sequence now prompt_len max_new i)) sched [0..<kNumSequences]"

text \<open>The measured loop; the first number is what \<open>iterations < 10'000'000\<close> leaves, the second is \<open>iterations\<close>.\<close>

fun step_loop ::
    "(nat \<Rightarrow> int) \<Rightarrow> nat \<Rightarrow> nat \<Rightarrow> ContinuousBatchingScheduler \<Rightarrow> cpp_exn + nat \<times> ContinuousBatchingScheduler" where
  "step_loop clk 0 iterations sched = Inr (iterations, sched)"
| "step_loop clk (Suc left) iterations sched =
     (if num_active sched > 0 \<or> num_waiting sched > 0
      then (case step clk sched of
              Inl e \<Rightarrow> Inl e
            | Inr (res, sched') \<Rightarrow> step_loop clk left (iterations + 1) sched')
      else Inr (iterations, sched))"

definition overhead_run_once ::
    "(nat \<Rightarrow> int) \<Rightarrow> (nat \<Rightarrow> int) \<Rightarrow> (nat \<Rightarrow> int) \<Rightarrow> (nat \<Rightarrow> int) \<Rightarrow> TelemetryRecorder \<Rightarrow> bool
       \<Rightarrow> cpp_exn + nat \<times> ContinuousBatchingScheduler" where
  "overhead_run_once clk now prompt_len max_new r telemetry_enabled =
     (case of_spin (reset_for_testing r) of
        Inl e \<Rightarrow> Inl e
      | Inr r1 \<Rightarrow>
          (case new_PagedKVCacheAllocator 32 (2 ^ 16) of
             Inl e \<Rightarrow> Inl e
           | Inr pt \<Rightarrow>
               (let sched = new_ContinuousBatchingScheduler overhead_cfg pt (set_enabled r1 telemetry_enabled)
                in case step_loop clk 10000000 0 (admit_loop now prompt_len max_new sched) of
                     Inl e \<Rightarrow> Inl e
                   | Inr (iterations, sched') \<Rightarrow>
                       Inr (iterations, sched'\<lparr>recorder := set_enabled (recorder sched') True\<rparr>))))"

definition median :: "rat list \<Rightarrow> rat" where
  "median v = sort v ! (length v div 2)"

text \<open>\<open>main\<close>, with the time each of its interleaved runs takes; a division by zero gives an infinity or NaN, of
  which only the positive infinity is at or above 1.\<close>

definition overhead_main :: "(bool \<Rightarrow> nat \<Rightarrow> rat) \<Rightarrow> int" where
  "overhead_main ms =
     (let d = median (map (ms False) [0..<kRepeats]);
          e = median (map (ms True) [0..<kRepeats]);
          failed = (if d = 0 then e > 0 else (e - d) / d * 100 \<ge> 1)
      in if failed then 1 else 0)"

section \<open>The loop\<close>

context draining
begin

text \<open>With an iteration for every token to process, the loop ends because nothing is left.\<close>

lemma step_loop_drains:
  assumes "ok st" "work (active st @ waiting st) \<le> left"
  shows "\<exists>k \<le> work (active st @ waiting st). \<exists>st'. step_loop clk left it st = Inr (it + k, st') \<and> ok st'
     \<and> active st' = [] \<and> waiting st' = [] \<and> offers (gen_work (active st @ waiting st)) (recorder st) (recorder st')"
  using assms
proof (induction left arbitrary: st it)
  case 0
  then have "active st @ waiting st = []" using step_work [OF 0(1)] by fastforce
  then show ?case using 0(1) by (auto simp: offers_refl)
next
  case (Suc left)
  show ?case
  proof (cases "active st @ waiting st = []")
    case True
    then show ?thesis using Suc.prems(1) by (auto simp: num_active_def num_waiting_def offers_refl)
  next
    case False
    obtain res st1 where s: "step clk st = Inr (res, st1)" "ok st1" "0 < tokens res"
      "work (active st1 @ waiting st1) + tokens res = work (active st @ waiting st)"
      using step_work [OF Suc.prems(1) False, of clk] by blast
    have "sched_inv st" using progress [OF Suc.prems(1)] by (simp add: can_progress_def)
    note gen = step_gen [OF this s(1)] and off = step_offers [OF s(1)]
    have "work (active st1 @ waiting st1) \<le> left" using s(3,4) Suc.prems(2) by simp
    from Suc.IH [OF s(2) this, of "it + 1"] obtain k st' where k: "k \<le> work (active st1 @ waiting st1)"
      "step_loop clk left (it + 1) st1 = Inr (it + 1 + k, st')" "ok st'" "active st' = []" "waiting st' = []"
      "offers (gen_work (active st1 @ waiting st1)) (recorder st1) (recorder st')" by blast
    have "offers (gen_work (active st @ waiting st)) (recorder st) (recorder st')"
      using offers_trans [OF off k(6)] gen by (simp add: add.commute)
    moreover have "step_loop clk (Suc left) it st = Inr (it + Suc k, st')"
      using s(1) k(2) False by (auto simp: num_active_def num_waiting_def)
    ultimately show ?thesis using k s(3,4) by (intro exI [of _ "Suc k"]) auto
  qed
qed

end

text \<open>Recording changes neither the number of iterations nor what is left.\<close>

lemma step_loop_agree:
  assumes "tel_inv (recorder st)" "tel_inv r" "step_loop clk left it st = Inr (k, st')"
  shows "\<exists>r'. tel_inv r' \<and> step_loop clk left it (st\<lparr>recorder := r\<rparr>) = Inr (k, st'\<lparr>recorder := r'\<rparr>)"
  using assms
proof (induction left arbitrary: st r it)
  case (Suc left)
  show ?case
  proof (cases "num_active st > 0 \<or> num_waiting st > 0")
    case True
    then obtain res st1 where s: "step clk st = Inr (res, st1)" "step_loop clk left (it + 1) st1 = Inr (k, st')"
      using Suc.prems(3) by (auto split: sum.splits)
    then obtain r1 where "tel_inv (recorder st1)" "tel_inv r1" "step clk (st\<lparr>recorder := r\<rparr>) = Inr (res, st1\<lparr>recorder := r1\<rparr>)"
      using step_agree [OF Suc.prems(1,2), of clk] by auto
    then show ?thesis using Suc.IH [OF _ _ s(2)] True by (auto simp: num_active_def num_waiting_def)
  next
    case False
    then show ?thesis using Suc.prems by (auto simp: num_active_def num_waiting_def)
  qed
qed auto

section \<open>The workload\<close>

abbreviation drawn :: "(nat \<Rightarrow> int) \<Rightarrow> (nat \<Rightarrow> int) \<Rightarrow> bool" where
  "drawn prompt_len max_new \<equiv> \<forall>i < kNumSequences. 1 \<le> prompt_len i \<and> prompt_len i \<le> 64 \<and> 1 \<le> max_new i \<and> max_new i \<le> 16"

lemma admit_all: "foldl (\<lambda>sch i. admit sch (f i)) sched is = sched\<lparr>waiting := waiting sched @ map f is\<rparr>"
  by (induction "is" arbitrary: sched) (simp_all add: admit_def)

lemma overhead_sequence_facts:
  assumes "drawn prompt_len max_new" "i < kNumSequences" "s = overhead_sequence now prompt_len max_new i"
  shows "waiting_ok s" "prompt_tokens s \<noteq> []" "max_tokens s \<le> 80" "0 < max_tokens s" "sid s = word_of_nat i"
    "remaining s \<le> 80" "to_generate s = nat (max_new i)"
proof -
  have r: "1 \<le> prompt_len i \<and> prompt_len i \<le> 64 \<and> 1 \<le> max_new i \<and> max_new i \<le> 16" using assms(1,2) by blast
  then have "take_bit 32 (max_new i) = max_new i" by (intro take_bit_int_eq_self) simp_all
  then have "unat (word_of_int (max_new i) :: u32) = nat (max_new i)"
    by (simp add: unat_eq_nat_uint unsigned_of_int)
  with r assms(3) show "waiting_ok s" "prompt_tokens s \<noteq> []" "max_tokens s \<le> 80" "0 < max_tokens s" "sid s = word_of_nat i"
    "remaining s \<le> 80" "to_generate s = nat (max_new i)"
    by (auto simp: overhead_sequence_def new_Sequence_def waiting_ok_def max_tokens_def remaining_def to_generate_def)
qed


lemma overhead_batch_ok:
  assumes d: "drawn prompt_len max_new" and pt: "new_PagedKVCacheAllocator 32 (2 ^ 16) = Inr pt" and r: "tel_inv r"
    and st: "st = admit_loop now prompt_len max_new (new_ContinuousBatchingScheduler overhead_cfg pt r)"
  shows "batch_ok 3 st" "active st = []" "recorder st = r" "num_blocks (page_table st) = 65536"
    "waiting st = map (overhead_sequence now prompt_len max_new) [0..<kNumSequences]"
proof -
  let ?ws = "map (overhead_sequence now prompt_len max_new) [0..<kNumSequences]"
  have st': "st = \<lparr>config = overhead_cfg, page_table = pt, waiting = ?ws, active = [], recorder = r, clock_reads = 0\<rparr>"
    by (simp add: st admit_loop_def admit_all new_ContinuousBatchingScheduler_def)
  have p: "pt_inv pt" "block_size pt = 32" "num_blocks pt = 65536" "tables pt = []"
    using pt_inv_new [OF pt] pt by (auto simp: new_PagedKVCacheAllocator_def split: if_splits)
  note f = overhead_sequence_facts [OF d _ refl, of _ now]
  have "inj_on (word_of_nat :: nat \<Rightarrow> u64) {0..<kNumSequences}"
    by (intro inj_on_inverseI [of _ unat]) (simp add: kNumSequences_def)
  moreover have "map sid ?ws = map word_of_nat [0..<kNumSequences]" by (simp add: f(5))
  ultimately have dist: "distinct (map sid ?ws)" by (simp only: distinct_map distinct_upt set_upt simp_thms)
  have need: "blocks_needed_for pt (max_tokens s) \<le> 3" if "max_tokens s \<le> 80" "0 < max_tokens s" for s
  proof -
    have "blocks_needed_for pt (max_tokens s) \<le> blocks_needed_for pt 80" using that p(2) by (intro blocks_needed_for_mono) simp_all
    also have "\<dots> = 3" using p(2) by (simp add: eval_simps)
    finally show ?thesis .
  qed
  have "\<forall>s \<in> set ?ws. waiting_ok s \<and> max_tokens s + block_size pt \<le> 2 ^ 64"
    using f(1,3) p(2) by fastforce
  then have "sched_inv st" using dist p
    sched_inv_admit_all [OF sched_inv_new [OF p(1,4) r, of overhead_cfg], of ?ws]
    by (simp add: st' new_ContinuousBatchingScheduler_def del: map_map)
  moreover have "\<forall>s \<in> set ?ws. prompt_tokens s \<noteq> [] \<and> blocks_needed_for pt (max_tokens s) \<le> 3"
    using f(2,3,4) need by auto
  ultimately show "batch_ok 3 st" using p by (simp add: st' batch_ok_def overhead_cfg_def)
  show "active st = []" "recorder st = r" "num_blocks (page_table st) = 65536" "waiting st = ?ws" using p by (simp_all add: st')
qed

lemma overhead_work:
  assumes d: "drawn prompt_len max_new"
  shows "work (map (overhead_sequence now prompt_len max_new) [0..<kNumSequences]) \<le> 8000000"
    "gen_work (map (overhead_sequence now prompt_len max_new) [0..<kNumSequences]) = (\<Sum>i<kNumSequences. nat (max_new i))"
    "100000 \<le> (\<Sum>i<kNumSequences. nat (max_new i))" "(\<Sum>i<kNumSequences. nat (max_new i)) \<le> 1600000"
proof -
  let ?s = "overhead_sequence now prompt_len max_new"
  note f = overhead_sequence_facts [OF d _ refl, of _ now]
  have "work (map ?s [0..<kNumSequences]) = (\<Sum>i<kNumSequences. remaining (?s i))"
    by (simp add: work_def o_def interv_sum_list_conv_sum_set_nat atLeast0LessThan)
  also have "\<dots> \<le> (\<Sum>i<kNumSequences. 80)" using f(6) by (intro sum_mono) simp
  finally show "work (map ?s [0..<kNumSequences]) \<le> 8000000" by (simp add: kNumSequences_def)
  have "gen_work (map ?s [0..<kNumSequences]) = (\<Sum>i<kNumSequences. to_generate (?s i))"
    by (simp add: gen_work_def o_def interv_sum_list_conv_sum_set_nat atLeast0LessThan)
  then show "gen_work (map ?s [0..<kNumSequences]) = (\<Sum>i<kNumSequences. nat (max_new i))" using f(7) by simp
  have "(\<Sum>i<kNumSequences. 1) \<le> (\<Sum>i<kNumSequences. nat (max_new i))" using d by (intro sum_mono) force
  then show "100000 \<le> (\<Sum>i<kNumSequences. nat (max_new i))" by (simp add: kNumSequences_def)
  have "(\<Sum>i<kNumSequences. nat (max_new i)) \<le> (\<Sum>i<kNumSequences. 16)" using d by (intro sum_mono) force
  then show "(\<Sum>i<kNumSequences. nat (max_new i)) \<le> 1600000" by (simp add: kNumSequences_def)
qed

lemma filled_counts:
  assumes "filled n r" "65536 \<le> n" "n < 2 ^ 64"
  shows "length (ring_list (mring r)) = 65536" "unat (dropped r) = n - 65536"
proof -
  have "unat (word_of_nat (n - 65536) :: u64) = n - 65536" using assms(3) by (intro unat_u64_of_nat) simp
  then show "length (ring_list (mring r)) = 65536" "unat (dropped r) = n - 65536" using assms(1,2) by (simp_all only: filled_def)
qed

text \<open>One run of the measured loop, from a recorder that was reset.\<close>

lemma overhead_loop:
  assumes d: "drawn prompt_len max_new" and pt: "new_PagedKVCacheAllocator 32 (2 ^ 16) = Inr pt"
    and r: "tel_inv r" "ring_list (mring r) = []" "dropped r = 0"
    and st: "st = admit_loop now prompt_len max_new (new_ContinuousBatchingScheduler overhead_cfg pt r)"
  shows "\<exists>k < 10000000. \<exists>st'. step_loop clk 10000000 0 st = Inr (k, st') \<and> active st' = [] \<and> waiting st' = []
     \<and> (if enabled r then filled (\<Sum>i<kNumSequences. nat (max_new i)) (recorder st') else recorder st' = r)"
proof -
  note b = overhead_batch_ok [OF d pt r(1) st] and w = overhead_work(1,2) [OF d, of now]
  have "work (active st @ waiting st) \<le> 8000000" using b(2,5) w(1) by simp
  with batched.step_loop_drains [OF b(1), of 10000000 clk 0] obtain k st' where k: "k \<le> 8000000"
    "step_loop clk 10000000 0 st = Inr (k, st')" "active st' = []" "waiting st' = []"
    "offers (gen_work (active st @ waiting st)) (recorder st) (recorder st')" by fastforce
  have off: "offers (\<Sum>i<kNumSequences. nat (max_new i)) r (recorder st')" using k(5) b(2,3,5) w(2) by simp
  have "filled 0 r" if "enabled r" using r that by (simp add: filled_def)
  then have "if enabled r then filled (\<Sum>i<kNumSequences. nat (max_new i)) (recorder st') else recorder st' = r"
    using offers_filled [OF off, of 0] offers_disabled [OF off] by auto
  with k show ?thesis by (intro exI [of _ k]) auto
qed

text \<open>C37. What the overhead benchmark measures: for all draws of its distributions, a run ends because every sequence is
  finished, before the cap of ten million iterations, and with recording on or off after the same number of
  iterations, so the two sides do the same scheduling work. But no flusher runs: with recording on, the ring ends
  full with 65536 samples, and all the others (at least 34464) were dropped.\<close>

theorem overhead_benchmark_completes:
  assumes "tel_inv r"
    "\<forall>i < kNumSequences. 1 \<le> prompt_len i \<and> prompt_len i \<le> 64 \<and> 1 \<le> max_new i \<and> max_new i \<le> 16"
  shows "\<exists>iterations < 10000000. \<forall>on. \<exists>st. overhead_run_once clk now prompt_len max_new r on = Inr (iterations, st)
     \<and> num_active st = 0 \<and> num_waiting st = 0
     \<and> length (ring_list (mring (recorder st))) = (if on then 65536 else 0)
     \<and> unat (dropped (recorder st)) = (if on then (\<Sum>i<kNumSequences. nat (max_new i)) - 65536 else 0)"
proof -
  obtain r1 where r1: "reset_for_testing r = Some r1" "tel_inv r1" "ring_list (mring r1) = []" "dropped r1 = 0"
    using reset_for_testing_result [OF assms(1)] by blast
  obtain pt where pt: "new_PagedKVCacheAllocator 32 (2 ^ 16) = Inr pt" by (simp add: new_PagedKVCacheAllocator_def)
  define st where "st on = admit_loop now prompt_len max_new (new_ContinuousBatchingScheduler overhead_cfg pt (set_enabled r1 on))" for on
  let ?total = "\<Sum>i<kNumSequences. nat (max_new i)"
  have t: "tel_inv (set_enabled r1 on)" for on using r1(2) by (simp add: tel_inv_def set_enabled_def)
  have loop: "\<exists>k < 10000000. \<exists>st'. step_loop clk 10000000 0 (st on) = Inr (k, st') \<and> active st' = [] \<and> waiting st' = []
      \<and> (if on then filled ?total (recorder st') else recorder st' = set_enabled r1 on)" for on
    using overhead_loop [OF assms(2) pt t _ _ st_def, of on clk] r1(3,4) by (simp add: set_enabled_def)
  obtain k st1 where k: "k < 10000000" "step_loop clk 10000000 0 (st True) = Inr (k, st1)" using loop [of True] by auto
  have "st False = (st True)\<lparr>recorder := set_enabled r1 False\<rparr>"
    by (simp add: st_def admit_loop_def admit_all new_ContinuousBatchingScheduler_def)
  moreover have "recorder (st True) = set_enabled r1 True"
    by (simp add: st_def admit_loop_def admit_all new_ContinuousBatchingScheduler_def)
  ultimately have "\<exists>st2. step_loop clk 10000000 0 (st False) = Inr (k, st2)"
    using step_loop_agree [OF _ t k(2), of False] t [of True] by auto
  then have same: "\<exists>st2. step_loop clk 10000000 0 (st on) = Inr (k, st2)" for on using k(2) by (cases on) auto
  have bound: "?total < 2 ^ 64" "65536 \<le> ?total" using overhead_work(3,4) [OF assms(2)] by simp_all
  have "\<exists>st'. overhead_run_once clk now prompt_len max_new r on = Inr (k, st') \<and> num_active st' = 0 \<and> num_waiting st' = 0
     \<and> length (ring_list (mring (recorder st'))) = (if on then 65536 else 0)
     \<and> unat (dropped (recorder st')) = (if on then ?total - 65536 else 0)" for on
  proof -
    obtain st' where st': "step_loop clk 10000000 0 (st on) = Inr (k, st')" "active st' = []" "waiting st' = []"
      "if on then filled ?total (recorder st') else recorder st' = set_enabled r1 on" using same [of on] loop [of on] by auto
    then have "overhead_run_once clk now prompt_len max_new r on = Inr (k, st'\<lparr>recorder := set_enabled (recorder st') True\<rparr>)"
      using r1(1) pt by (simp add: overhead_run_once_def st_def Let_def)
    then show ?thesis using st' r1(3,4) filled_counts [OF _ bound(2,1), of "recorder st'"]
      by (auto simp: num_active_def num_waiting_def set_enabled_def split: if_splits)
  qed
  with k(1) show ?thesis by blast
qed

theorem overhead_benchmark_completes_witness:
  "\<exists>iterations st. overhead_run_once (\<lambda>_. 0) (\<lambda>_. 0) (\<lambda>_. 3) (\<lambda>i. if even i then 1 else 2) initial_TelemetryRecorder True
       = Inr (iterations, st)
     \<and> num_active st = 0 \<and> num_waiting st = 0 \<and> length (ring_list (mring (recorder st))) = 65536"
proof -
  have "\<forall>i < kNumSequences. 1 \<le> (3 :: int) \<and> (3 :: int) \<le> 64 \<and> 1 \<le> (if even i then 1 else 2 :: int) \<and> (if even i then 1 else 2 :: int) \<le> 16"
    by simp
  from overhead_benchmark_completes [OF tel_inv_initial(1) this, of "\<lambda>_. 0" "\<lambda>_. 0"] show ?thesis by metis
qed

end
