(* ===== verification/Engine.thy ===== *)
theory Engine
  imports Ingress Scheduler_Batch
begin

text \<open>
  The engine (\<open>src/main.cpp\<close>): the loop that drains the ingress queue into the scheduler, runs an iteration
  and publishes the phases, beside the HTTP handler threads. A handler is interleaved with the loop at the
  points where it touches shared state: \<open>fetched\<close> are handlers that have an id and have not pushed yet,
  \<open>pushed\<close> are ids whose handler has pushed and not yet written the status.
\<close>

section \<open>Model\<close>

record Engine =
  server :: IngressServer
  scheduler :: ContinuousBatchingScheduler
  fetched :: "Sequence list"
  pushed :: "u64 list"

definition kBlockSizeTokens :: nat where "kBlockSizeTokens = 16"
definition kNumPhysicalBlocks :: nat where "kNumPhysicalBlocks = 4096"

definition sched_cfg :: SchedulerConfig where
  "sched_cfg = \<lparr>max_batch_tokens = 2048, max_prefill_chunk = 512\<rparr>"

definition initial_Engine :: "cpp_exn + Engine" where
  "initial_Engine =
     (case new_PagedKVCacheAllocator kBlockSizeTokens kNumPhysicalBlocks of
        Inl e \<Rightarrow> Inl e
      | Inr pt \<Rightarrow> Inr \<lparr>server = initial_IngressServer,
                       scheduler = new_ContinuousBatchingScheduler sched_cfg pt initial_TelemetryRecorder,
                       fetched = [], pushed = []\<rparr>)"

text \<open>\<open>while (drained < 256 && queue.try_pop(seq))\<close>, with the number of turns left and the pair of the
  counter and the scheduler.\<close>

fun drain_queue ::
    "nat \<Rightarrow> Sequence LockFreeRingBuffer \<Rightarrow> nat \<times> ContinuousBatchingScheduler
       \<Rightarrow> ((nat \<times> ContinuousBatchingScheduler) \<times> Sequence LockFreeRingBuffer) option" where
  "drain_queue 0 q acc = Some (acc, q)"
| "drain_queue (Suc n) q acc =
     (case try_pop q of None \<Rightarrow> None | Some (r, q') \<Rightarrow>
       (case r of None \<Rightarrow> Some (acc, q') | Some s \<Rightarrow> drain_queue n q' ((\<lambda>(drained, sch) s. (drained + 1, admit sch s)) acc s)))"

definition publish :: "SequenceStatusTable \<Rightarrow> StepResult list \<Rightarrow> SequenceStatusTable" where
  "publish tab res = foldl (\<lambda>t r. upsert t (result_id r) (phase_after r) 0) tab res"

text \<open>One turn of the engine's loop; the flag says whether it would sleep.\<close>

definition tick :: "(nat \<Rightarrow> int) \<Rightarrow> Engine \<Rightarrow> cpp_exn + bool \<times> StepResult list \<times> Engine" where
  "tick clk e =
     (case of_spin (drain_queue 256 (queue (server e)) (0, scheduler e)) of
        Inl ex \<Rightarrow> Inl ex
      | Inr ((drained, sch), q) \<Rightarrow>
          (case step clk sch of
             Inl ex \<Rightarrow> Inl ex
           | Inr (res, sch') \<Rightarrow>
               Inr (drained = 0 \<and> res = [], res,
                 e\<lparr>server := (server e)\<lparr>queue := q, status_table := publish (status_table (server e)) res\<rparr>,
                   scheduler := sch'\<rparr>)))"

text \<open>\<open>while (!g_shutdown.load(...))\<close>: the flag, which \<open>handle_sigint\<close> sets, is read before every turn; the list
  holds what those reads return. The result is the engine when the loop is left, or \<open>None\<close> while it goes on.\<close>

fun main_loop :: "(nat \<Rightarrow> int) \<Rightarrow> bool list \<Rightarrow> Engine \<Rightarrow> cpp_exn + Engine option" where
  "main_loop clk [] e = Inr None"
| "main_loop clk (shutdown # reads) e =
     (if shutdown then Inr (Some e)
      else case tick clk e of Inl ex \<Rightarrow> Inl ex | Inr (idle, res, e') \<Rightarrow> main_loop clk reads e')"

definition handle_sigint :: "bool \<Rightarrow> bool" where
  "handle_sigint g_shutdown = True"

definition port_argument :: "string list \<Rightarrow> cpp_exn + int" where
  "port_argument argv = (if length argv > 1 then atoi (argv ! 1) else Inr 8080)"

section \<open>Runs\<close>

text \<open>\<open>acc\<close> lists the accepted requests (those whose push succeeded, in push order) and \<open>fin\<close> the ids
  reported FINISHED. A prompt has at most \<open>2^61\<close> tokens (a vector of 4-byte elements), and the id counter
  has not wrapped around.\<close>

inductive engine_run :: "(u64 \<times> u32 list \<times> u32) list \<Rightarrow> u64 set \<Rightarrow> Engine \<Rightarrow> bool" where
  booted: "initial_Engine = Inr e \<Longrightarrow> engine_run [] {} e"
| fetches: "engine_run acc fin e \<Longrightarrow> generate_fetch (server e) = (i, srv) \<Longrightarrow> i \<noteq> - 1 \<Longrightarrow> length prompt \<le> 2 ^ 61 \<Longrightarrow>
    engine_run acc fin (e\<lparr>server := srv, fetched := fetched e @ [new_Sequence now i prompt mx]\<rparr>)"
| pushes: "engine_run acc fin e \<Longrightarrow> fetched e = xs @ s # ys \<Longrightarrow> generate_push (server e) s = Some (True, srv) \<Longrightarrow>
    engine_run (acc @ [ticket s]) fin (e\<lparr>server := srv, fetched := xs @ ys, pushed := pushed e @ [sid s]\<rparr>)"
| refuses: "engine_run acc fin e \<Longrightarrow> fetched e = xs @ s # ys \<Longrightarrow> generate_push (server e) s = Some (False, srv) \<Longrightarrow>
    engine_run acc fin (e\<lparr>server := srv, fetched := xs @ ys\<rparr>)"
| replies: "engine_run acc fin e \<Longrightarrow> pushed e = xs @ i # ys \<Longrightarrow> generate_finish (server e) i = (res, srv) \<Longrightarrow>
    engine_run acc fin (e\<lparr>server := srv, pushed := xs @ ys\<rparr>)"
| ticks: "engine_run acc fin e \<Longrightarrow> tick clk e = Inr (idle, res, e') \<Longrightarrow>
    engine_run acc (fin \<union> finished_ids res) e'"
| flushes: "engine_run acc fin e \<Longrightarrow> drain_step f (recorder (scheduler e)) = Some (f', r) \<Longrightarrow>
    engine_run acc fin (e\<lparr>scheduler := (scheduler e)\<lparr>recorder := r\<rparr>\<rparr>)"

definition engine_ids_ok :: "(u64 \<times> u32 list \<times> u32) list \<Rightarrow> Engine \<Rightarrow> bool" where
  "engine_ids_ok acc e \<longleftrightarrow> distinct (map fst acc @ map sid (fetched e))
     \<and> (\<forall>i \<in> set (map fst acc @ map sid (fetched e)). i < next_seq_id (server e))"

definition engine_inv :: "(u64 \<times> u32 list \<times> u32) list \<Rightarrow> u64 set \<Rightarrow> Engine \<Rightarrow> bool" where
  "engine_inv acc fin e \<longleftrightarrow> ingress_inv (server e) \<and> sched_inv (scheduler e)
     \<and> config (scheduler e) = sched_cfg \<and> block_size (page_table (scheduler e)) = kBlockSizeTokens
     \<and> num_blocks (page_table (scheduler e)) = kNumPhysicalBlocks
     \<and> (\<forall>s \<in> set (fetched e @ ring_list (queue (server e))). waiting_ok s \<and> length (prompt_tokens s) \<le> 2 ^ 61)
     \<and> engine_ids_ok acc e
     \<and> map ticket (active (scheduler e) @ waiting (scheduler e) @ ring_list (queue (server e)))
         = filter (\<lambda>t. fst t \<notin> fin) acc"

lemma fits_main:
  "length (prompt_tokens s) \<le> 2 ^ 61 \<Longrightarrow> max_tokens s + kBlockSizeTokens \<le> 2 ^ 64"
proof -
  have "unat (max_new_tokens s) < 2 ^ 32" using unsigned_less [of "max_new_tokens s"] by simp
  then show "length (prompt_tokens s) \<le> 2 ^ 61 \<Longrightarrow> max_tokens s + kBlockSizeTokens \<le> 2 ^ 64"
    by (simp add: max_tokens_def kBlockSizeTokens_def)
qed

text \<open>The drain moves the oldest 256 queued requests to the end of the waiting queue.\<close>

lemma foldl_admit:
  "foldl (\<lambda>(drained, sch) s. (drained + 1, admit sch s)) (n, sch) ss
     = (n + length ss, sch\<lparr>waiting := waiting sch @ ss\<rparr>)"
  by (induction ss arbitrary: n sch) (simp_all add: admit_def)

lemma drain_queue_result:
  assumes "ring_inv q"
  shows "\<exists>q'. drain_queue n q (0, sch) = Some ((length (take n (ring_list q)), sch\<lparr>waiting := waiting sch @ take n (ring_list q)\<rparr>), q')
     \<and> ring_inv q' \<and> ring_list q' = drop n (ring_list q) \<and> capacity q' = capacity q"
  using ring.drain_upto [OF drain_queue.simps assms, of n "(0, sch)"] unfolding foldl_admit by simp

lemma map_sid_ticket: "map sid ss = map fst (map ticket ss)"
  by (simp add: ticket_def)

lemma engine_inv_distinct:
  assumes "engine_inv acc fin e"
  shows "distinct (map sid (active (scheduler e) @ waiting (scheduler e) @ ring_list (queue (server e))))"
proof -
  have "distinct (map fst acc)" using assms by (simp add: engine_inv_def engine_ids_ok_def)
  then have "distinct (map fst (filter (\<lambda>t. fst t \<notin> fin) acc))" by (rule distinct_map_filter)
  then show ?thesis using assms unfolding engine_inv_def map_sid_ticket by metis
qed

text \<open>What a turn of the loop does.\<close>

lemma finished_subset_active:
  assumes "sched_inv sch" "step clk sch = Inr (res, sch')"
  shows "finished_ids res \<subseteq> sid ` set (active sch)"
proof (rule step_post [OF assms(1), of clk])
  fix decs prefs b st''
  assume s: "step clk sch = Inr (decs @ prefs, st'')" "decode_results (active sch) decs" "prefill_results (config sch) prefs"
  then show ?thesis using assms(2) by (fastforce simp: finished_ids_def decode_result_def)
qed

text \<open>Popping requests into the scheduler, any number of them.\<close>

lemma engine_inv_drain:
  assumes inv: "engine_inv acc fin e"
    and q: "ring_inv q'" "ring_list q' = drop n (ring_list (queue (server e)))" "capacity q' = capacity (queue (server e))"
  shows "engine_inv acc fin (e\<lparr>server := (server e)\<lparr>queue := q'\<rparr>,
    scheduler := (scheduler e)\<lparr>waiting := waiting (scheduler e) @ take n (ring_list (queue (server e)))\<rparr>\<rparr>)"
proof -
  let ?R = "ring_list (queue (server e))" and ?sch = "scheduler e"
  have i: "sched_inv ?sch" "block_size (page_table ?sch) = kBlockSizeTokens"
    "\<forall>s \<in> set ?R. waiting_ok s \<and> length (prompt_tokens s) \<le> 2 ^ 61"
    using inv by (auto simp: engine_inv_def)
  have "distinct (map sid ((active ?sch @ waiting ?sch @ take n ?R) @ drop n ?R))"
    using engine_inv_distinct [OF inv] by simp
  then have "distinct (map sid (active ?sch @ waiting ?sch @ take n ?R))" by (simp only: map_append distinct_append)
  moreover have "\<forall>s \<in> set (take n ?R). waiting_ok s \<and> max_tokens s + block_size (page_table ?sch) \<le> 2 ^ 64"
    using i(2,3) fits_main by (metis in_set_takeD)
  ultimately have "sched_inv (?sch\<lparr>waiting := waiting ?sch @ take n ?R\<rparr>)" using i(1) by (intro sched_inv_admit_all) blast+
  moreover have "map ticket (active ?sch @ (waiting ?sch @ take n ?R) @ drop n ?R) = filter (\<lambda>t. fst t \<notin> fin) acc"
    using inv by (simp only: engine_inv_def append_assoc append_take_drop_id)
  ultimately show ?thesis using inv q
    by (auto simp: engine_inv_def ingress_inv_def engine_ids_ok_def dest: in_set_dropD)
qed

text \<open>An iteration of the scheduler inside the engine.\<close>

lemma engine_inv_iterate:
  assumes inv: "engine_inv acc fin e" and st: "step clk (scheduler e) = Inr (res, sch')"
  shows "engine_inv acc (fin \<union> finished_ids res) (e\<lparr>scheduler := sch'\<rparr>)" "finished_ids res \<subseteq> fst ` set acc"
proof -
  let ?R = "ring_list (queue (server e))" and ?sch = "scheduler e"
  have si: "sched_inv ?sch" using inv by (simp add: engine_inv_def)
  have post: "sched_inv sch'" "config sch' = config ?sch" "same_size (page_table sch') (page_table ?sch)"
    using step_inv [OF si, of clk] st by auto
  have T: "map ticket (active sch' @ waiting sch') = filter (\<lambda>t. fst t \<notin> finished_ids res) (map ticket (active ?sch @ waiting ?sch))"
    by (rule step_post [OF si, of clk]) (use st in \<open>auto simp: loop_post_def stage_def\<close>)
  note sub = finished_subset_active [OF si st]
  have "sid ` set (active ?sch) \<inter> sid ` set ?R = {}" using engine_inv_distinct [OF inv] by auto
  then have "\<forall>t \<in> set (map ticket ?R). fst t \<notin> finished_ids res" using sub by (auto simp: ticket_def)
  then have D: "map ticket ?R = filter (\<lambda>t. fst t \<notin> finished_ids res) (map ticket ?R)" by (intro filter_True [symmetric])
  have "map ticket (active sch' @ waiting sch' @ ?R) = map ticket (active sch' @ waiting sch') @ map ticket ?R" by simp
  also have "\<dots> = filter (\<lambda>t. fst t \<notin> finished_ids res) (map ticket (active ?sch @ waiting ?sch))
      @ filter (\<lambda>t. fst t \<notin> finished_ids res) (map ticket ?R)" by (rule arg_cong2 [OF T D])
  also have "\<dots> = filter (\<lambda>t. fst t \<notin> finished_ids res) (filter (\<lambda>t. fst t \<notin> fin) acc)"
    using inv by (simp only: engine_inv_def map_append filter_append append_assoc flip: filter_append)
  finally have order: "map ticket (active sch' @ waiting sch' @ ?R) = filter (\<lambda>t. fst t \<notin> fin \<union> finished_ids res) acc"
    by (simp add: conj_commute)
  show "engine_inv acc (fin \<union> finished_ids res) (e\<lparr>scheduler := sch'\<rparr>)" using inv post order
    by (auto simp: engine_inv_def engine_ids_ok_def same_size_def)
  have "finished_ids res \<subseteq> fst ` set (map ticket (active ?sch @ waiting ?sch @ ?R))" using sub by (force simp: ticket_def)
  also have "\<dots> \<subseteq> fst ` set acc" using inv unfolding engine_inv_def by (metis (no_types, lifting) filter_is_subset image_mono)
  finally show "finished_ids res \<subseteq> fst ` set acc" .
qed

lemma tick_result:
  assumes inv: "engine_inv acc fin e"
  obtains sch1 res sch' q' idle where
    "sch1 = (scheduler e)\<lparr>waiting := waiting (scheduler e) @ take 256 (ring_list (queue (server e)))\<rparr>"
    "sched_inv sch1" "step clk sch1 = Inr (res, sch')"
    "ring_inv q'" "ring_list q' = drop 256 (ring_list (queue (server e)))" "capacity q' = capacity (queue (server e))"
    "tick clk e = Inr (idle, res, e\<lparr>server := (server e)\<lparr>queue := q', status_table := publish (status_table (server e)) res\<rparr>,
       scheduler := sch'\<rparr>)"
    "engine_inv acc fin (e\<lparr>server := (server e)\<lparr>queue := q'\<rparr>, scheduler := sch1\<rparr>)"
proof -
  let ?R = "ring_list (queue (server e))"
  let ?sch = "(scheduler e)\<lparr>waiting := waiting (scheduler e) @ take 256 ?R\<rparr>"
  have "ring_inv (queue (server e))" using inv by (simp add: engine_inv_def ingress_inv_def)
  then obtain q' where q': "drain_queue 256 (queue (server e)) (0, scheduler e) = Some ((length (take 256 ?R), ?sch), q')"
    "ring_inv q'" "ring_list q' = drop 256 ?R" "capacity q' = capacity (queue (server e))"
    using drain_queue_result [of "queue (server e)" 256 "scheduler e"] by auto
  note d = engine_inv_drain [OF inv q'(2-4)]
  then have inv1: "sched_inv ?sch" by (simp add: engine_inv_def)
  obtain res sch' where st: "step clk ?sch = Inr (res, sch')" using step_inv [OF inv1, of clk] by blast
  show thesis
    by (rule that [OF refl inv1 st q'(2-4) _ d]) (use q'(1) st in \<open>simp add: tick_def\<close>)
qed

text \<open>The invariant does not depend on the status table, on the ids whose handler is about to reply, or on which
  samples the recorder holds.\<close>

lemma engine_inv_frame:
  "engine_inv acc fin e \<Longrightarrow> queue (server e') = queue (server e) \<Longrightarrow> next_seq_id (server e') = next_seq_id (server e) \<Longrightarrow>
     scheduler e' = scheduler e \<Longrightarrow> fetched e' = fetched e \<Longrightarrow> engine_inv acc fin e'"
  by (simp add: engine_inv_def engine_ids_ok_def ingress_inv_def)

lemma engine_inv_recorder:
  "engine_inv acc fin e \<Longrightarrow> tel_inv r \<Longrightarrow> engine_inv acc fin (e\<lparr>scheduler := (scheduler e)\<lparr>recorder := r\<rparr>\<rparr>)"
  using loop_inv_recorder by (auto simp: engine_inv_def sched_inv_def engine_ids_ok_def)

lemma engine_inv_tick:
  assumes inv: "engine_inv acc fin e" and t: "tick clk e = Inr (idle, res, e')"
  shows "engine_inv acc (fin \<union> finished_ids res) e'" "finished_ids res \<subseteq> fst ` set acc"
proof -
  obtain sch1 sch' q' where r: "step clk sch1 = Inr (res, sch')"
    "engine_inv acc fin (e\<lparr>server := (server e)\<lparr>queue := q'\<rparr>, scheduler := sch1\<rparr>)"
    "e' = e\<lparr>server := (server e)\<lparr>queue := q', status_table := publish (status_table (server e)) res\<rparr>, scheduler := sch'\<rparr>"
    by (rule tick_result [OF inv, of clk]) (use t in auto)
  have "step clk (scheduler (e\<lparr>server := (server e)\<lparr>queue := q'\<rparr>, scheduler := sch1\<rparr>)) = Inr (res, sch')" using r(1) by simp
  note i = engine_inv_iterate [OF r(2) this]
  show "engine_inv acc (fin \<union> finished_ids res) e'" by (rule engine_inv_frame [OF i(1)]) (simp_all add: r(3))
  show "finished_ids res \<subseteq> fst ` set acc" by (rule i(2))
qed

lemma word_less_succ: "(i :: u64) \<noteq> - 1 \<Longrightarrow> i < i + 1"
proof -
  assume "i \<noteq> - 1"
  then have "1 + i \<noteq> 0" by (metis add_eq_0_iff)
  from unatSuc [OF this] show ?thesis by (simp add: word_less_nat_alt add.commute)
qed

lemma engine_inv_push:
  assumes inv: "engine_inv acc fin e" and f: "fetched e = xs @ s # ys"
    and p: "generate_push (server e) s = Some (True, srv)" and fin: "fin \<subseteq> fst ` set acc"
  shows "engine_inv (acc @ [ticket s]) fin (e\<lparr>server := srv, fetched := xs @ ys, pushed := pushed e @ [sid s]\<rparr>)"
proof -
  have ii: "ingress_inv (server e)" using inv by (simp add: engine_inv_def)
  obtain q where q: "srv = (server e)\<lparr>queue := q\<rparr>" "ring_list q = ring_list (queue (server e)) @ [s]" "ingress_inv srv"
    by (rule generate_push_cases [OF ii, of s]) (use p in auto)
  have "fst (ticket s) \<notin> fin"
    using inv f fin by (force simp: engine_inv_def engine_ids_ok_def ticket_def)
  then show ?thesis using inv f q
    by (auto simp: engine_inv_def engine_ids_ok_def ticket_def)
qed

lemma engine_inv_boot:
  assumes "initial_Engine = Inr e"
  shows "engine_inv [] {} e"
proof -
  obtain pt where pt: "new_PagedKVCacheAllocator kBlockSizeTokens kNumPhysicalBlocks = Inr pt"
    by (simp add: new_PagedKVCacheAllocator_def kBlockSizeTokens_def kNumPhysicalBlocks_def)
  then have "tables pt = []" by (auto simp: new_PagedKVCacheAllocator_def split: if_splits)
  then have "sched_inv (new_ContinuousBatchingScheduler sched_cfg pt initial_TelemetryRecorder)"
    using pt_inv_new [OF pt] tel_inv_initial by (intro sched_inv_new) auto
  moreover have "e = \<lparr>server = initial_IngressServer,
      scheduler = new_ContinuousBatchingScheduler sched_cfg pt initial_TelemetryRecorder, fetched = [], pushed = []\<rparr>"
    using assms pt by (simp add: initial_Engine_def)
  ultimately show ?thesis using pt_inv_new [OF pt] ingress_inv_initial
    by (simp add: engine_inv_def engine_ids_ok_def initial_queue_empty) (simp add: new_ContinuousBatchingScheduler_def)
qed

lemma engine_inv_fetch:
  assumes inv: "engine_inv acc fin e" and f: "generate_fetch (server e) = (i, srv)" "i \<noteq> - 1" "length prompt \<le> 2 ^ 61"
  shows "engine_inv acc fin (e\<lparr>server := srv, fetched := fetched e @ [new_Sequence now i prompt mx]\<rparr>)"
proof -
  have srv: "srv = (server e)\<lparr>next_seq_id := next_seq_id (server e) + 1\<rparr>" "i = next_seq_id (server e)"
    using f(1) by (auto simp: generate_fetch_def)
  have "next_seq_id (server e) < next_seq_id (server e) + 1" using word_less_succ f(2) srv(2) by blast
  then have "engine_ids_ok acc (e\<lparr>server := srv, fetched := fetched e @ [new_Sequence now i prompt mx]\<rparr>)"
    using inv srv by (auto simp: engine_inv_def engine_ids_ok_def new_Sequence_ok intro: order.strict_trans)
  then show ?thesis using inv f(3) srv
    by (simp add: engine_inv_def ingress_inv_def new_Sequence_ok) (simp add: new_Sequence_def)
qed

lemma engine_inv_refuse:
  assumes inv: "engine_inv acc fin e" and f: "fetched e = xs @ s # ys" and p: "generate_push (server e) s = Some (False, srv)"
  shows "engine_inv acc fin (e\<lparr>server := srv, fetched := xs @ ys\<rparr>)"
proof -
  have ii: "ingress_inv (server e)" using inv by (simp add: engine_inv_def)
  have "srv = server e" by (rule generate_push_cases [OF ii, of s]) (use p in auto)
  then show ?thesis using inv f by (auto simp: engine_inv_def engine_ids_ok_def)
qed

lemma engine_run_inv: "engine_run acc fin e \<Longrightarrow> engine_inv acc fin e \<and> fin \<subseteq> fst ` set acc"
proof (induction rule: engine_run.induct)
  case (booted e)
  then show ?case by (simp add: engine_inv_boot)
next
  case (fetches acc fin e i srv prompt now mx)
  then show ?case by (blast intro: engine_inv_fetch)
next
  case (pushes acc fin e xs s ys srv)
  then show ?case using engine_inv_push [of acc fin e xs s ys srv] by auto
next
  case (refuses acc fin e xs s ys srv)
  then show ?case by (blast intro: engine_inv_refuse)
next
  case (replies acc fin e xs i ys res srv)
  then have "queue srv = queue (server e)" "next_seq_id srv = next_seq_id (server e)"
    by (auto simp: generate_finish_def)
  with replies.IH show ?case by (auto elim: engine_inv_frame)
next
  case (ticks acc fin e clk idle res e')
  then show ?case using engine_inv_tick by blast
next
  case (flushes acc fin e f f' r)
  then have tel: "tel_inv (recorder (scheduler e))" by (simp add: engine_inv_def sched_inv_def loop_inv_def)
  have "tel_inv r" by (rule drain_step_cases [OF tel, of f]) (use flushes tel in auto)
  with flushes.IH show ?case by (simp add: engine_inv_recorder)
qed

section \<open>The status table\<close>

text \<open>The results of an iteration are about requests in the scheduler.\<close>

definition about :: "Sequence list \<Rightarrow> StepResult list \<Rightarrow> bool" where
  "about seqs res \<longleftrightarrow> result_id ` set res \<subseteq> sid ` set seqs"

lemma about_append: "about seqs (res @ res') \<longleftrightarrow> about seqs res \<and> about seqs res'"
  by (auto simp: about_def)

lemma about_mono: "about seqs res \<Longrightarrow> sid ` set seqs \<subseteq> sid ` set seqs' \<Longrightarrow> about seqs' res"
  by (simp add: about_def)

lemma sid_tickets: "sid ` set seqs = fst ` set (map ticket seqs)"
  by (induction seqs) (auto simp: ticket_def)

lemma do_prefill_chunk_sid: "do_prefill_chunk cfg pt s b = Inr (n, s', pt') \<Longrightarrow> sid s' = sid s"
  by (auto simp: do_prefill_chunk_def transition_to_def Let_def split: if_splits sum.splits prod.splits)

lemma prefill_loop_about:
  "prefill_loop vis todo b st res = Inr (b', st', res') \<Longrightarrow> \<exists>new. res' = res @ new \<and> about todo new"
proof (induction todo arbitrary: vis b st res)
  case (Cons s rest)
  then show ?case
    by (fastforce simp: about_def split: if_splits sum.splits dest: do_prefill_chunk_sid)
qed (auto simp: about_def)

lemma admission_loop_about:
  "admission_loop ws b st res = Inr (b', st', res') \<Longrightarrow> \<exists>new. res' = res @ new \<and> about ws new"
proof (induction ws arbitrary: b st res)
  case (Cons s ws)
  then show ?case
    by (fastforce simp: about_def split: if_splits sum.splits dest: do_prefill_chunk_sid)
qed (auto simp: about_def)

lemma tickets_sid: "map ticket xs = filter P (map ticket ys) \<Longrightarrow> sid ` set xs \<subseteq> sid ` set ys"
  unfolding sid_tickets by (metis filter_is_subset image_mono)

text \<open>A decode pass reports on some of the sequences it visits, each at most once and in their order.\<close>

lemma decode_body_result:
  assumes "decode_body clk s b st res = Inr (keep, b', st', res')"
  shows "res' = res \<or> (\<exists>r. res' = res @ [r] \<and> result_id r = sid s)"
  using assms by (auto simp: decode_body_def transition_to_def Let_def split: if_splits sum.splits prod.splits)

lemma decode_loop_ids:
  "decode_loop clk vis todo b st res = Inr (b', st', res') \<Longrightarrow>
     \<exists>new. res' = res @ new \<and> subseq (map result_id new) (map sid todo)"
proof (induction todo arbitrary: vis b st res)
  case (Cons s rest)
  have skip: ?case if "\<exists>new. res' = res @ new \<and> subseq (map result_id new) (map sid rest)"
    using that by (auto intro: subseq_Cons')
  show ?case
  proof (cases "b = 0 \<or> phase s \<noteq> DECODE")
    case True
    then show ?thesis using Cons.prems Cons.IH [of "vis @ [s]" b st res] skip by (auto split: if_splits)
  next
    case False
    then obtain keep b1 st1 res1 where body: "decode_body clk s b st res = Inr (keep, b1, st1, res1)"
      and rest: "decode_loop clk (case keep of None \<Rightarrow> vis | Some s' \<Rightarrow> vis @ [s']) rest b1 st1 res1 = Inr (b', st', res')"
      using Cons.prems by (auto split: if_splits sum.splits)
    obtain new where new: "res' = res1 @ new" "subseq (map result_id new) (map sid rest)" using Cons.IH [OF rest] by blast
    from decode_body_result [OF body] show ?thesis
    proof (elim disjE exE conjE)
      fix r assume "res1 = res @ [r]" "result_id r = sid s"
      then show ?thesis using new by (intro exI [of _ "r # new"]) simp
    qed (use new skip in blast)
  qed
qed auto

text \<open>The results of an iteration: first decode steps, one per sequence at most; the others are about sequences that
  stay, and finish none.\<close>

lemma step_results:
  assumes inv: "sched_inv st" and step: "step clk st = Inr (res, st')"
  obtains decs prefs where "res = decs @ prefs" "subseq (map result_id decs) (map sid (active st))"
    "result_id ` set prefs \<subseteq> sid ` set (active st @ waiting st) - finished_ids decs" "finished_ids prefs = {}"
proof -
  have l: "loop_inv (page_table st) (recorder st) ([] @ active st) (waiting st)" using inv by (simp add: sched_inv_def)
  obtain n1 b1 st1 where 1: "decode_loop clk [] (active st) (max_batch_tokens (config st)) st [] = Inr (b1, st1, n1)"
    "loop_post st (active st) (waiting st) (max_batch_tokens (config st)) n1 b1 st1" "waiting st1 = waiting st"
    using decode_loop_post [OF l, of clk "max_batch_tokens (config st)" "[]"] by auto
  then obtain n2 b2 st2 where 2: "prefill_loop [] (active st1) b1 st1 n1 = Inr (b2, st2, n1 @ n2)" "waiting st2 = waiting st1"
    "loop_post st1 (active st1) (waiting st1) b1 n2 b2 st2" "prefill_results (config st1) n2"
    using prefill_loop_post [of st1 "[]" "active st1" b1 n1] by (auto simp: loop_post_def)
  then obtain n3 b3 st3 where 3: "admission_loop (waiting st2) b2 st2 (n1 @ n2) = Inr (b3, st3, (n1 @ n2) @ n3)"
    "prefill_results (config st2) n3"
    using admission_loop_post [of st2 "waiting st2" b2 "n1 @ n2"] by (auto simp: loop_post_def)
  have res: "res = n1 @ n2 @ n3" using step 1(1) 2(1) 3(1) by (simp add: step_def)
  have T: "map ticket (active st1 @ waiting st1) = filter (\<lambda>t. fst t \<notin> finished_ids n1) (map ticket (active st @ waiting st))"
    using 1(2) by (simp add: loop_post_def stage_def)
  then have stay: "sid ` set (active st1 @ waiting st1) \<subseteq> sid ` set (active st @ waiting st) - finished_ids n1"
    unfolding sid_tickets by auto
  have "about (active st1) n2" "about (waiting st1) n3"
    using prefill_loop_about [OF 2(1)] admission_loop_about [OF 3(1)] 2(2) by auto
  then have "result_id ` set (n2 @ n3) \<subseteq> sid ` set (active st1 @ waiting st1)" by (auto simp: about_def)
  then have p: "result_id ` set (n2 @ n3) \<subseteq> sid ` set (active st @ waiting st) - finished_ids n1" using stay by blast
  have f: "finished_ids (n2 @ n3) = {}" using 2(4) 3(2) by (fastforce simp: finished_ids_def)
  show thesis by (rule that [OF res _ p f]) (use decode_loop_ids [OF 1(1)] in simp)
qed

lemma step_about:
  assumes "sched_inv st" "step clk st = Inr (res, st')"
  shows "about (active st @ waiting st) res"
proof (rule step_results [OF assms])
  fix decs prefs assume r: "res = decs @ prefs" "subseq (map result_id decs) (map sid (active st))"
    "result_id ` set prefs \<subseteq> sid ` set (active st @ waiting st) - finished_ids decs"
  have "set (map result_id decs) \<subseteq> set (map sid (active st))" by (rule subseq_set [OF r(2)])
  with r show ?thesis by (auto simp: about_def)
qed

text \<open>Every recorded status is of an accepted request, without a count, and FINISHED only when it is.\<close>

definition status_ok :: "u64 set \<Rightarrow> u64 set \<Rightarrow> SequenceStatusTable \<Rightarrow> bool" where
  "status_ok ids fin tab \<longleftrightarrow> (\<forall>i s. get tab i = Some s \<longrightarrow>
     i \<in> ids \<and> generated_count s = 0 \<and> (status_phase s = FINISHED \<longrightarrow> i \<in> fin))"

lemma status_ok_upsert:
  "status_ok ids fin tab \<Longrightarrow> i \<in> ids \<Longrightarrow> (p = FINISHED \<Longrightarrow> i \<in> fin) \<Longrightarrow> status_ok ids fin (upsert tab i p 0)"
  by (auto simp: status_ok_def get_def upsert_def)

lemma status_ok_mono: "status_ok ids fin tab \<Longrightarrow> ids \<subseteq> ids' \<Longrightarrow> fin \<subseteq> fin' \<Longrightarrow> status_ok ids' fin' tab"
  unfolding status_ok_def by blast

lemma status_ok_publish:
  "status_ok ids fin tab \<Longrightarrow> result_id ` set res \<subseteq> ids \<Longrightarrow> finished_ids res \<subseteq> fin \<Longrightarrow> status_ok ids fin (publish tab res)"
proof (induction res arbitrary: tab)
  case (Cons r res)
  have "status_ok ids fin (upsert tab (result_id r) (phase_after r) 0)"
    by (rule status_ok_upsert [OF Cons.prems(1)]) (use Cons.prems(2,3) in \<open>auto split: if_splits\<close>)
  from Cons.IH [OF this] Cons.prems(2,3) show ?case by (auto simp: publish_def split: if_splits)
qed (simp add: publish_def)

lemma status_run:
  "engine_run acc fin e \<Longrightarrow> status_ok (fst ` set acc) fin (status_table (server e)) \<and> set (pushed e) \<subseteq> fst ` set acc"
proof (induction rule: engine_run.induct)
  case (booted e)
  then show ?case
    by (auto simp: initial_Engine_def initial_IngressServer_def new_IngressServer_def status_ok_def get_def split: sum.splits)
next
  case (fetches acc fin e i srv prompt now mx)
  then show ?case by (auto simp: generate_fetch_def)
next
  case (pushes acc fin e xs s ys srv)
  have "status_table srv = status_table (server e)" using pushes.hyps(3) by (auto simp: generate_push_def split: option.splits)
  then show ?case using pushes.IH by (auto simp: ticket_def elim: status_ok_mono)
next
  case (refuses acc fin e xs s ys srv)
  then show ?case by (auto simp: generate_push_def split: option.splits)
next
  case (replies acc fin e xs i ys res srv)
  then have "i \<in> fst ` set acc" by simp
  then have "status_ok (fst ` set acc) fin (upsert (status_table (server e)) i PREFILL 0)"
    using replies.IH by (intro status_ok_upsert) simp_all
  then show ?case using replies by (auto simp: generate_finish_def)
next
  case (ticks acc fin e clk idle res e')
  have inv: "engine_inv acc fin e" using engine_run_inv [OF ticks.hyps(1)] by blast
  let ?R = "ring_list (queue (server e))" and ?sch = "scheduler e"
  obtain sch1 sch' q' where r: "sch1 = ?sch\<lparr>waiting := waiting ?sch @ take 256 ?R\<rparr>" "sched_inv sch1" "step clk sch1 = Inr (res, sch')"
    "e' = e\<lparr>server := (server e)\<lparr>queue := q', status_table := publish (status_table (server e)) res\<rparr>, scheduler := sch'\<rparr>"
    by (rule tick_result [OF inv, of clk]) (use ticks.hyps(2) in simp)
  have "sid ` set (active ?sch @ waiting ?sch @ ?R) \<subseteq> fst ` set acc"
    using inv unfolding sid_tickets engine_inv_def by (metis (no_types, lifting) filter_is_subset image_mono)
  moreover have "set (active sch1 @ waiting sch1) \<subseteq> set (active ?sch @ waiting ?sch @ ?R)"
    using r(1) by (auto dest: in_set_takeD)
  ultimately have "result_id ` set res \<subseteq> fst ` set acc"
    using step_about [OF r(2,3)] unfolding about_def by (meson image_mono order_trans)
  moreover have "status_ok (fst ` set acc) (fin \<union> finished_ids res) (status_table (server e))"
    using ticks.IH by (blast intro: status_ok_mono)
  ultimately show ?case using ticks.IH r(4) by (simp add: status_ok_publish)
next
  case (flushes acc fin e f f' r)
  then show ?case by simp
qed

section \<open>Progress\<close>

fun run_ticks :: "(nat \<Rightarrow> int) \<Rightarrow> nat \<Rightarrow> Engine \<Rightarrow> cpp_exn + StepResult list \<times> Engine" where
  "run_ticks clk 0 e = Inr ([], e)"
| "run_ticks clk (Suc n) e =
     (case tick clk e of
        Inl ex \<Rightarrow> Inl ex
      | Inr (idle, res, e') \<Rightarrow> (case run_ticks clk n e' of Inl ex \<Rightarrow> Inl ex | Inr (res', e'') \<Rightarrow> Inr (res @ res', e'')))"

text \<open>Left after \<open>n\<close> turns, the loop of \<open>main\<close> has done these turns.\<close>

lemma main_loop_ticks:
  "main_loop clk (replicate n False @ True # reads) e =
     (case run_ticks clk n e of Inl ex \<Rightarrow> Inl ex | Inr (res, e') \<Rightarrow> Inr (Some e'))"
  by (induction n arbitrary: e) (auto split: sum.split prod.split)

text \<open>All requests in the engine, oldest first.\<close>

abbreviation in_engine :: "Engine \<Rightarrow> Sequence list" where
  "in_engine e \<equiv> active (scheduler e) @ waiting (scheduler e) @ ring_list (queue (server e))"

text \<open>The scheduler as it is iterated in a turn, after the drain.\<close>

definition drained_scheduler :: "Engine \<Rightarrow> ContinuousBatchingScheduler" where
  "drained_scheduler e = (scheduler e)\<lparr>waiting := waiting (scheduler e) @ take 256 (ring_list (queue (server e)))\<rparr>"

text \<open>A condition that guarantees progress of that scheduler and that every turn keeps empties the engine.\<close>

locale engine_draining =
  fixes ok :: "Engine \<Rightarrow> bool"
  assumes progress: "engine_inv acc fin e \<Longrightarrow> ok e \<Longrightarrow> sched_inv (drained_scheduler e) \<Longrightarrow> can_progress (drained_scheduler e)"
    and preserved: "engine_inv acc fin e \<Longrightarrow> ok e \<Longrightarrow> tick clk e = Inr (idle, res, e') \<Longrightarrow> ok e'"
begin

lemma tick_progress:
  assumes inv: "engine_inv acc fin e" and d: "ok e" and ne: "in_engine e \<noteq> []"
    and t: "tick clk e = Inr (idle, res, e')"
  shows "work (in_engine e') < work (in_engine e)"
proof (rule tick_result [OF inv, of clk])
  fix sch1 res1 sch' q' idle1
  let ?R = "ring_list (queue (server e))" and ?sch = "scheduler e"
  assume r: "sch1 = ?sch\<lparr>waiting := waiting ?sch @ take 256 ?R\<rparr>" "sched_inv sch1" "step clk sch1 = Inr (res1, sch')"
    "ring_list q' = drop 256 ?R"
    "tick clk e = Inr (idle1, res1, e\<lparr>server := (server e)\<lparr>queue := q', status_table := publish (status_table (server e)) res1\<rparr>,
       scheduler := sch'\<rparr>)"
  have "can_progress sch1" using progress [OF inv d] r(1,2) by (simp add: drained_scheduler_def)
  moreover have "active sch1 @ waiting sch1 \<noteq> []" using ne r(1) by (cases ?R) auto
  ultimately have "0 < tokens res1" using step_progress tokens_pos [OF r(2,3)] r(3) by blast
  moreover have "work (active sch' @ waiting sch') + tokens res1 = work (active sch1 @ waiting sch1)"
    by (rule step_post [OF r(2), of clk]) (use r(3) in \<open>auto simp: loop_post_def stage_def\<close>)
  moreover have "work ?R = work (take 256 ?R) + work (drop 256 ?R)" by (metis append_take_drop_id result_simps(9))
  ultimately show ?thesis using r(1,4,5) t by auto
qed

lemma engine_drains:
  assumes "engine_run acc fin e" "ok e"
  shows "\<exists>n \<le> work (in_engine e). \<exists>res e'. run_ticks clk n e = Inr (res, e') \<and> engine_run acc (fin \<union> finished_ids res) e'
     \<and> in_engine e' = [] \<and> fetched e' = fetched e \<and> pushed e' = pushed e"
  using assms
proof (induction "work (in_engine e)" arbitrary: e fin rule: less_induct)
  case less
  have inv: "engine_inv acc fin e" using engine_run_inv [OF less.prems(1)] by blast
  show ?case
  proof (cases "in_engine e = []")
    case True
    then show ?thesis using less.prems(1) by (intro exI [of _ 0]) auto
  next
    case False
    obtain idle res e1 where t: "tick clk e = Inr (idle, res, e1)" "fetched e1 = fetched e" "pushed e1 = pushed e"
      by (rule tick_result [OF inv, of clk]) auto
    note dec = tick_progress [OF inv less.prems(2) False t(1)]
    from less.hyps [OF this engine_run.ticks [OF less.prems(1) t(1)] preserved [OF inv less.prems(2) t(1)]]
    obtain n res' e' where n: "n \<le> work (in_engine e1)" "run_ticks clk n e1 = Inr (res', e')"
      "engine_run acc (fin \<union> finished_ids res \<union> finished_ids res') e'" "in_engine e' = []"
      "fetched e' = fetched e1" "pushed e' = pushed e1" by blast
    have "run_ticks clk (Suc n) e = Inr (res @ res', e')" using t(1) n(2) by simp
    moreover have "Suc n \<le> work (in_engine e)" using dec n(1) by simp
    moreover have "engine_run acc (fin \<union> finished_ids (res @ res')) e'" using n(3) by (simp add: Un_assoc)
    ultimately show ?thesis using n(4-6) t(2,3) by metis
  qed
qed

lemma all_finish:
  assumes "engine_run acc fin e" "ok e"
  shows "\<exists>n \<le> work (in_engine e). \<exists>res e'. run_ticks clk n e = Inr (res, e') \<and> fst ` set acc = fin \<union> finished_ids res"
proof -
  obtain n res e' where n: "n \<le> work (in_engine e)" "run_ticks clk n e = Inr (res, e')"
    "engine_run acc (fin \<union> finished_ids res) e'" "in_engine e' = []" using engine_drains [OF assms, of clk] by blast
  then have "filter (\<lambda>t. fst t \<notin> fin \<union> finished_ids res) acc = []" "fin \<union> finished_ids res \<subseteq> fst ` set acc"
    using engine_run_inv [OF n(3)] by (auto simp: engine_inv_def)
  then have "fst ` set acc = fin \<union> finished_ids res" by (auto simp: filter_empty_conv)
  with n(1,2) show ?thesis by blast
qed

end

lemma tick_tickets:
  assumes inv: "engine_inv acc fin e" and t: "tick clk e = Inr (idle, res, e')"
  shows "map ticket (in_engine e') = filter (\<lambda>t. fst t \<notin> finished_ids res) (map ticket (in_engine e))"
    "same_size (page_table (scheduler e')) (page_table (scheduler e))"
  using inv engine_inv_tick [OF inv t] by (simp_all add: engine_inv_def conj_commute same_size_def flip: map_append)

text \<open>First condition: the largest demands of all requests in the engine fit together.\<close>

definition engine_can_drain :: "Engine \<Rightarrow> bool" where
  "engine_can_drain e \<longleftrightarrow> (\<forall>s \<in> set (in_engine e). prompt_tokens s \<noteq> [])
     \<and> reservation (page_table (scheduler e)) (in_engine e) \<le> num_blocks (page_table (scheduler e))"

lemma engine_can_drain_progress:
  assumes "engine_inv acc fin e" "engine_can_drain e" "sched_inv (drained_scheduler e)"
  shows "can_progress (drained_scheduler e)"
proof -
  let ?R = "ring_list (queue (server e))" and ?sch = "scheduler e"
  have "reservation (page_table ?sch) ?R = reservation (page_table ?sch) (take 256 ?R) + reservation (page_table ?sch) (drop 256 ?R)"
    by (metis append_take_drop_id reservation_simps(3))
  then have "can_drain (drained_scheduler e)"
    using assms by (auto simp: can_drain_def engine_can_drain_def engine_inv_def sched_cfg_def drained_scheduler_def dest: in_set_takeD)
  then show ?thesis by (rule can_drain_progress)
qed

lemma engine_can_drain_tick:
  assumes inv: "engine_inv acc fin e" and d: "engine_can_drain e" and t: "tick clk e = Inr (idle, res, e')"
  shows "engine_can_drain e'"
proof -
  note T = tick_tickets(1) [OF inv t] and sz = tick_tickets(2) [OF inv t]
  have "reservation (page_table (scheduler e')) (in_engine e') \<le> reservation (page_table (scheduler e)) (in_engine e)"
    unfolding reservation_eq T same_size_needed [OF sz] by (rule sum_list_filter_le_nat)
  moreover have "prompt_tokens s \<noteq> []" if "s \<in> set (in_engine e')" for s
  proof -
    have "ticket s \<in> set (map ticket (in_engine e'))" using that by (metis image_eqI set_map)
    then have "ticket s \<in> set (map ticket (in_engine e))" unfolding T by (simp only: set_filter) blast
    then show ?thesis using d by (auto simp: engine_can_drain_def ticket_def)
  qed
  ultimately show ?thesis using d sz by (auto simp: engine_can_drain_def same_size_def)
qed

interpretation by_reservation: engine_draining engine_can_drain
  by unfold_locales (rule engine_can_drain_progress engine_can_drain_tick; assumption)+

text \<open>Second condition: the batch is within the budget of 2048, and every request needs two blocks at most.\<close>

definition engine_batch_ok :: "Engine \<Rightarrow> bool" where
  "engine_batch_ok e \<longleftrightarrow> length (active (scheduler e)) \<le> max_batch_tokens sched_cfg
     \<and> (\<forall>t \<in> set (map ticket (in_engine e)). request_fits (page_table (scheduler e)) 2 t)"

lemma engine_batch_ok_drained:
  assumes "engine_inv acc fin e" "engine_batch_ok e" "sched_inv (drained_scheduler e)"
  shows "batch_ok 2 (drained_scheduler e)"
  using assms unfolding engine_batch_ok_def request_fits_tickets
  by (auto simp: batch_ok_def engine_inv_def drained_scheduler_def sched_cfg_def kNumPhysicalBlocks_def dest: in_set_takeD)

lemma engine_batch_ok_tick:
  assumes inv: "engine_inv acc fin e" and d: "engine_batch_ok e" and t: "tick clk e = Inr (idle, res, e')"
  shows "engine_batch_ok e'"
proof -
  note T = tick_tickets(1) [OF inv t] and sz = tick_tickets(2) [OF inv t]
  obtain sch' where s: "sched_inv (drained_scheduler e)" "step clk (drained_scheduler e) = Inr (res, sch')" "scheduler e' = sch'"
    by (rule tick_result [OF inv, of clk]) (use t in \<open>simp add: drained_scheduler_def\<close>)
  have "length (active sch') \<le> max_batch_tokens sched_cfg"
    using step_batch [OF engine_batch_ok_drained [OF inv d s(1)] s(2)] inv by (simp add: drained_scheduler_def engine_inv_def)
  moreover have fits: "request_fits (page_table (scheduler e')) q t \<longleftrightarrow> request_fits (page_table (scheduler e)) q t" for q t
    by (cases t) (simp add: same_size_needed [OF sz])
  have "\<forall>t \<in> set (map ticket (in_engine e')). request_fits (page_table (scheduler e')) 2 t"
    using d unfolding fits T engine_batch_ok_def by (simp only: set_filter) blast
  ultimately show ?thesis using s(3) by (simp add: engine_batch_ok_def)
qed

lemma engine_batch_ok_progress:
  "engine_inv acc fin e \<Longrightarrow> engine_batch_ok e \<Longrightarrow> sched_inv (drained_scheduler e) \<Longrightarrow> can_progress (drained_scheduler e)"
  by (rule batch_ok_progress [OF engine_batch_ok_drained])

interpretation by_batch: engine_draining engine_batch_ok
  by unfold_locales (rule engine_batch_ok_progress engine_batch_ok_tick; assumption)+

text \<open>Two blocks hold 32 tokens.\<close>

lemma short_fits:
  assumes "engine_inv acc fin e" "prompt \<noteq> []" "length prompt + max 1 (unat mx) \<le> 32"
  shows "request_fits (page_table (scheduler e)) 2 (i, prompt, mx)"
proof -
  have bs: "block_size (page_table (scheduler e)) = 16" using assms(1) by (simp add: engine_inv_def kBlockSizeTokens_def)
  have "blocks_needed_for (page_table (scheduler e)) (length prompt + max 1 (unat mx)) \<le> blocks_needed_for (page_table (scheduler e)) 32"
    using assms(2,3) bs by (intro blocks_needed_for_mono) simp_all
  also have "\<dots> = 2" using bs by (simp add: eval_simps)
  finally have "blocks_needed_for (page_table (scheduler e)) (length prompt + max 1 (unat mx)) \<le> 2" .
  with assms(2) show ?thesis by simp
qed

definition short_requests :: "(u64 \<times> u32 list \<times> u32) list \<Rightarrow> bool" where
  "short_requests acc \<longleftrightarrow> (\<forall>(i, prompt, mx) \<in> set acc. prompt \<noteq> [] \<and> length prompt + max 1 (unat mx) \<le> 32)"

lemma short_batch_ok:
  assumes inv: "engine_inv acc fin e" and "short_requests acc" "length (active (scheduler e)) \<le> max_batch_tokens sched_cfg"
  shows "engine_batch_ok e"
proof -
  have "set (map ticket (in_engine e)) \<subseteq> set acc" using inv by (simp only: engine_inv_def) auto
  moreover have "request_fits (page_table (scheduler e)) 2 t" if "t \<in> set acc" for t
    using that assms(2) short_fits [OF inv] by (cases t) (auto simp: short_requests_def simp del: request_fits.simps)
  ultimately show ?thesis using assms(3) unfolding engine_batch_ok_def by blast
qed

lemma short_run_batch:
  "engine_run acc fin e \<Longrightarrow> short_requests acc \<Longrightarrow> length (active (scheduler e)) \<le> max_batch_tokens sched_cfg"
proof (induction rule: engine_run.induct)
  case (booted e)
  then show ?case by (auto simp: initial_Engine_def new_ContinuousBatchingScheduler_def split: sum.splits)
next
  case (ticks acc fin e clk idle res e')
  have inv: "engine_inv acc fin e" using engine_run_inv [OF ticks.hyps(1)] by blast
  have "engine_batch_ok e" using short_batch_ok [OF inv ticks.prems] ticks by simp
  then show ?case using engine_batch_ok_tick [OF inv _ ticks.hyps(2)] by (simp add: engine_batch_ok_def)
qed (auto simp: short_requests_def)

section \<open>Properties\<close>

text \<open>C1. No accepted request is lost, duplicated or overtaken, under every interleaving of the HTTP handlers
  with the engine's loop: the requests accepted and not yet reported FINISHED are, in the order they were
  pushed, the active, then the waiting, then the queued ones; their ids are pairwise different; and a turn
  of the loop never throws.\<close>

theorem engine_conserves_requests:
  assumes "engine_run acc fin e"
  shows "filter (\<lambda>t. fst t \<notin> fin) acc
      = map ticket (active (scheduler e) @ waiting (scheduler e) @ ring_list (queue (server e)))
    \<and> distinct (map fst acc) \<and> (\<exists>idle res e'. tick clk e = Inr (idle, res, e'))"
proof -
  have inv: "engine_inv acc fin e" using engine_run_inv [OF assms] by blast
  have "\<exists>idle res e'. tick clk e = Inr (idle, res, e')" by (rule tick_result [OF inv, of clk]) blast
  with inv show ?thesis unfolding engine_inv_def engine_ids_ok_def by auto
qed

text \<open>C3. Every reachable state of the engine is well formed. A sequence in it has read no more than its prompt, still
  lacks a token, has generated none before its prompt is read, and is not FINISHED; every entry of the status table
  is about an accepted request, reports no generated tokens, and says FINISHED only when the request is.\<close>

theorem engine_states_well_formed:
  assumes "engine_run acc fin e"
  shows "(\<forall>s \<in> set (active (scheduler e) @ waiting (scheduler e) @ ring_list (queue (server e))).
        prefill_cursor s \<le> length (prompt_tokens s) \<and> length (generated_tokens s) < max 1 (unat (max_new_tokens s))
      \<and> (prefill_cursor s < length (prompt_tokens s) \<longrightarrow> phase s = PREFILL \<and> generated_tokens s = []) \<and> phase s \<noteq> FINISHED)
    \<and> (\<forall>i s. get (status_table (server e)) i = Some s \<longrightarrow>
        i \<in> fst ` set acc \<and> generated_count s = 0 \<and> (status_phase s = FINISHED \<longrightarrow> i \<in> fin))"
proof -
  have inv: "engine_inv acc fin e" using engine_run_inv [OF assms] by blast
  have a: "active_ok s \<or> waiting_ok s" if "s \<in> set (in_engine e)" for s
    using that inv by (auto simp: engine_inv_def sched_inv_def loop_inv_def)
  have "prefill_cursor s \<le> length (prompt_tokens s) \<and> length (generated_tokens s) < max 1 (unat (max_new_tokens s))
      \<and> (prefill_cursor s < length (prompt_tokens s) \<longrightarrow> phase s = PREFILL \<and> generated_tokens s = []) \<and> phase s \<noteq> FINISHED"
    if "s \<in> set (in_engine e)" for s
    using a [OF that] by (auto simp: active_ok_def waiting_ok_def less_max_iff_disj)
  with status_run [OF assms] show ?thesis by (simp add: status_ok_def)
qed

text \<open>C4. Every accepted request is finished by the loop alone: when no accepted prompt is empty and the blocks
  that the unfinished requests need at their largest fit in the 4096 of the cache, finitely many turns of
  the loop (no more than the tokens left to process) report every accepted request FINISHED.\<close>

theorem accepted_requests_finish:
  assumes "engine_run acc fin e" "\<forall>(i, prompt, mx) \<in> set acc. prompt \<noteq> []"
    "(\<Sum>(i, prompt, mx)\<leftarrow>filter (\<lambda>t. fst t \<notin> fin) acc.
        blocks_needed_for (page_table (scheduler e)) (length prompt + max 1 (unat mx))) \<le> kNumPhysicalBlocks"
  shows "\<exists>n \<le> work (in_engine e). \<exists>res e'. run_ticks clk n e = Inr (res, e') \<and> fst ` set acc = fin \<union> finished_ids res"
proof -
  have inv: "engine_inv acc fin e" using engine_run_inv [OF assms(1)] by blast
  have T: "map ticket (in_engine e) = filter (\<lambda>t. fst t \<notin> fin) acc" using inv by (simp add: engine_inv_def)
  have "prompt_tokens s \<noteq> []" if "s \<in> set (in_engine e)" for s
  proof -
    have "ticket s \<in> set (map ticket (in_engine e))" using that by (metis image_eqI set_map)
    then have "ticket s \<in> set acc" unfolding T by simp
    then show ?thesis using assms(2) by (auto simp: ticket_def)
  qed
  then have "engine_can_drain e" using assms(3) inv by (simp add: engine_can_drain_def reservation_eq T engine_inv_def)
  from by_reservation.all_finish [OF assms(1) this] show ?thesis .
qed

text \<open>C5. Short requests finish under any load: when every accepted request has a non-empty prompt and at most 32
  tokens in all,
  the 4096 blocks are enough for the batch, however many requests were accepted and wherever they are; finitely
  many turns of the loop report every one of them FINISHED.\<close>

theorem short_requests_always_finish:
  assumes "engine_run acc fin e" "\<forall>(i, prompt, mx) \<in> set acc. prompt \<noteq> [] \<and> length prompt + max 1 (unat mx) \<le> 32"
  shows "\<exists>n \<le> work (in_engine e). \<exists>res e'. run_ticks clk n e = Inr (res, e') \<and> fst ` set acc = fin \<union> finished_ids res"
proof -
  have short: "short_requests acc" using assms(2) by (simp add: short_requests_def)
  have inv: "engine_inv acc fin e" using engine_run_inv [OF assms(1)] by blast
  show ?thesis
    by (rule by_batch.all_finish [OF assms(1) short_batch_ok [OF inv short short_run_batch [OF assms(1) short]]])
qed

text \<open>One request accepted, its handler not yet done with the status table.\<close>

lemma demo_engine:
  "\<exists>e. engine_run [(1, [5], 1)] {} e \<and> pushed e = [1] \<and> fetched e = [] \<and> in_engine e = [new_Sequence 0 1 [5] 1]
     \<and> block_size (page_table (scheduler e)) = 16"
proof -
  let ?s = "new_Sequence 0 1 [5] 1"
  obtain e0 where e0: "initial_Engine = Inr e0"
    by (simp add: initial_Engine_def new_PagedKVCacheAllocator_def kBlockSizeTokens_def kNumPhysicalBlocks_def)
  then have shape: "server e0 = initial_IngressServer" "fetched e0 = []" "pushed e0 = []"
    "active (scheduler e0) = []" "waiting (scheduler e0) = []"
    by (auto simp: initial_Engine_def new_ContinuousBatchingScheduler_def split: sum.splits)
  let ?srv = "initial_IngressServer\<lparr>next_seq_id := 2\<rparr>"
  have f: "generate_fetch (server e0) = (1, ?srv)" using shape by (simp add: generate_fetch_def initial_IngressServer_def new_IngressServer_def)
  let ?e1 = "e0\<lparr>server := ?srv, fetched := fetched e0 @ [?s]\<rparr>"
  have r1: "engine_run [] {} ?e1" by (rule engine_run.fetches [OF engine_run.booted [OF e0] f]) simp_all
  have "ingress_inv ?srv" "ring_list (queue ?srv) = []"
    using ingress_inv_initial initial_queue_empty by (simp_all add: ingress_inv_def)
  then obtain q where q: "generate_push ?srv ?s = Some (True, ?srv\<lparr>queue := q\<rparr>)" "ring_list q = [?s]"
    by (metis append_Nil generate_push_cases kIngressQueueCapacity_def list.size(3) zero_neq_numeral)
  let ?e2 = "?e1\<lparr>server := ?srv\<lparr>queue := q\<rparr>, fetched := [] @ [], pushed := pushed ?e1 @ [sid ?s]\<rparr>"
  have "engine_run ([] @ [ticket ?s]) {} ?e2" by (rule engine_run.pushes [OF r1]) (use shape q in simp_all)
  moreover have "ticket ?s = (1, [5], 1)" "sid ?s = 1" by (simp_all add: ticket_def new_Sequence_def)
  ultimately have r2: "engine_run [(1, [5], 1)] {} ?e2" by simp
  have "block_size (page_table (scheduler ?e2)) = 16"
    using engine_run_inv [OF r2] by (simp add: engine_inv_def kBlockSizeTokens_def)
  with r2 \<open>sid ?s = 1\<close> shape q show ?thesis by (intro exI [of _ ?e2]) simp
qed

theorem engine_conserves_requests_witness:
  "\<exists>e. engine_run [(1, [5], 1)] {} e \<and> map ticket (in_engine e) = [(1, [5], 1)]
     \<and> (\<exists>idle res e'. tick (\<lambda>_. 0) e = Inr (idle, res, e'))"
proof -
  obtain e where "engine_run [(1, [5], 1)] {} e" using demo_engine by blast
  with engine_conserves_requests [OF this, of "\<lambda>_. 0"] show ?thesis by (intro exI [of _ e]) simp
qed

theorem engine_states_well_formed_witness:
  "\<exists>e. engine_run [(1, [5], 1)] {} e \<and> in_engine e \<noteq> []
     \<and> (\<forall>s \<in> set (in_engine e). phase s \<noteq> FINISHED) \<and> (\<forall>i s. get (status_table (server e)) i = Some s \<longrightarrow> i \<in> {1})"
proof -
  obtain e where e: "engine_run [(1, [5], 1)] {} e" "in_engine e = [new_Sequence 0 1 [5] 1]" using demo_engine by blast
  with engine_states_well_formed [OF e(1)] show ?thesis by (intro exI [of _ e]) auto
qed

lemma demo_engine_fits:
  "block_size pt = 16 \<Longrightarrow> blocks_needed_for pt 2 = 1"
  by (simp add: eval_simps)

theorem accepted_requests_finish_witness:
  "\<exists>e n res e'. engine_run [(1, [5], 1)] {} e \<and> run_ticks (\<lambda>_. 0) n e = Inr (res, e') \<and> finished_ids res = {1}"
proof -
  obtain e where e: "engine_run [(1, [5], 1)] {} e" "block_size (page_table (scheduler e)) = 16"
    using demo_engine by blast
  have "(\<Sum>(i, prompt, mx)\<leftarrow>filter (\<lambda>t. fst t \<notin> {}) [(1, [5], 1)].
      blocks_needed_for (page_table (scheduler e)) (length prompt + max 1 (unat mx))) \<le> kNumPhysicalBlocks"
    using demo_engine_fits [OF e(2)] by (simp add: kNumPhysicalBlocks_def numeral_2_eq_2)
  from accepted_requests_finish [OF e(1) _ this, of "\<lambda>_. 0"] e(1) show ?thesis by auto
qed

theorem short_requests_always_finish_witness:
  "\<exists>e n res e'. engine_run [(1, [5], 1)] {} e \<and> run_ticks (\<lambda>_. 0) n e = Inr (res, e') \<and> finished_ids res = {1}"
proof -
  obtain e where e: "engine_run [(1, [5], 1)] {} e" using demo_engine by blast
  have "\<forall>(i, prompt, mx) \<in> set [(1 :: u64, [5 :: u32], 1 :: u32)]. prompt \<noteq> [] \<and> length prompt + max 1 (unat mx) \<le> 32" by simp
  from short_requests_always_finish [OF e this, of "\<lambda>_. 0"] e show ?thesis by auto
qed

text \<open>The request of \<open>demo_engine\<close> is finished by the loop before its handler writes the status.\<close>

lemma demo_overtaken:
  "\<exists>fin e. engine_run [(1, [5], 1)] fin e \<and> 1 \<in> fin \<and> in_engine e = [] \<and> fetched e = [] \<and> pushed e = [1]"
proof -
  obtain e where e: "engine_run [(1, [5], 1)] {} e" "pushed e = [1]" "fetched e = []"
    "in_engine e = [new_Sequence 0 1 [5] 1]" "block_size (page_table (scheduler e)) = 16"
    using demo_engine by blast
  have "num_blocks (page_table (scheduler e)) = kNumPhysicalBlocks"
    using engine_run_inv [OF e(1)] by (simp add: engine_inv_def)
  then have "engine_can_drain e" unfolding engine_can_drain_def e(4)
    using demo_engine_fits [OF e(5)]
    by (simp add: new_Sequence_def reservation_def max_tokens_def kNumPhysicalBlocks_def numeral_2_eq_2)
  from by_reservation.engine_drains [OF e(1) this, of "\<lambda>_. 0"]
  obtain fin e' where e': "engine_run [(1, [5], 1)] fin e'" "in_engine e' = []" "fetched e' = []" "pushed e' = [1]"
    using e(2,3) by auto
  moreover have "1 \<in> fin" using engine_run_inv [OF e'(1)] e'(2) by (auto simp: engine_inv_def split: if_splits)
  ultimately show ?thesis by blast
qed

text \<open>The status endpoint can be wrong for ever: the handler writes PREFILL after its push, so when the
  loop finishes the request in between, the final status is PREFILL although the request is FINISHED and
  nothing is left in the engine that would write it again.\<close>

theorem stale_status_reachable:
  "\<exists>acc fin e. engine_run acc fin e \<and> 1 \<in> fin
     \<and> active (scheduler e) = [] \<and> waiting (scheduler e) = [] \<and> ring_list (queue (server e)) = []
     \<and> fetched e = [] \<and> pushed e = []
     \<and> get (status_table (server e)) 1 = Some \<lparr>status_phase = PREFILL, generated_count = 0\<rparr>"
proof -
  obtain fin e' where e': "engine_run [(1, [5], 1)] fin e'" "in_engine e' = []" "fetched e' = []" "pushed e' = [1]" "1 \<in> fin"
    using demo_overtaken by blast
  have "pushed e' = [] @ 1 # []" using e'(4) by simp
  from engine_run.replies [OF e'(1) this prod.collapse [symmetric]]
  have "engine_run [(1, [5], 1)] fin (e'\<lparr>server := snd (generate_finish (server e') 1), pushed := []\<rparr>)" by simp
  then show ?thesis using e'(2,3,5)
    by (intro exI [of _ "[(1, [5], 1)]"] exI [of _ fin] exI conjI) (assumption | simp add: generate_finish_def get_def upsert_def)+
qed

end
