(* ===== verification/Bench_Cli.thy ===== *)
theory Bench_Cli
  imports Engine Scheduler_Telemetry
begin

text \<open>
  The benchmark driver (\<open>benchmarks/bench_cli.cpp\<close>): its argument parser, one benchmark run, and the summary of it.
  A run has three threads: the producer that paces arrivals (\<open>arrive\<close>), the engine thread (\<open>bench_turn\<close>, one turn of
  its loop) and the flusher of the telemetry (\<open>bench_flush\<close>); they interleave in \<open>bench_run\<close>. The draws from the
  random distributions, the pacing against the wall clock and the elapsed time are parameters; \<open>std::stod\<close> is the
  parameter \<open>stod\<close> of the parser. Doubles are exact rationals.
\<close>

section \<open>Arguments\<close>

record Args =
  duration_seconds :: rat
  rate_per_second :: rat
  long_fraction :: rat
  repeat :: int
  seed_base :: u64
  output_prefix :: string

definition default_Args :: Args where
  "default_Args = \<lparr>duration_seconds = 30, rate_per_second = 100, long_fraction = 15 / 100, repeat = 3, seed_base = 1000,
     output_prefix = ''bench_run''\<rparr>"

text \<open>The chain of flag comparisons, with the string that \<open>next()\<close> returns; \<open>None\<close> is an unknown flag.\<close>

definition set_flag :: "(string \<Rightarrow> cpp_exn + rat) \<Rightarrow> string \<Rightarrow> string \<Rightarrow> Args \<Rightarrow> cpp_exn + Args option" where
  "set_flag stod flag v a =
     (if flag = ''--duration'' then (case stod v of Inl e \<Rightarrow> Inl e | Inr x \<Rightarrow> Inr (Some (a\<lparr>duration_seconds := x\<rparr>)))
      else if flag = ''--rate'' then (case stod v of Inl e \<Rightarrow> Inl e | Inr x \<Rightarrow> Inr (Some (a\<lparr>rate_per_second := x\<rparr>)))
      else if flag = ''--long-fraction'' then (case stod v of Inl e \<Rightarrow> Inl e | Inr x \<Rightarrow> Inr (Some (a\<lparr>long_fraction := x\<rparr>)))
      else if flag = ''--repeat'' then (case stoi v of Inl e \<Rightarrow> Inl e | Inr n \<Rightarrow> Inr (Some (a\<lparr>repeat := n\<rparr>)))
      else if flag = ''--seed-base'' then (case stoull v of Inl e \<Rightarrow> Inl e | Inr n \<Rightarrow> Inr (Some (a\<lparr>seed_base := n\<rparr>)))
      else if flag = ''--output'' then Inr (Some (a\<lparr>output_prefix := v\<rparr>))
      else Inr None)"

text \<open>The loop over \<open>argv\<close>: \<open>next()\<close> takes the following argument, or the empty string at the end. The result is an
  exception, an exit code, or the arguments.\<close>

fun parse_loop :: "(string \<Rightarrow> cpp_exn + rat) \<Rightarrow> string list \<Rightarrow> Args \<Rightarrow> cpp_exn + int + Args" where
  "parse_loop stod [] a = Inr (Inr a)"
| "parse_loop stod (flag # rest) a =
     (case set_flag stod flag (case rest of [] \<Rightarrow> '''' | v # _ \<Rightarrow> v) a of
        Inl e \<Rightarrow> Inl e
      | Inr None \<Rightarrow> Inr (Inl 2)
      | Inr (Some a') \<Rightarrow> parse_loop stod (tl rest) a')"

definition parse_args :: "(string \<Rightarrow> cpp_exn + rat) \<Rightarrow> string list \<Rightarrow> cpp_exn + int + Args" where
  "parse_args stod argv = parse_loop stod (drop 1 argv) default_Args"

section \<open>A run\<close>

record RequestShape =
  shape_prompt_len :: u32
  shape_max_new_tokens :: u32
  is_long :: bool

text \<open>The draws: the coin, and a prompt length and a number of new tokens from the long and the short distributions.\<close>

definition draw_request_shape :: "rat \<Rightarrow> int \<times> int \<Rightarrow> int \<times> int \<Rightarrow> rat \<Rightarrow> RequestShape" where
  "draw_request_shape coin long short fraction =
     (if coin < fraction
      then \<lparr>shape_prompt_len = word_of_int (fst long), shape_max_new_tokens = word_of_int (snd long), is_long = True\<rparr>
      else \<lparr>shape_prompt_len = word_of_int (fst short), shape_max_new_tokens = word_of_int (snd short), is_long = False\<rparr>)"

text \<open>What the threads of a run share, and the producer's counters.\<close>

record BenchRun =
  bench_queue :: "Sequence LockFreeRingBuffer"
  bench_scheduler :: ContinuousBatchingScheduler
  flusher :: TelemetryFlusher
  completed :: u64
  bench_next_id :: u64
  admitted :: u64
  rejected_backpressure :: u64

definition bench_cfg :: SchedulerConfig where
  "bench_cfg = \<lparr>max_batch_tokens = 2048, max_prefill_chunk = 512\<rparr>"

definition bench_setup :: "TelemetryRecorder \<Rightarrow> cpp_exn + BenchRun" where
  "bench_setup r =
     (case of_spin (reset_for_testing r) of
        Inl e \<Rightarrow> Inl e
      | Inr r1 \<Rightarrow>
          (case new_PagedKVCacheAllocator 16 4096 of
             Inl e \<Rightarrow> Inl e
           | Inr pt \<Rightarrow>
               Inr \<lparr>bench_queue = new_LockFreeRingBuffer kIngressQueueCapacity (new_Sequence 0 0 [] 0),
                    bench_scheduler = new_ContinuousBatchingScheduler bench_cfg pt (set_enabled r1 True),
                    flusher = start new_TelemetryFlusher, completed = 0, bench_next_id = 1, admitted = 0,
                    rejected_backpressure = 0\<rparr>))"

text \<open>One turn of the engine thread; the flag says whether it would sleep.\<close>

definition bench_turn :: "(nat \<Rightarrow> int) \<Rightarrow> BenchRun \<Rightarrow> cpp_exn + bool \<times> StepResult list \<times> BenchRun" where
  "bench_turn clk b =
     (case of_spin (drain_queue 256 (bench_queue b) (0, bench_scheduler b)) of
        Inl e \<Rightarrow> Inl e
      | Inr ((drained, sch), q) \<Rightarrow>
          (case step clk sch of
             Inl e \<Rightarrow> Inl e
           | Inr (res, sch') \<Rightarrow>
               Inr (drained = 0 \<and> res = [], res,
                 b\<lparr>bench_queue := q, bench_scheduler := sch',
                   completed := foldl (\<lambda>n r. if phase_after r = FINISHED then n + 1 else n) (completed b) res\<rparr>)))"

text \<open>One turn of the producer's loop that does not leave it.\<close>

definition arrive :: "int \<Rightarrow> RequestShape \<Rightarrow> BenchRun \<Rightarrow> cpp_exn + BenchRun" where
  "arrive now shape b =
     (let s = new_Sequence now (bench_next_id b) (replicate (unat (shape_prompt_len shape)) 1) (shape_max_new_tokens shape)
      in case of_spin (try_push (bench_queue b) s) of
           Inl e \<Rightarrow> Inl e
         | Inr (ok, q) \<Rightarrow>
             (let b' = b\<lparr>bench_queue := q, bench_next_id := bench_next_id b + 1\<rparr>
              in if ok then Inr (b'\<lparr>admitted := admitted b' + 1\<rparr>)
                 else Inr (b'\<lparr>rejected_backpressure := rejected_backpressure b' + 1\<rparr>)))"

definition bench_flush :: "BenchRun \<Rightarrow> BenchRun option" where
  "bench_flush b =
     (case drain_step (flusher b) (recorder (bench_scheduler b)) of
        None \<Rightarrow> None
      | Some (f, r) \<Rightarrow> Some (b\<lparr>flusher := f, bench_scheduler := (bench_scheduler b)\<lparr>recorder := r\<rparr>\<rparr>))"

record RunSummary =
  run_index :: int
  sum_admitted :: u64
  sum_rejected_backpressure :: u64
  sum_completed :: u64
  still_in_flight_at_cutoff :: u64
  tokens_generated :: u64
  wall_seconds :: rat
  requests_per_second :: rat
  tokens_per_second :: rat
  sum_ttft :: MetricStats
  sum_inter_token :: MetricStats
  dropped_telemetry_samples :: u64

text \<open>What follows the join of the engine thread: \<open>flusher.stop()\<close>, the snapshot and the summary.\<close>

definition finish_run :: "int \<Rightarrow> rat \<Rightarrow> BenchRun \<Rightarrow> cpp_exn + RunSummary" where
  "finish_run index wall b =
     (case of_spin (stop (flusher b) (recorder (bench_scheduler b))) of
        Inl e \<Rightarrow> Inl e
      | Inr (f, r) \<Rightarrow>
          (let snap = snapshot f r;
               tokens = word_of_nat (stat_count (ttft snap)) + word_of_nat (stat_count (inter_token snap))
           in Inr \<lparr>run_index = index, sum_admitted = admitted b, sum_rejected_backpressure = rejected_backpressure b,
                   sum_completed = completed b, still_in_flight_at_cutoff = admitted b - completed b,
                   tokens_generated = tokens, wall_seconds = wall,
                   requests_per_second = of_nat (unat (completed b)) / wall,
                   tokens_per_second = of_nat (unat tokens) / wall,
                   sum_ttft = ttft snap, sum_inter_token = inter_token snap,
                   dropped_telemetry_samples = dropped_samples snap\<rparr>))"

text \<open>A run after any earlier use of the telemetry: \<open>n\<close> requests have arrived and \<open>t\<close> tokens were generated. The id
  counter has not wrapped around.\<close>

inductive bench_run :: "nat \<Rightarrow> nat \<Rightarrow> BenchRun \<Rightarrow> bool" where
  begins: "tel_run off r f \<Longrightarrow> bench_setup r = Inr b \<Longrightarrow> bench_run 0 0 b"
| arrival: "bench_run n t b \<Longrightarrow> bench_next_id b \<noteq> - 1 \<Longrightarrow> arrive now shape b = Inr b' \<Longrightarrow> bench_run (Suc n) t b'"
| turn: "bench_run n t b \<Longrightarrow> bench_turn clk b = Inr (idle, res, b') \<Longrightarrow> bench_run n (t + decode_count res) b'"
| flush: "bench_run n t b \<Longrightarrow> bench_flush b = Some b' \<Longrightarrow> bench_run n t b'"

section \<open>The same engine\<close>

text \<open>The engine that a run drives, as \<open>main.cpp\<close> has it; the benchmark keeps no status table.\<close>

definition as_engine :: "SequenceStatusTable \<Rightarrow> BenchRun \<Rightarrow> Engine" where
  "as_engine tab b = \<lparr>server = new_IngressServer (bench_queue b) tab (bench_next_id b), scheduler = bench_scheduler b,
     fetched = [], pushed = []\<rparr>"

lemma as_engine_simps [simp]:
  "queue (server (as_engine tab b)) = bench_queue b" "next_seq_id (server (as_engine tab b)) = bench_next_id b"
  "scheduler (as_engine tab b) = bench_scheduler b" "fetched (as_engine tab b) = []"
  "status_table (server (as_engine tab b)) = tab"
  by (simp_all add: as_engine_def new_IngressServer_def)

lemma completed_count:
  "foldl (\<lambda>n r. if phase_after r = FINISHED then n + 1 else n) (v :: u64) res = v + word_of_nat (finish_count res)"
  by (induction res arbitrary: v) (simp_all add: finish_count_def)

text \<open>The engine thread takes the turns of \<open>main.cpp\<close>'s loop, and counts what it reports finished.\<close>

lemma bench_turn_tick:
  "bench_turn clk b =
     (case tick clk (as_engine tab b) of
        Inl e \<Rightarrow> Inl e
      | Inr (idle, res, e') \<Rightarrow>
          Inr (idle, res, b\<lparr>bench_queue := queue (server e'), bench_scheduler := scheduler e',
            completed := completed b + word_of_nat (finish_count res)\<rparr>))"
  by (simp add: bench_turn_def tick_def completed_count split: sum.split prod.split)

section \<open>Accounting\<close>

text \<open>The accepted requests \<open>acc\<close>, the ids \<open>fin\<close> reported finished and the samples \<open>off\<close> offered so far.\<close>

definition bench_ok :: "(u64 \<times> u32 list \<times> u32) list \<Rightarrow> u64 set \<Rightarrow> MetricSample list \<Rightarrow> nat \<Rightarrow> BenchRun \<Rightarrow> bool" where
  "bench_ok acc fin off n b \<longleftrightarrow> engine_inv acc fin (as_engine Map.empty b) \<and> fin \<subseteq> fst ` set acc \<and> length acc \<le> n
     \<and> admitted b = word_of_nat (length acc) \<and> rejected_backpressure b = word_of_nat (n - length acc)
     \<and> completed b = word_of_nat (length (filter (\<lambda>t. fst t \<in> fin) acc))
     \<and> tel_run off (recorder (bench_scheduler b)) (flusher b)
     \<and> enabled (recorder (bench_scheduler b)) \<and> running (flusher b)"

lemma tel_run_inv: "tel_run off r f \<Longrightarrow> tel_inv r"
  using accounted_run by (auto simp: all_accounted_def accounted_def)

lemma bench_setup_ok:
  assumes tel: "tel_run off r f" and b: "bench_setup r = Inr b"
  shows "bench_ok [] {} [] 0 b"
proof -
  obtain r1 where r1: "reset_for_testing r = Some r1" using reset_for_testing_result [OF tel_run_inv [OF tel]] by blast
  let ?r = "set_enabled r1 True"
  have tel': "tel_run [] ?r (start new_TelemetryFlusher)" by (intro tel_run.started tel_run.switched tel_run.was_reset [OF tel r1])
  obtain pt where pt: "new_PagedKVCacheAllocator 16 4096 = Inr pt" by (simp add: new_PagedKVCacheAllocator_def)
  obtain e where e: "initial_Engine = Inr e" using pt by (simp add: initial_Engine_def kBlockSizeTokens_def kNumPhysicalBlocks_def)
  have inv: "engine_inv [] {} (e\<lparr>scheduler := (scheduler e)\<lparr>recorder := ?r\<rparr>\<rparr>)"
    by (rule engine_inv_recorder [OF engine_inv_boot [OF e] tel_run_inv [OF tel']])
  have shape: "server e = initial_IngressServer" "fetched e = []"
    "(scheduler e)\<lparr>recorder := ?r\<rparr> = new_ContinuousBatchingScheduler bench_cfg pt ?r"
    using e pt by (auto simp: initial_Engine_def kBlockSizeTokens_def kNumPhysicalBlocks_def new_ContinuousBatchingScheduler_def
        sched_cfg_def bench_cfg_def)
  have b': "bench_queue b = queue initial_IngressServer" "bench_next_id b = next_seq_id initial_IngressServer"
    "bench_scheduler b = new_ContinuousBatchingScheduler bench_cfg pt ?r" "flusher b = start new_TelemetryFlusher"
    "admitted b = 0" "rejected_backpressure b = 0" "completed b = 0"
    using b r1 pt by (auto simp: bench_setup_def initial_IngressServer_def new_IngressServer_def)
  have "engine_inv [] {} (as_engine Map.empty b)" by (rule engine_inv_frame [OF inv]) (use shape b' in simp_all)
  moreover have "recorder (bench_scheduler b) = ?r" "enabled ?r" using b' by (simp_all add: new_ContinuousBatchingScheduler_def set_enabled_def)
  moreover have "running (start new_TelemetryFlusher)" by (simp add: start_def new_TelemetryFlusher_def)
  ultimately show ?thesis using tel' b' by (simp add: bench_ok_def)
qed

lemma arrive_engine:
  assumes inv: "engine_inv acc fin (as_engine Map.empty b)" and fin: "fin \<subseteq> fst ` set acc" and id: "bench_next_id b \<noteq> - 1"
    and a: "arrive now shape b = Inr b'"
  obtains (admitted) t where "engine_inv (acc @ [t]) fin (as_engine Map.empty b')" "fst t \<notin> fin"
      "admitted b' = admitted b + 1" "rejected_backpressure b' = rejected_backpressure b"
  | (rejected) "engine_inv acc fin (as_engine Map.empty b')"
      "admitted b' = admitted b" "rejected_backpressure b' = rejected_backpressure b + 1"
proof -
  let ?e = "as_engine Map.empty b" and ?prompt = "replicate (unat (shape_prompt_len shape)) (1 :: u32)"
  let ?s = "new_Sequence now (bench_next_id b) ?prompt (shape_max_new_tokens shape)"
  let ?srv = "(server ?e)\<lparr>next_seq_id := bench_next_id b + 1\<rparr>" and ?e1 = "?e\<lparr>server := (server ?e)\<lparr>next_seq_id := bench_next_id b + 1\<rparr>, fetched := fetched ?e @ [?s]\<rparr>"
  have "unat (shape_prompt_len shape) \<le> 2 ^ 61" using unsigned_less [where 'a = nat, of "shape_prompt_len shape"] by simp
  then have inv1: "engine_inv acc fin ?e1"
    by (intro engine_inv_fetch [OF inv]) (simp_all add: generate_fetch_def id)
  obtain ok q where q: "try_push (bench_queue b) ?s = Some (ok, q)" using a by (auto simp: arrive_def Let_def of_spin_def split: option.splits)
  then have p: "generate_push (server ?e1) ?s = Some (ok, ?srv\<lparr>queue := q\<rparr>)" by (simp add: generate_push_def)
  have f: "fetched ?e1 = [] @ ?s # []" by simp
  show thesis
  proof (cases ok)
    case True
    let ?e2 = "?e1\<lparr>server := ?srv\<lparr>queue := q\<rparr>, fetched := [] @ [], pushed := pushed ?e1 @ [sid ?s]\<rparr>"
    have inv2: "engine_inv (acc @ [ticket ?s]) fin ?e2" by (rule engine_inv_push [OF inv1 f _ fin]) (use p True in simp)
    show ?thesis
    proof (rule admitted [of "ticket ?s"])
      show "engine_inv (acc @ [ticket ?s]) fin (as_engine Map.empty b')"
        by (rule engine_inv_frame [OF inv2]) (use a q True in \<open>auto simp: arrive_def Let_def\<close>)
      have "i < bench_next_id b" if "i \<in> fin" for i using that inv fin by (auto simp: engine_inv_def engine_ids_ok_def)
      then show "fst (ticket ?s) \<notin> fin" by (auto simp: ticket_def new_Sequence_def)
    qed (use a q True in \<open>auto simp: arrive_def Let_def\<close>)
  next
    case False
    have inv2: "engine_inv acc fin (?e1\<lparr>server := ?srv\<lparr>queue := q\<rparr>, fetched := [] @ []\<rparr>)"
      by (rule engine_inv_refuse [OF inv1 f]) (use p False in simp)
    have "engine_inv acc fin (as_engine Map.empty b')"
      by (rule engine_inv_frame [OF inv2]) (use a q False in \<open>auto simp: arrive_def Let_def\<close>)
    then show ?thesis by (rule rejected) (use a q False in \<open>auto simp: arrive_def Let_def\<close>)
  qed
qed

text \<open>A turn of the loop: who leaves the engine is counted, and every token generated offers a sample.\<close>

lemma tick_counts:
  assumes inv: "engine_inv acc fin e" and t: "tick clk e = Inr (idle, res, e')"
  shows "length (in_engine e') + finish_count res = length (in_engine e)"
    "offers (decode_count res) (recorder (scheduler e)) (recorder (scheduler e'))"
    "next_seq_id (server e') = next_seq_id (server e)" "fetched e' = fetched e"
proof -
  let ?R = "ring_list (queue (server e))"
  obtain q' sch' where s: "sched_inv (drained_scheduler e)" "step clk (drained_scheduler e) = Inr (res, sch')" "ring_list q' = drop 256 ?R"
    "e' = e\<lparr>server := (server e)\<lparr>queue := q', status_table := publish (status_table (server e)) res\<rparr>, scheduler := sch'\<rparr>"
    by (rule tick_result [OF inv, of clk]) (use t in \<open>simp add: drained_scheduler_def\<close>)
  show "length (in_engine e') + finish_count res = length (in_engine e)"
    using step_finish [OF s(1,2)] s(3,4) by (simp add: drained_scheduler_def)
  show "offers (decode_count res) (recorder (scheduler e)) (recorder (scheduler e'))"
    using step_offers [OF s(2)] s(4) by (simp add: drained_scheduler_def)
  show "next_seq_id (server e') = next_seq_id (server e)" "fetched e' = fetched e" using s(4) by simp_all
qed

lemma in_engine_count:
  "engine_inv acc fin e \<Longrightarrow> length (in_engine e) + length (filter (\<lambda>t. fst t \<in> fin) acc) = length acc"
proof -
  assume "engine_inv acc fin e"
  then have "map ticket (in_engine e) = filter (\<lambda>t. fst t \<notin> fin) acc" by (simp add: engine_inv_def)
  from arg_cong [OF this, of length] show ?thesis using sum_length_filter_compl [of "\<lambda>t. fst t \<notin> fin" acc] by simp
qed

lemma bench_ok_arrive:
  assumes i: "bench_ok acc fin off n b" and a: "bench_next_id b \<noteq> - 1" "arrive now shape b = Inr b'"
  shows "\<exists>acc'. bench_ok acc' fin off (Suc n) b'"
proof -
  have b': "bench_scheduler b' = bench_scheduler b" "flusher b' = flusher b" "completed b' = completed b"
    using a(2) by (auto simp: arrive_def Let_def split: sum.splits prod.splits if_splits)
  have e: "engine_inv acc fin (as_engine Map.empty b)" "fin \<subseteq> fst ` set acc" using i by (simp_all add: bench_ok_def)
  show ?thesis
  proof (rule arrive_engine [OF e a])
    fix tk assume "engine_inv (acc @ [tk]) fin (as_engine Map.empty b')" "fst tk \<notin> fin" "admitted b' = admitted b + 1"
      "rejected_backpressure b' = rejected_backpressure b"
    then show ?thesis using i b' by (intro exI [of _ "acc @ [tk]"]) (auto simp: bench_ok_def)
  next
    assume "engine_inv acc fin (as_engine Map.empty b')" "admitted b' = admitted b" "rejected_backpressure b' = rejected_backpressure b + 1"
    then show ?thesis using i b' by (intro exI [of _ acc]) (simp add: bench_ok_def Suc_diff_le)
  qed
qed

lemma bench_ok_turn:
  assumes i: "bench_ok acc fin off n b" and t: "bench_turn clk b = Inr (idle, res, b')"
  shows "\<exists>ss. bench_ok acc (fin \<union> finished_ids res) (off @ ss) n b' \<and> length ss = decode_count res"
proof -
  have inv: "engine_inv acc fin (as_engine Map.empty b)" using i by (simp add: bench_ok_def)
  obtain e' where e': "tick clk (as_engine Map.empty b) = Inr (idle, res, e')"
    "b' = b\<lparr>bench_queue := queue (server e'), bench_scheduler := scheduler e', completed := completed b + word_of_nat (finish_count res)\<rparr>"
    using t unfolding bench_turn_tick [of clk b Map.empty] by (auto split: sum.splits)
  note c = tick_counts [OF inv e'(1)] and inv' = engine_inv_tick(1) [OF inv e'(1)]
  have "engine_inv acc (fin \<union> finished_ids res) (as_engine Map.empty b')"
    by (rule engine_inv_frame [OF inv']) (use e'(2) c(3,4) in simp_all)
  moreover have "length (filter (\<lambda>t. fst t \<in> fin \<union> finished_ids res) acc) = length (filter (\<lambda>t. fst t \<in> fin) acc) + finish_count res"
    using in_engine_count [OF inv] in_engine_count [OF inv'] c(1) by simp
  then have "completed b' = word_of_nat (length (filter (\<lambda>t. fst t \<in> fin \<union> finished_ids res) acc))"
    using e'(2) i by (simp add: bench_ok_def)
  moreover obtain ss where "length ss = decode_count res" "tel_run (off @ ss) (recorder (bench_scheduler b')) (flusher b')"
    "enabled (recorder (bench_scheduler b'))" using offers_run [OF c(2), of off "flusher b"] i e'(2) by (auto simp: bench_ok_def)
  ultimately show ?thesis using i e'(2) engine_inv_tick(2) [OF inv e'(1)] by (intro exI [of _ ss]) (simp add: bench_ok_def)
qed

lemma bench_ok_flush:
  assumes i: "bench_ok acc fin off n b" and f: "bench_flush b = Some b'"
  shows "bench_ok acc fin off n b'"
proof -
  have e: "engine_inv acc fin (as_engine Map.empty b)" "tel_run off (recorder (bench_scheduler b)) (flusher b)" "running (flusher b)"
    using i by (simp_all add: bench_ok_def)
  obtain f r where d: "drain_step (flusher b) (recorder (bench_scheduler b)) = Some (f, r)"
    "b' = b\<lparr>flusher := f, bench_scheduler := (bench_scheduler b)\<lparr>recorder := r\<rparr>\<rparr>"
    using f by (auto simp: bench_flush_def split: option.splits)
  have tel: "tel_run off r f" by (rule tel_run.background [OF e(2,3) d(1)])
  have "enabled r" "running f"
    using d(1) i by (auto simp: bench_ok_def drain_step_def store_sample_def split: option.splits if_splits)
  moreover have "engine_inv acc fin (as_engine Map.empty b')"
    by (rule engine_inv_frame [OF engine_inv_recorder [OF e(1) tel_run_inv [OF tel]]]) (use d(2) in simp_all)
  ultimately show ?thesis using i d(2) tel by (simp add: bench_ok_def)
qed

lemma bench_run_ok: "bench_run n t b \<Longrightarrow> \<exists>acc fin off. bench_ok acc fin off n b \<and> length off = t"
proof (induction rule: bench_run.induct)
  case (begins off r f b)
  from bench_setup_ok [OF this] show ?case by fastforce
next
  case (arrival n t b now shape b')
  then show ?case using bench_ok_arrive by blast
next
  case (turn n t b clk idle res b')
  then show ?case using bench_ok_turn by (metis length_append)
next
  case (flush n t b b')
  then show ?case using bench_ok_flush by blast
qed

text \<open>C36. The summary of a benchmark run adds up, for every interleaving of arrivals, engine turns and telemetry drains: the
  run ends with a summary in which every arrival is admitted or rejected, the admitted requests are the completed
  ones and those in flight (the subtraction does not wrap around, and it counts the requests still in the queue or
  the scheduler), and every token generated is counted in \<open>tokens_generated\<close> or in the dropped samples. So
  \<open>tokens_generated\<close> is the exact number of tokens only when nothing was dropped.\<close>

theorem bench_summary_adds_up:
  assumes "bench_run n t b" "n < 2 ^ 64" "t < 2 ^ 64"
  shows "\<exists>s. finish_run index wall b = Inr s
     \<and> unat (sum_admitted s) + unat (sum_rejected_backpressure s) = n
     \<and> unat (sum_completed s) + unat (still_in_flight_at_cutoff s) = unat (sum_admitted s)
     \<and> unat (still_in_flight_at_cutoff s)
         = length (active (bench_scheduler b) @ waiting (bench_scheduler b) @ ring_list (bench_queue b))
     \<and> unat (tokens_generated s) + unat (dropped_telemetry_samples s) = t"
proof -
  obtain acc fin off where i: "bench_ok acc fin off n b" "length off = t" using bench_run_ok [OF assms(1)] by blast
  let ?done = "length (filter (\<lambda>t. fst t \<in> fin) acc)" and ?flight = "length (in_engine (as_engine Map.empty b))"
  have sum: "?flight + ?done = length acc" using i(1) by (intro in_engine_count) (simp add: bench_ok_def)
  have le: "length acc \<le> n" "?done < 2 ^ 64" "length acc < 2 ^ 64" "?flight < 2 ^ 64" using i(1) sum assms(2) by (auto simp: bench_ok_def)
  have c: "unat (admitted b) = length acc" "unat (rejected_backpressure b) = n - length acc" "unat (completed b) = ?done"
    using i(1) le unat_u64_of_nat [of "n - length acc"] assms(2) by (simp_all add: bench_ok_def del: of_nat_diff)
  have "word_of_nat (length acc) - word_of_nat ?done = (word_of_nat ?flight :: u64)"
    unfolding sum [symmetric] by (simp only: of_nat_add add_diff_cancel_right')
  then have "admitted b - completed b = word_of_nat ?flight" using i(1) by (simp only: bench_ok_def)
  then have flight: "unat (admitted b - completed b) = ?flight" using unat_u64_of_nat [OF le(4)] by (simp only:)
  obtain f r where f: "stop (flusher b) (recorder (bench_scheduler b)) = Some (f, r)"
    "stat_count (ttft (snapshot f r)) + stat_count (inter_token (snapshot f r)) + unat (dropped_samples (snapshot f r)) = t"
    using stop_accounts [of off "recorder (bench_scheduler b)" "flusher b"] i assms(3) by (auto simp: bench_ok_def)
  then have "unat (word_of_nat (stat_count (ttft (snapshot f r)) + stat_count (inter_token (snapshot f r))) :: u64)
      = stat_count (ttft (snapshot f r)) + stat_count (inter_token (snapshot f r))" using assms(3) by (intro unat_u64_of_nat) simp
  then show ?thesis using f c flight le(1) sum by (simp add: finish_run_def Let_def)
qed

lemma demo_bench: "\<exists>b. bench_run 1 0 b"
proof -
  have tel: "tel_run [] initial_TelemetryRecorder new_TelemetryFlusher" by (rule tel_run.init)
  obtain b where b: "bench_setup initial_TelemetryRecorder = Inr b"
    using reset_for_testing_result [OF tel_inv_initial(1)] by (auto simp: bench_setup_def new_PagedKVCacheAllocator_def)
  then have q: "ring_inv (bench_queue b)" "bench_next_id b = 1"
    using bench_setup_ok [OF tel b] by (auto simp: bench_ok_def engine_inv_def ingress_inv_def bench_setup_def split: sum.splits)
  let ?shape = "\<lparr>shape_prompt_len = 10, shape_max_new_tokens = 1, is_long = False\<rparr>"
  obtain ok q' where "try_push (bench_queue b) (new_Sequence 0 1 (replicate 10 1) 1) = Some (ok, q')"
    using ring.push_result [OF q(1)] by metis
  then obtain b' where "arrive 0 ?shape b = Inr b'" using q(2) by (cases ok) (simp_all add: arrive_def)
  from bench_run.arrival [OF bench_run.begins [OF tel b] _ this] q(2) show ?thesis by auto
qed

theorem bench_summary_adds_up_witness:
  "\<exists>b s. bench_run 1 0 b \<and> finish_run 0 2 b = Inr s \<and> unat (sum_admitted s) + unat (sum_rejected_backpressure s) = 1
     \<and> unat (sum_completed s) + unat (still_in_flight_at_cutoff s) = unat (sum_admitted s)"
proof -
  obtain b where b: "bench_run 1 0 b" using demo_bench by blast
  from bench_summary_adds_up [OF b, of 0 2] b show ?thesis by auto
qed

section \<open>The report\<close>

definition int_text :: "int \<Rightarrow> string" where
  "int_text i = (if i < 0 then ''-'' @ dec_digits (nat (- i)) else dec_digits (nat i))"

fun join_csv :: "string list \<Rightarrow> string" where
  "join_csv [] = []"
| "join_csv [x] = x"
| "join_csv (x # y # xs) = x @ '','' @ join_csv (y # xs)"

definition csv_columns :: "string list" where
  "csv_columns = [''run_index'', ''admitted'', ''rejected_backpressure'', ''completed'', ''still_in_flight_at_cutoff'',
     ''tokens_generated'', ''wall_seconds'', ''requests_per_second'', ''tokens_per_second'',
     ''ttft_p50_ns'', ''ttft_p95_ns'', ''ttft_p99_ns'', ''ttft_mean_ns'', ''ttft_count'',
     ''inter_token_p50_ns'', ''inter_token_p95_ns'', ''inter_token_p99_ns'', ''inter_token_mean_ns'', ''inter_token_count'',
     ''dropped_telemetry_samples'']"

definition write_csv_header :: string where
  "write_csv_header = join_csv csv_columns @ [CHR 0x0A]"

text \<open>\<open>dbl\<close> is how the stream prints a double.\<close>

definition csv_fields :: "(rat \<Rightarrow> string) \<Rightarrow> RunSummary \<Rightarrow> string list" where
  "csv_fields dbl s =
     (let word = (\<lambda>v. dec_digits (unat (v :: u64)))
      in [int_text (run_index s), word (sum_admitted s), word (sum_rejected_backpressure s),
          word (sum_completed s), word (still_in_flight_at_cutoff s), word (tokens_generated s),
          dbl (wall_seconds s), dbl (requests_per_second s), dbl (tokens_per_second s),
          dbl (p50_ns (sum_ttft s)), dbl (p95_ns (sum_ttft s)), dbl (p99_ns (sum_ttft s)), dbl (mean_ns (sum_ttft s)),
          dec_digits (stat_count (sum_ttft s)), dbl (p50_ns (sum_inter_token s)), dbl (p95_ns (sum_inter_token s)),
          dbl (p99_ns (sum_inter_token s)), dbl (mean_ns (sum_inter_token s)), dec_digits (stat_count (sum_inter_token s)),
          word (dropped_telemetry_samples s)])"

definition write_csv_row :: "(rat \<Rightarrow> string) \<Rightarrow> RunSummary \<Rightarrow> string" where
  "write_csv_row dbl s = join_csv (csv_fields dbl s) @ [CHR 0x0A]"

text \<open>The seeds of the runs of \<open>main\<close>.\<close>

definition run_seeds :: "Args \<Rightarrow> u64 list" where
  "run_seeds args = map (\<lambda>i. seed_base args + word_of_nat i) [0..<nat (repeat args)]"

lemma commas_join:
  "xs \<noteq> [] \<Longrightarrow> \<forall>x \<in> set xs. CHR '','' \<notin> set x \<Longrightarrow> count_list (join_csv xs) CHR '','' = length xs - 1"
proof (induction xs rule: join_csv.induct)
  case (3 x y xs)
  have "count_list x CHR '','' = 0" using "3.prems"(2) by (simp add: count_list_0_iff)
  with 3 show ?case by simp
qed (simp_all add: count_list_0_iff)

lemma dec_digits_no_comma: "CHR '','' \<notin> set (dec_digits n)"
proof
  assume "CHR '','' \<in> set (dec_digits n)"
  then have "is_digit CHR '',''" using dec_digits_facts [of n] by (simp add: list_all_iff)
  then show False by (simp add: is_digit_def)
qed

text \<open>A row has as many fields as the header has columns.\<close>

lemma csv_row_matches_header:
  assumes "\<forall>x. CHR '','' \<notin> set (dbl x)"
  shows "count_list (write_csv_row dbl s) CHR '','' = count_list write_csv_header CHR '',''"
proof -
  have "\<forall>x \<in> set (csv_fields dbl s). CHR '','' \<notin> set x"
    using assms by (simp add: csv_fields_def Let_def int_text_def dec_digits_no_comma)
  then have "count_list (join_csv (csv_fields dbl s)) CHR '','' = 19" by (subst commas_join) (simp_all add: csv_fields_def Let_def)
  then show ?thesis by (simp add: write_csv_row_def write_csv_header_def csv_columns_def)
qed

text \<open>A numeric flag at the end, without a value, throws; \<open>--output\<close> takes the empty string.\<close>

lemma parse_args_missing_value:
  "parse_args stod [prog, ''--repeat''] = Inl (InvalidArgument ''stoi'')"
  "parse_args stod [prog, ''--seed-base''] = Inl (InvalidArgument ''stoull'')"
  "parse_args stod [prog, ''--output''] = Inr (Inr (default_Args\<lparr>output_prefix := ''''\<rparr>))"
  by (simp_all add: parse_args_def set_flag_def stoi_def stoull_def scan_integer_def)

end
