(* ===== verification/Engine_Threads.thy ===== *)
theory Engine_Threads
  imports Engine
begin

text \<open>
  The engine at the granularity of single accesses to shared state (\<open>src/main.cpp\<close>, \<open>src/api/ingress_server.cpp\<close>):
  the loop of \<open>main\<close> has a program counter, so that handlers, the flusher and the signal handler may run between two
  pops of the drain, between the drain and the iteration, and between two updates of the status table. \<open>Engine\<close> takes
  a turn of the loop as one step; here nothing is assumed about where the threads switch. \<open>Service\<close> is the
  specification: what a client may rely on, without queue, scheduler or threads.
\<close>

section \<open>Model\<close>

text \<open>Where the loop is: in the drain with a value of \<open>drained\<close>, before \<open>scheduler.step()\<close>, or in the loop over
  \<open>results\<close> with what is left of it; with nothing left, the next thing it does is the test of \<open>g_shutdown\<close>, where
  it also starts.\<close>

datatype loop_pc = Draining nat | Iterating | Publishing "StepResult list" | Stopped

text \<open>The last four fields are history: the accepted requests, the ids finished by the scheduler, the ids whose
  FINISHED was written to the table, and those whose handler wrote PREFILL after that.\<close>

record Threads =
  engine :: Engine
  main_pc :: loop_pc
  g_shutdown :: bool
  taken :: "(u64 \<times> u32 list \<times> u32) list"
  finished :: "u64 set"
  announced :: "u64 set"
  overtaken :: "u64 set"

definition threads_init :: "Threads \<Rightarrow> bool" where
  "threads_init t \<longleftrightarrow> initial_Engine = Inr (engine t) \<and> main_pc t = Publishing [] \<and> \<not> g_shutdown t
     \<and> taken t = [] \<and> finished t = {} \<and> announced t = {} \<and> overtaken t = {}"

text \<open>The thread of \<open>main\<close>.\<close>

inductive main_step :: "Threads \<Rightarrow> Threads \<Rightarrow> bool" where
  enter: "main_pc t = Publishing [] \<Longrightarrow> \<not> g_shutdown t \<Longrightarrow> main_step t (t\<lparr>main_pc := Draining 0\<rparr>)"
| leave: "main_pc t = Publishing [] \<Longrightarrow> g_shutdown t \<Longrightarrow> main_step t (t\<lparr>main_pc := Stopped\<rparr>)"
| popped: "main_pc t = Draining drained \<Longrightarrow> drained < 256 \<Longrightarrow> try_pop (queue (server (engine t))) = Some (Some s, q) \<Longrightarrow>
    main_step t (t\<lparr>main_pc := Draining (drained + 1),
      engine := (engine t)\<lparr>server := (server (engine t))\<lparr>queue := q\<rparr>, scheduler := admit (scheduler (engine t)) s\<rparr>\<rparr>)"
| empty: "main_pc t = Draining drained \<Longrightarrow> drained < 256 \<Longrightarrow> try_pop (queue (server (engine t))) = Some (None, q) \<Longrightarrow>
    main_step t (t\<lparr>main_pc := Iterating, engine := (engine t)\<lparr>server := (server (engine t))\<lparr>queue := q\<rparr>\<rparr>\<rparr>)"
| enough: "main_pc t = Draining drained \<Longrightarrow> \<not> drained < 256 \<Longrightarrow> main_step t (t\<lparr>main_pc := Iterating\<rparr>)"
| iterated: "main_pc t = Iterating \<Longrightarrow> step clk (scheduler (engine t)) = Inr (results, sch) \<Longrightarrow>
    main_step t (t\<lparr>main_pc := Publishing results, engine := (engine t)\<lparr>scheduler := sch\<rparr>,
      finished := finished t \<union> finished_ids results\<rparr>)"
| published: "main_pc t = Publishing (r # results) \<Longrightarrow>
    main_step t (t\<lparr>main_pc := Publishing results,
      engine := (engine t)\<lparr>server := (server (engine t))\<lparr>status_table :=
        upsert (status_table (server (engine t))) (result_id r) (phase_after r) 0\<rparr>\<rparr>,
      announced := (if phase_after r = FINISHED then insert (result_id r) (announced t) else announced t)\<rparr>)"

text \<open>The other threads: handlers of \<open>/generate\<close> at their three accesses, the flusher, the signal handler.\<close>

inductive other_step :: "Threads \<Rightarrow> Threads \<Rightarrow> bool" where
  fetches: "generate_fetch (server (engine t)) = (i, srv) \<Longrightarrow> i \<noteq> - 1 \<Longrightarrow> length prompt \<le> 2 ^ 61 \<Longrightarrow>
    other_step t (t\<lparr>engine := (engine t)\<lparr>server := srv, fetched := fetched (engine t) @ [new_Sequence now i prompt mx]\<rparr>\<rparr>)"
| pushes: "fetched (engine t) = xs @ s # ys \<Longrightarrow> generate_push (server (engine t)) s = Some (True, srv) \<Longrightarrow>
    other_step t (t\<lparr>engine := (engine t)\<lparr>server := srv, fetched := xs @ ys, pushed := pushed (engine t) @ [sid s]\<rparr>,
      taken := taken t @ [ticket s]\<rparr>)"
| refuses: "fetched (engine t) = xs @ s # ys \<Longrightarrow> generate_push (server (engine t)) s = Some (False, srv) \<Longrightarrow>
    other_step t (t\<lparr>engine := (engine t)\<lparr>server := srv, fetched := xs @ ys\<rparr>\<rparr>)"
| replies: "pushed (engine t) = xs @ i # ys \<Longrightarrow> generate_finish (server (engine t)) i = (res, srv) \<Longrightarrow>
    other_step t (t\<lparr>engine := (engine t)\<lparr>server := srv, pushed := xs @ ys\<rparr>,
      overtaken := (if i \<in> announced t then insert i (overtaken t) else overtaken t)\<rparr>)"
| flushes: "drain_step f (recorder (scheduler (engine t))) = Some (f', r) \<Longrightarrow>
    other_step t (t\<lparr>engine := (engine t)\<lparr>scheduler := (scheduler (engine t))\<lparr>recorder := r\<rparr>\<rparr>\<rparr>)"
| signalled: "other_step t (t\<lparr>g_shutdown := handle_sigint (g_shutdown t)\<rparr>)"

definition threads_step :: "Threads \<Rightarrow> Threads \<Rightarrow> bool" where
  "threads_step t t' \<longleftrightarrow> main_step t t' \<or> other_step t t'"

section \<open>Specification\<close>

text \<open>A service accepts requests under fresh ids, completes accepted requests once each, and answers about accepted
  requests, FINISHED only when they are completed.\<close>

record Service =
  requests :: "(u64 \<times> u32 list \<times> u32) list"
  complete :: "u64 set"
  answers :: "u64 \<rightharpoonup> SequencePhase"

definition service_init :: "Service \<Rightarrow> bool" where
  "service_init a \<longleftrightarrow> a = \<lparr>requests = [], complete = {}, answers = Map.empty\<rparr>"

inductive service_step :: "Service \<Rightarrow> Service \<Rightarrow> bool" where
  accepts: "fst tk \<notin> fst ` set (requests a) \<Longrightarrow> service_step a (a\<lparr>requests := requests a @ [tk]\<rparr>)"
| completes: "ids \<subseteq> fst ` set (requests a) - complete a \<Longrightarrow> service_step a (a\<lparr>complete := complete a \<union> ids\<rparr>)"
| answers: "i \<in> fst ` set (requests a) \<Longrightarrow> (p = FINISHED \<longrightarrow> i \<in> complete a) \<Longrightarrow>
    service_step a (a\<lparr>answers := (answers a)(i \<mapsto> p)\<rparr>)"

definition service_of :: "Threads \<Rightarrow> Service" where
  "service_of t = \<lparr>requests = taken t, complete = finished t,
     answers = (\<lambda>i. map_option status_phase (get (status_table (server (engine t))) i))\<rparr>"

section \<open>Invariant\<close>

text \<open>The results still to be published.\<close>

fun pending :: "loop_pc \<Rightarrow> StepResult list" where
  "pending (Publishing results) = results"
| "pending _ = []"

text \<open>Nothing follows about a sequence that is reported FINISHED.\<close>

fun finish_last :: "StepResult list \<Rightarrow> bool" where
  "finish_last [] \<longleftrightarrow> True"
| "finish_last (r # res) \<longleftrightarrow> (phase_after r = FINISHED \<longrightarrow> (\<forall>r' \<in> set res. result_id r' \<noteq> result_id r)) \<and> finish_last res"

lemma finish_last_distinct:
  "distinct (map result_id xs) \<Longrightarrow> finished_ids ys = {} \<Longrightarrow> result_id ` set ys \<inter> finished_ids xs = {} \<Longrightarrow> finish_last (xs @ ys)"
proof (induction xs)
  case Nil
  then show ?case by (induction ys) (auto split: if_splits)
qed (auto split: if_splits simp: image_iff)

lemma step_finish_last:
  assumes "sched_inv st" "step clk st = Inr (res, st')"
  shows "finish_last res"
proof (rule step_results [OF assms])
  fix decs prefs
  assume r: "res = decs @ prefs" "subseq (map result_id decs) (map sid (active st))"
    "result_id ` set prefs \<subseteq> sid ` set (active st @ waiting st) - finished_ids decs" "finished_ids prefs = {}"
  have "distinct (map sid (active st))" using assms(1) by (simp add: sched_inv_def loop_inv_def)
  from subseq_distinct [OF r(2) this] r(3,4) show ?thesis unfolding r(1) by (intro finish_last_distinct) auto
qed

definition pending_ok :: "Threads \<Rightarrow> bool" where
  "pending_ok t \<longleftrightarrow> result_id ` set (pending (main_pc t)) \<subseteq> fst ` set (taken t) - announced t
     \<and> finish_last (pending (main_pc t)) \<and> finished t = announced t \<union> finished_ids (pending (main_pc t))"

definition answers_ok :: "Threads \<Rightarrow> bool" where
  "answers_ok t \<longleftrightarrow> overtaken t \<subseteq> announced t - set (pushed (engine t)) \<and> distinct (pushed (engine t))
     \<and> set (pushed (engine t)) \<subseteq> fst ` set (taken t)
     \<and> (\<forall>i \<in> announced t. get (status_table (server (engine t))) i
          = Some \<lparr>status_phase = (if i \<in> overtaken t then PREFILL else FINISHED), generated_count = 0\<rparr>)"

definition threads_inv :: "Threads \<Rightarrow> bool" where
  "threads_inv t \<longleftrightarrow> engine_inv (taken t) (finished t) (engine t) \<and> finished t \<subseteq> fst ` set (taken t)
     \<and> pending_ok t \<and> answers_ok t"

lemma threads_inv_init: "threads_init t \<Longrightarrow> threads_inv t"
proof -
  assume t: "threads_init t"
  then have boot: "initial_Engine = Inr (engine t)" by (simp add: threads_init_def)
  have "pushed e = []" if "initial_Engine = Inr e" for e using that by (auto simp: initial_Engine_def split: sum.splits)
  then have "engine_inv [] {} (engine t)" "pushed (engine t) = []" using engine_inv_boot boot by blast+
  then show ?thesis using t by (simp add: threads_inv_def threads_init_def pending_ok_def answers_ok_def)
qed

text \<open>Steps that neither publish nor reply.\<close>

lemma threads_inv_frame:
  assumes "threads_inv t" "engine_inv (taken t) (finished t) (engine t')" "pushed (engine t') = pushed (engine t)"
    "status_table (server (engine t')) = status_table (server (engine t))" "pending (main_pc t') = pending (main_pc t)"
    "taken t' = taken t" "finished t' = finished t" "announced t' = announced t" "overtaken t' = overtaken t"
  shows "threads_inv t'"
proof -
  have "pending_ok t' \<longleftrightarrow> pending_ok t" "answers_ok t' \<longleftrightarrow> answers_ok t"
    by (simp_all only: pending_ok_def answers_ok_def assms(3-))
  then show ?thesis using assms(1,2) by (simp add: threads_inv_def assms(6,7))
qed

lemma threads_engine_inv: "threads_inv t \<Longrightarrow> engine_inv (taken t) (finished t) (engine t)"
  by (simp add: threads_inv_def)

lemma threads_inv_pc: "threads_inv t \<Longrightarrow> pending pc = pending (main_pc t) \<Longrightarrow> threads_inv (t\<lparr>main_pc := pc\<rparr>)"
  by (rule threads_inv_frame [of t]) (simp_all add: threads_engine_inv)

lemma engine_inv_pop:
  assumes inv: "engine_inv acc fin e" and p: "try_pop (queue (server e)) = Some (r, q)"
  shows "engine_inv acc fin (e\<lparr>server := (server e)\<lparr>queue := q\<rparr>,
    scheduler := (case r of None \<Rightarrow> scheduler e | Some s \<Rightarrow> admit (scheduler e) s)\<rparr>)"
proof -
  have q: "ring_inv (queue (server e))" using inv by (simp add: engine_inv_def ingress_inv_def)
  show ?thesis
  proof (cases "ring_list (queue (server e))")
    case Nil
    then have "r = None" "q = queue (server e)" using ring.pop_empty [OF q] p by auto
    then show ?thesis using engine_inv_frame [OF inv] by simp
  next
    case (Cons s rest)
    then have "r = Some s" "ring_inv q" "ring_list q = rest" "capacity q = capacity (queue (server e))"
      using ring.pop_item [OF q Cons] p by auto
    then show ?thesis using engine_inv_drain [OF inv, of q 1] Cons by (simp add: admit_def)
  qed
qed

lemma fetched_fresh:
  assumes "engine_inv acc fin e" "fetched e = xs @ s # ys"
  shows "sid s \<notin> fst ` set acc"
  using assms by (auto simp: engine_inv_def engine_ids_ok_def)

lemma in_scheduler_unfinished:
  assumes "engine_inv acc fin e"
  shows "sid ` set (active (scheduler e)) \<subseteq> fst ` set acc - fin"
    "sid ` set (active (scheduler e) @ waiting (scheduler e)) \<subseteq> fst ` set acc - fin"
proof -
  have "sid ` set (in_engine e) = fst ` set (filter (\<lambda>t. fst t \<notin> fin) acc)"
    using assms unfolding sid_tickets by (simp add: engine_inv_def)
  then have "sid ` set (in_engine e) \<subseteq> fst ` set acc - fin" by auto
  then show "sid ` set (active (scheduler e)) \<subseteq> fst ` set acc - fin"
    "sid ` set (active (scheduler e) @ waiting (scheduler e)) \<subseteq> fst ` set acc - fin" by auto
qed

lemma threads_inv_main:
  assumes "main_step t t'" "threads_inv t"
  shows "threads_inv t'"
  using assms
proof (induction rule: main_step.induct)
  case (popped t drained s q)
  from engine_inv_pop [OF threads_engine_inv [OF popped.prems] popped.hyps(3)] popped.hyps(1) show ?case
    by (intro threads_inv_frame [OF popped.prems]) simp_all
next
  case (empty t drained q)
  from engine_inv_pop [OF threads_engine_inv [OF empty.prems] empty.hyps(3)] empty.hyps(1) show ?case
    by (intro threads_inv_frame [OF empty.prems]) simp_all
next
  case (iterated t clk results sch)
  note inv = threads_engine_inv [OF iterated.prems]
  have f: "finished t = announced t" using iterated.hyps(1) iterated.prems by (simp add: threads_inv_def pending_ok_def)
  have si: "sched_inv (scheduler (engine t))" using inv by (simp add: engine_inv_def)
  note i = engine_inv_iterate [OF inv iterated.hyps(2)]
  have "result_id ` set results \<subseteq> fst ` set (taken t) - announced t"
    using step_about [OF si iterated.hyps(2)] in_scheduler_unfinished(2) [OF inv] f unfolding about_def by blast
  then show ?case using i step_finish_last [OF si iterated.hyps(2)] iterated.prems f
    by (simp add: threads_inv_def pending_ok_def answers_ok_def)
next
  case (published t r results)
  then have inv: "engine_inv (taken t) (finished t) (engine t)" by (simp add: threads_inv_def)
  then show ?case using published
    by (auto simp: threads_inv_def pending_ok_def answers_ok_def get_def upsert_def elim!: engine_inv_frame split: if_splits)
qed (auto intro: threads_inv_pc)

lemma threads_inv_other:
  assumes "other_step t t'" "threads_inv t"
  shows "threads_inv t'"
  using assms
proof (induction rule: other_step.induct)
  case (fetches t i srv prompt now mx)
  note inv = engine_inv_fetch [OF threads_engine_inv [OF fetches.prems] fetches.hyps, of now mx]
  have "status_table srv = status_table (server (engine t))" using fetches.hyps(1) by (auto simp: generate_fetch_def)
  with inv show ?case by (intro threads_inv_frame [OF fetches.prems]) simp_all
next
  case (pushes t xs s ys srv)
  note inv = threads_engine_inv [OF pushes.prems]
  have fin: "finished t \<subseteq> fst ` set (taken t)" using pushes.prems by (simp add: threads_inv_def)
  note i = engine_inv_push [OF inv pushes.hyps fin] and new = fetched_fresh [OF inv pushes.hyps(1)]
  have "status_table srv = status_table (server (engine t))" using pushes.hyps(2) by (auto simp: generate_push_def split: option.splits)
  moreover have "fst (ticket s) = sid s" by (simp add: ticket_def)
  moreover have "announced t \<subseteq> finished t" using pushes.prems by (auto simp: threads_inv_def pending_ok_def)
  ultimately show ?case using pushes.prems i new fin
    by (auto simp: threads_inv_def pending_ok_def answers_ok_def)
next
  case (refuses t xs s ys srv)
  note inv = engine_inv_refuse [OF threads_engine_inv [OF refuses.prems] refuses.hyps]
  have "status_table srv = status_table (server (engine t))" using refuses.hyps(2) by (auto simp: generate_push_def split: option.splits)
  with inv show ?case by (intro threads_inv_frame [OF refuses.prems]) simp_all
next
  case (replies t xs i ys res srv)
  have srv: "srv = (server (engine t))\<lparr>status_table := upsert (status_table (server (engine t))) i PREFILL 0\<rparr>"
    using replies.hyps(2) by (simp add: generate_finish_def)
  have "engine_inv (taken t) (finished t) ((engine t)\<lparr>server := srv, pushed := xs @ ys\<rparr>)"
    by (rule engine_inv_frame [OF threads_engine_inv [OF replies.prems]]) (simp_all add: srv)
  then show ?case using replies.prems replies.hyps(1)
    by (auto simp: threads_inv_def pending_ok_def answers_ok_def srv get_def upsert_def)
next
  case (flushes f t f' r)
  note inv = threads_engine_inv [OF flushes.prems]
  then have tel: "tel_inv (recorder (scheduler (engine t)))" by (simp add: engine_inv_def sched_inv_def loop_inv_def)
  have "tel_inv r" by (rule drain_step_cases [OF tel, of f]) (use flushes.hyps tel in auto)
  from engine_inv_recorder [OF inv this] show ?case by (intro threads_inv_frame [OF flushes.prems]) simp_all
next
  case (signalled t)
  then show ?case by (intro threads_inv_frame [OF signalled]) (simp_all add: threads_engine_inv)
qed

lemma threads_inv_step: "threads_step t t' \<Longrightarrow> threads_inv t \<Longrightarrow> threads_inv t'"
  unfolding threads_step_def using threads_inv_main threads_inv_other by blast

section \<open>Refinement\<close>

lemma service_of_same:
  "taken t' = taken t \<Longrightarrow> finished t' = finished t \<Longrightarrow> status_table (server (engine t')) = status_table (server (engine t)) \<Longrightarrow>
     service_step\<^sup>*\<^sup>* (service_of t) (service_of t')"
  by (simp add: service_of_def)

lemma service_of_upsert:
  assumes "taken t' = taken t" "finished t' = finished t"
    "status_table (server (engine t')) = upsert (status_table (server (engine t))) i p 0"
    "i \<in> fst ` set (taken t)" "p = FINISHED \<Longrightarrow> i \<in> finished t"
  shows "service_step\<^sup>*\<^sup>* (service_of t) (service_of t')"
proof -
  have "service_of t' = (service_of t)\<lparr>answers := (answers (service_of t))(i \<mapsto> p)\<rparr>"
    by (auto simp: service_of_def assms(1-3) get_def upsert_def)
  moreover have "service_step (service_of t) ((service_of t)\<lparr>answers := (answers (service_of t))(i \<mapsto> p)\<rparr>)"
    using assms(4,5) by (intro service_step.answers) (auto simp: service_of_def)
  ultimately show ?thesis by auto
qed

lemma main_step_refines:
  assumes "main_step t t'" "threads_inv t"
  shows "service_step\<^sup>*\<^sup>* (service_of t) (service_of t')"
  using assms
proof (induction rule: main_step.induct)
  case (iterated t clk results sch)
  note inv = threads_engine_inv [OF iterated.prems]
  have si: "sched_inv (scheduler (engine t))" using inv by (simp add: engine_inv_def)
  have "finished_ids results \<subseteq> fst ` set (taken t) - finished t"
    using finished_subset_active [OF si iterated.hyps(2)] in_scheduler_unfinished(1) [OF inv] by (rule order_trans)
  then have "service_step (service_of t) ((service_of t)\<lparr>complete := complete (service_of t) \<union> finished_ids results\<rparr>)"
    by (intro service_step.completes) (simp add: service_of_def)
  then show ?case by (auto simp: service_of_def)
next
  case (published t r results)
  then have "result_id r \<in> fst ` set (taken t)" "phase_after r = FINISHED \<Longrightarrow> result_id r \<in> finished t"
    by (auto simp: threads_inv_def pending_ok_def)
  then show ?case by (intro service_of_upsert) simp_all
qed (auto intro: service_of_same)

lemma other_step_refines:
  assumes "other_step t t'" "threads_inv t"
  shows "service_step\<^sup>*\<^sup>* (service_of t) (service_of t')"
  using assms
proof (induction rule: other_step.induct)
  case (fetches t i srv prompt now mx)
  then show ?case by (intro service_of_same) (auto simp: generate_fetch_def)
next
  case (pushes t xs s ys srv)
  have new: "fst (ticket s) \<notin> fst ` set (requests (service_of t))"
    using fetched_fresh [OF threads_engine_inv [OF pushes.prems] pushes.hyps(1)] by (simp add: service_of_def ticket_def)
  have "status_table srv = status_table (server (engine t))" using pushes.hyps(2) by (auto simp: generate_push_def split: option.splits)
  with service_step.accepts [OF new] show ?case by (auto simp: service_of_def)
next
  case (refuses t xs s ys srv)
  then show ?case by (intro service_of_same) (auto simp: generate_push_def split: option.splits)
next
  case (replies t xs i ys res srv)
  then have "i \<in> fst ` set (taken t)" by (auto simp: threads_inv_def answers_ok_def)
  then show ?case using replies.hyps(2) by (intro service_of_upsert [where i = i and p = PREFILL]) (auto simp: generate_finish_def)
qed (auto intro: service_of_same)

interpretation engine_refinement: forward_simulation threads_init threads_step service_init service_step
  "\<lambda>t a. threads_inv t \<and> a = service_of t"
proof unfold_locales
  fix t assume t: "threads_init t"
  have "status_table (server e) = Map.empty" if "initial_Engine = Inr e" for e
    using that by (auto simp: initial_Engine_def initial_IngressServer_def new_IngressServer_def split: sum.splits)
  then have "service_init (service_of t)" using t by (auto simp: threads_init_def service_init_def service_of_def get_def)
  then show "\<exists>a. service_init a \<and> threads_inv t \<and> a = service_of t" using threads_inv_init [OF t] by blast
next
  fix t a t' assume "threads_inv t \<and> a = service_of t" "threads_step t t'"
  then show "\<exists>a'. service_step\<^sup>*\<^sup>* a a' \<and> threads_inv t' \<and> a' = service_of t'"
    using threads_inv_step main_step_refines other_step_refines unfolding threads_step_def by blast
qed

lemma threads_reachable_inv: "threads_init t0 \<Longrightarrow> threads_step\<^sup>*\<^sup>* t0 t \<Longrightarrow> threads_inv t"
  using engine_refinement.reach_match by blast


text \<open>The thread of \<open>main\<close> always has a next step until it stops: no iteration throws and no pop spins.\<close>

lemma main_progress:
  assumes "threads_inv t" "main_pc t \<noteq> Stopped"
  shows "\<exists>t'. main_step t t'"
proof (cases "main_pc t")
  case (Draining drained)
  show ?thesis
  proof (cases "drained < 256")
    case True
    have q: "ring_inv (queue (server (engine t)))" using threads_engine_inv [OF assms(1)] by (simp add: engine_inv_def ingress_inv_def)
    obtain r q' where "try_pop (queue (server (engine t))) = Some (r, q')"
      using ring.pop_empty [OF q] ring.pop_item [OF q] by (cases "ring_list (queue (server (engine t)))") auto
    then show ?thesis using main_step.popped [OF Draining True] main_step.empty [OF Draining True] by (cases r) blast+
  qed (use main_step.enough [OF Draining] in blast)
next
  case Iterating
  have "sched_inv (scheduler (engine t))" using threads_engine_inv [OF assms(1)] by (simp add: engine_inv_def)
  then show ?thesis using step_inv main_step.iterated [OF Iterating] by blast
next
  case (Publishing results)
  then show ?thesis using main_step.enter [of t] main_step.leave [of t] main_step.published [of t] by (cases results) blast+
qed (use assms(2) in simp)

section \<open>A turn without interference\<close>

text \<open>When no other thread runs in between, the steps of the loop make a turn of \<open>Engine\<close>.\<close>

lemma drain_main:
  "drain_queue n (queue (server (engine t))) (k, scheduler (engine t)) = Some ((k', sch), q) \<Longrightarrow> n + k = 256 \<Longrightarrow> main_pc t = Draining k \<Longrightarrow>
     main_step\<^sup>*\<^sup>* t (t\<lparr>main_pc := Iterating, engine := (engine t)\<lparr>server := (server (engine t))\<lparr>queue := q\<rparr>, scheduler := sch\<rparr>\<rparr>)"
proof (induction n arbitrary: k t)
  case 0
  then show ?case using main_step.enough [of t k] by auto
next
  case (Suc n)
  have lt: "k < 256" using Suc.prems(2) by simp
  obtain r q1 where p: "try_pop (queue (server (engine t))) = Some (r, q1)" using Suc.prems(1) by (auto split: option.splits)
  show ?case
  proof (cases r)
    case None
    then show ?thesis using main_step.empty [OF Suc.prems(3) lt] p Suc.prems(1) by auto
  next
    case (Some s)
    let ?t = "t\<lparr>main_pc := Draining (k + 1), engine := (engine t)\<lparr>server := (server (engine t))\<lparr>queue := q1\<rparr>, scheduler := admit (scheduler (engine t)) s\<rparr>\<rparr>"
    have "main_step t ?t" using main_step.popped [OF Suc.prems(3) lt] p Some by simp
    moreover have "main_step\<^sup>*\<^sup>* ?t (?t\<lparr>main_pc := Iterating, engine := (engine ?t)\<lparr>server := (server (engine ?t))\<lparr>queue := q\<rparr>, scheduler := sch\<rparr>\<rparr>)"
      by (rule Suc.IH) (use Suc.prems p Some in simp_all)
    ultimately show ?thesis by (simp add: converse_rtranclp_into_rtranclp)
  qed
qed

lemma publish_main:
  "main_pc t = Publishing results \<Longrightarrow> \<exists>t'. main_step\<^sup>*\<^sup>* t t' \<and> main_pc t' = Publishing []
     \<and> engine t' = (engine t)\<lparr>server := (server (engine t))\<lparr>status_table := publish (status_table (server (engine t))) results\<rparr>\<rparr>
     \<and> announced t' = announced t \<union> finished_ids results \<and> taken t' = taken t \<and> finished t' = finished t
     \<and> overtaken t' = overtaken t \<and> g_shutdown t' = g_shutdown t"
proof (induction results arbitrary: t)
  case Nil
  then show ?case by (intro exI [of _ t]) (simp add: publish_def)
next
  case (Cons r results)
  let ?e = "engine t"
  let ?t = "t\<lparr>main_pc := Publishing results,
      engine := ?e\<lparr>server := (server ?e)\<lparr>status_table := upsert (status_table (server ?e)) (result_id r) (phase_after r) 0\<rparr>\<rparr>,
      announced := (if phase_after r = FINISHED then insert (result_id r) (announced t) else announced t)\<rparr>"
  have 1: "main_step t ?t" by (rule main_step.published [OF Cons.prems])
  obtain t' where t': "main_step\<^sup>*\<^sup>* ?t t'" "main_pc t' = Publishing []"
    "engine t' = (engine ?t)\<lparr>server := (server (engine ?t))\<lparr>status_table := publish (status_table (server (engine ?t))) results\<rparr>\<rparr>"
    "announced t' = announced ?t \<union> finished_ids results" "taken t' = taken ?t" "finished t' = finished ?t"
    "overtaken t' = overtaken ?t" "g_shutdown t' = g_shutdown ?t"
    using Cons.IH [of ?t] by auto
  have "main_step\<^sup>*\<^sup>* t t'" by (rule converse_rtranclp_into_rtranclp [OF 1 t'(1)])
  then show ?case using t'(2-) by (intro exI [of _ t']) (simp add: publish_def)
qed

lemma turn_main:
  assumes "tick clk (engine t) = Inr (idle, res, e)" "main_pc t = Publishing []" "\<not> g_shutdown t"
  shows "\<exists>t'. main_step\<^sup>*\<^sup>* t t' \<and> main_pc t' = Publishing [] \<and> engine t' = e \<and> announced t' = announced t \<union> finished_ids res
     \<and> finished t' = finished t \<union> finished_ids res \<and> taken t' = taken t \<and> overtaken t' = overtaken t \<and> \<not> g_shutdown t'"
proof -
  let ?e = "engine t"
  obtain k sch q sch' where d: "drain_queue 256 (queue (server ?e)) (0, scheduler ?e) = Some ((k, sch), q)" "step clk sch = Inr (res, sch')"
    "e = ?e\<lparr>server := (server ?e)\<lparr>queue := q, status_table := publish (status_table (server ?e)) res\<rparr>, scheduler := sch'\<rparr>"
    using assms(1) by (auto simp: tick_def of_spin_def split: option.splits sum.splits prod.splits)
  let ?t1 = "t\<lparr>main_pc := Draining 0\<rparr>"
  let ?t2 = "t\<lparr>main_pc := Iterating, engine := ?e\<lparr>server := (server ?e)\<lparr>queue := q\<rparr>, scheduler := sch\<rparr>\<rparr>"
  let ?t3 = "?t2\<lparr>main_pc := Publishing res, engine := (engine ?t2)\<lparr>scheduler := sch'\<rparr>, finished := finished ?t2 \<union> finished_ids res\<rparr>"
  have 1: "main_step t ?t1" by (rule main_step.enter [OF assms(2,3)])
  have 2: "main_step\<^sup>*\<^sup>* ?t1 ?t2" using drain_main [of 256 ?t1 0 k sch q] d(1) by simp
  have 3: "main_step ?t2 ?t3" by (rule main_step.iterated) (use d(2) in simp_all)
  obtain t' where t': "main_step\<^sup>*\<^sup>* ?t3 t'" "main_pc t' = Publishing []"
    "engine t' = (engine ?t3)\<lparr>server := (server (engine ?t3))\<lparr>status_table := publish (status_table (server (engine ?t3))) res\<rparr>\<rparr>"
    "announced t' = announced t \<union> finished_ids res" "taken t' = taken t" "finished t' = finished t \<union> finished_ids res"
    "overtaken t' = overtaken t" "g_shutdown t' = g_shutdown t"
    using publish_main [of ?t3 res] by auto
  have "main_step\<^sup>*\<^sup>* t t'"
    by (rule converse_rtranclp_into_rtranclp [OF 1 rtranclp_trans [OF 2 converse_rtranclp_into_rtranclp [OF 3 t'(1)]]])
  moreover have "engine t' = e" by (rule Engine.equality) (simp_all add: t'(3) d(3))
  ultimately show ?thesis using t'(2,4-) assms(3) by blast
qed

text \<open>A request whose FINISHED is written and whose handler has replied is not touched again.\<close>

lemma answered_stays:
  assumes "threads_step t t'" "threads_inv t" "i \<in> announced t" "i \<notin> set (pushed (engine t))"
  shows "i \<in> announced t' \<and> i \<notin> set (pushed (engine t')) \<and> (i \<in> overtaken t' \<longleftrightarrow> i \<in> overtaken t)"
proof -
  have taken: "i \<in> fst ` set (taken t)" using assms(2,3) by (auto simp: threads_inv_def pending_ok_def)
  note inv = threads_engine_inv [OF assms(2)]
  from assms(1) have "main_step t t' \<or> other_step t t'" by (simp add: threads_step_def)
  then show ?thesis
  proof
    assume "main_step t t'"
    then show ?thesis using assms(3,4) by (induction rule: main_step.induct) auto
  next
    assume "other_step t t'"
    then show ?thesis using assms(3,4) taken inv
    proof (induction rule: other_step.induct)
      case (pushes t xs s ys srv)
      have "i \<noteq> sid s" using fetched_fresh [OF pushes.prems(4) pushes.hyps(1)] pushes.prems(3) by blast
      then show ?case using pushes.prems(1,2) by simp
    qed auto
  qed
qed

lemma answered_stays_run:
  assumes "threads_step\<^sup>*\<^sup>* t t'" "threads_inv t" "i \<in> announced t" "i \<notin> set (pushed (engine t))"
  shows "i \<in> announced t' \<and> (i \<in> overtaken t' \<longleftrightarrow> i \<in> overtaken t)"
proof -
  have "threads_inv t' \<and> i \<in> announced t' \<and> i \<notin> set (pushed (engine t')) \<and> (i \<in> overtaken t' \<longleftrightarrow> i \<in> overtaken t)"
    using assms(1)
  proof (induction rule: rtranclp_induct)
    case (step u u')
    then show ?case using answered_stays [OF step.hyps(2)] threads_inv_step [OF step.hyps(2)] by blast
  qed (use assms in blast)
  then show ?thesis by blast
qed

text \<open>So every run of \<open>Engine\<close> is a run of the threads.\<close>

abbreviation runs_to :: "(u64 \<times> u32 list \<times> u32) list \<Rightarrow> u64 set \<Rightarrow> Engine \<Rightarrow> Threads \<Rightarrow> Threads \<Rightarrow> bool" where
  "runs_to acc fin e t0 t \<equiv> threads_init t0 \<and> threads_step\<^sup>*\<^sup>* t0 t \<and> main_pc t = Publishing [] \<and> \<not> g_shutdown t
     \<and> engine t = e \<and> taken t = acc \<and> finished t = fin \<and> announced t = fin"

lemma main_threads: "main_step\<^sup>*\<^sup>* t t' \<Longrightarrow> threads_step\<^sup>*\<^sup>* t t'"
  by (rule predicate2D [OF rtranclp_mono]) (auto simp: threads_step_def)

lemma runs_to_other:
  assumes "\<exists>t0 t. runs_to acc fin e t0 t"
    "\<And>t. engine t = e \<Longrightarrow> taken t = acc \<Longrightarrow> \<exists>t'. other_step t t' \<and> engine t' = e' \<and> taken t' = acc' \<and> main_pc t' = main_pc t
       \<and> g_shutdown t' = g_shutdown t \<and> finished t' = finished t \<and> announced t' = announced t"
  shows "\<exists>t0 t. runs_to acc' fin e' t0 t"
proof -
  obtain t0 t where t: "runs_to acc fin e t0 t" using assms(1) by blast
  then obtain t' where t': "other_step t t'" "engine t' = e'" "taken t' = acc'" "main_pc t' = main_pc t"
    "g_shutdown t' = g_shutdown t" "finished t' = finished t" "announced t' = announced t" using assms(2) [of t] by blast
  have "threads_step\<^sup>*\<^sup>* t0 t'" using t t'(1) by (auto simp: threads_step_def intro: rtranclp.rtrancl_into_rtrancl)
  then show ?thesis using t t'(2-) by auto
qed

lemma engine_run_threads: "engine_run acc fin e \<Longrightarrow> \<exists>t0 t. runs_to acc fin e t0 t"
proof (induction rule: engine_run.induct)
  case (booted e)
  let ?t = "\<lparr>engine = e, main_pc = Publishing [], g_shutdown = False, taken = [], finished = {}, announced = {}, overtaken = {}\<rparr>"
  show ?case using booted by (intro exI [of _ ?t]) (simp add: threads_init_def)
next
  case (fetches acc fin e i srv prompt now mx)
  show ?case
    by (rule runs_to_other [OF fetches.IH], intro exI conjI, rule other_step.fetches) (use fetches.hyps in simp_all)
next
  case (pushes acc fin e xs s ys srv)
  show ?case
    by (rule runs_to_other [OF pushes.IH], intro exI conjI, rule other_step.pushes) (use pushes.hyps in simp_all)
next
  case (refuses acc fin e xs s ys srv)
  show ?case
    by (rule runs_to_other [OF refuses.IH], intro exI conjI, rule other_step.refuses) (use refuses.hyps in simp_all)
next
  case (replies acc fin e xs i ys res srv)
  show ?case
    by (rule runs_to_other [OF replies.IH], intro exI conjI, rule other_step.replies) (use replies.hyps in simp_all)
next
  case (ticks acc fin e clk idle res e')
  then obtain t0 t where t: "runs_to acc fin e t0 t" by blast
  then obtain t' where t': "main_step\<^sup>*\<^sup>* t t'" "main_pc t' = Publishing []" "engine t' = e'" "announced t' = announced t \<union> finished_ids res"
    "finished t' = finished t \<union> finished_ids res" "taken t' = taken t" "\<not> g_shutdown t'"
    using turn_main [of clk t idle res e'] ticks.hyps(2) by auto
  have "threads_step\<^sup>*\<^sup>* t0 t'" using t main_threads [OF t'(1)] by (meson rtranclp_trans)
  then show ?case using t t'(2-) by (intro exI [of _ t0] exI [of _ t']) simp
next
  case (flushes acc fin e f f' r)
  show ?case
    by (rule runs_to_other [OF flushes.IH], intro exI conjI, rule other_step.flushes) (use flushes.hyps in simp_all)
qed

section \<open>Properties\<close>

text \<open>C2. The engine refines its specification under every interleaving of the loop of \<open>main\<close>, the handlers, the flusher
  and signals, at every access to shared state: what a client can observe (accepted requests, completed requests,
  answers of the status table) is a run of \<open>Service\<close>, so every request is accepted once and completed at most once
  and FINISHED is answered of completed requests only; the accepted requests that are not completed are, in order,
  those in the scheduler and the queue; and the loop can always take its next step until it stops.\<close>

theorem engine_refines_service:
  assumes "threads_init t0" "threads_step\<^sup>*\<^sup>* t0 t"
  shows "(\<exists>a. service_init a \<and> service_step\<^sup>*\<^sup>* a (service_of t))
    \<and> map ticket (active (scheduler (engine t)) @ waiting (scheduler (engine t)) @ ring_list (queue (server (engine t))))
        = filter (\<lambda>tk. fst tk \<notin> finished t) (taken t)
    \<and> (main_pc t \<noteq> Stopped \<longrightarrow> (\<exists>t'. main_step t t'))"
proof (intro conjI impI)
  show "\<exists>a. service_init a \<and> service_step\<^sup>*\<^sup>* a (service_of t)" using engine_refinement.reach_match [OF assms] by blast
  note inv = threads_reachable_inv [OF assms]
  show "map ticket (in_engine (engine t)) = filter (\<lambda>tk. fst tk \<notin> finished t) (taken t)"
    using threads_engine_inv [OF inv] by (simp add: engine_inv_def)
  show "\<exists>t'. main_step t t'" if "main_pc t \<noteq> Stopped" using main_progress [OF inv that] .
qed

text \<open>C6. When the status of a finished request is wrong, exactly: once the loop has written FINISHED for a request, the
  table says FINISHED for ever, unless its handler wrote PREFILL afterwards; then it says PREFILL for ever. No other
  interleaving spoils an answer.\<close>

theorem final_status_wrong_iff_overtaken:
  assumes "threads_init t0" "threads_step\<^sup>*\<^sup>* t0 t" "i \<in> announced t"
  shows "get (status_table (server (engine t))) i
      = Some \<lparr>status_phase = (if i \<in> overtaken t then PREFILL else FINISHED), generated_count = 0\<rparr>
    \<and> (\<forall>t'. threads_step\<^sup>*\<^sup>* t t' \<and> i \<notin> set (pushed (engine t)) \<longrightarrow>
         get (status_table (server (engine t'))) i = get (status_table (server (engine t))) i)"
proof -
  have eq: "get (status_table (server (engine u))) i
      = Some \<lparr>status_phase = (if i \<in> overtaken u then PREFILL else FINISHED), generated_count = 0\<rparr>"
    if "threads_step\<^sup>*\<^sup>* t0 u" "i \<in> announced u" for u
    using threads_reachable_inv [OF assms(1) that(1)] that(2) by (auto simp: threads_inv_def answers_ok_def)
  have "get (status_table (server (engine t'))) i = get (status_table (server (engine t))) i"
    if run: "threads_step\<^sup>*\<^sup>* t t'" and p: "i \<notin> set (pushed (engine t))" for t'
    using answered_stays_run [OF run threads_reachable_inv [OF assms(1,2)] assms(3) p] eq [OF assms(2,3)]
      eq [OF rtranclp_trans [OF assms(2) run]] by simp
  then show ?thesis using eq [OF assms(2,3)] by blast
qed

theorem engine_refines_service_witness:
  "\<exists>t0 t. threads_init t0 \<and> threads_step\<^sup>*\<^sup>* t0 t \<and> taken t = [(1, [5], 1)] \<and> (\<exists>a. service_init a \<and> service_step\<^sup>*\<^sup>* a (service_of t))"
proof -
  obtain e where "engine_run [(1, [5], 1)] {} e" using demo_engine by blast
  then obtain t0 t where t: "runs_to [(1, [5], 1)] {} e t0 t" using engine_run_threads by blast
  with engine_refines_service [of t0 t] show ?thesis by blast
qed

lemma reply_overtakes:
  assumes "pushed (engine t) = [i]" "i \<in> announced t"
  shows "\<exists>u. other_step t u \<and> announced u = announced t \<and> i \<in> overtaken u \<and> finished u = finished t
     \<and> fetched (engine u) = fetched (engine t) \<and> pushed (engine u) = []"
  by (intro exI conjI, rule other_step.replies [of t "[]" i "[]", OF _ prod.collapse [symmetric]]) (simp_all add: assms)

theorem final_status_wrong_iff_overtaken_witness:
  "\<exists>t0 t. threads_init t0 \<and> threads_step\<^sup>*\<^sup>* t0 t \<and> 1 \<in> finished t \<and> fetched (engine t) = [] \<and> pushed (engine t) = []
     \<and> get (status_table (server (engine t))) 1 = Some \<lparr>status_phase = PREFILL, generated_count = 0\<rparr>"
proof -
  obtain fin e where e: "engine_run [(1, [5], 1)] fin e" "1 \<in> fin" "fetched e = []" "pushed e = [1]" using demo_overtaken by blast
  then obtain t0 t where t: "runs_to [(1, [5], 1)] fin e t0 t" using engine_run_threads by blast
  have "pushed (engine t) = [1]" "1 \<in> announced t" using t e(2,4) by simp_all
  from reply_overtakes [OF this] obtain u where u: "other_step t u" "announced u = announced t" "1 \<in> overtaken u"
    "finished u = finished t" "fetched (engine u) = fetched (engine t)" "pushed (engine u) = []" by blast
  have r: "threads_step\<^sup>*\<^sup>* t0 u" using t u(1) by (auto simp: threads_step_def intro: rtranclp.rtrancl_into_rtrancl)
  have i: "threads_init t0" "1 \<in> announced u" "1 \<in> overtaken u" "1 \<in> finished u" using t u e(2) by auto
  have "get (status_table (server (engine u))) 1 = Some \<lparr>status_phase = PREFILL, generated_count = 0\<rparr>"
    using final_status_wrong_iff_overtaken [OF i(1) r i(2)] i(3) by simp
  moreover have "fetched (engine u) = []" using u(5) t e(3) by simp
  ultimately show ?thesis using i(1,4) r u(6) by blast
qed

end
