(* ===== verification/Double_Buffer.thy ===== *)
theory Double_Buffer
  imports Cpp_Numbers
begin

text \<open>
  The double-buffering demo (\<open>tools/double_buffer_demo.mm\<close>): eight slices go through two device buffers, filled by
  the transfer queue and read by the compute queue, synchronised by one event counter. The Metal framework is not
  part of the program; what the demo relies on is that the command buffers of a queue run in the order of their
  commits, that a wait blocks until the event has reached its value, and that a signal of a higher value sets it. What
  a signal of a lower value does is left open (parameter \<open>sig\<close>, \<open>event_law\<close>). A copy and a kernel work element by
  element in any order. Metal's own tracking of hazards orders the commands of one queue, not those of two queues, and is
  not modelled. Floats are exact rationals. Running out of memory and a missing device are not modelled.
\<close>

section \<open>Model\<close>

definition NUM_SLICES :: nat where "NUM_SLICES = 8"

definition atol :: "string \<Rightarrow> cpp_exn + int" where
  "atol s = (case scan_integer s of
       None \<Rightarrow> Inr 0
     | Some (neg, n) \<Rightarrow> let v = signed_value neg n in if - (2 ^ 63) \<le> v \<and> v < 2 ^ 63 then Inr v else Inl UndefinedBehaviour)"

text \<open>The number of elements of a slice.\<close>

definition elements_argument :: "string list \<Rightarrow> cpp_exn + nat" where
  "elements_argument argv =
     (if length argv > 1
      then (case atol (argv ! 1) of Inl e \<Rightarrow> Inl e | Inr v \<Rightarrow> Inr (if v > 0 then nat v else 2 ^ 20))
      else Inr (2 ^ 20))"

definition staging :: "nat \<Rightarrow> nat \<Rightarrow> rat" where
  "staging i j = of_nat ((i * 1000003 + j) mod 997) * (1 / 100)"

definition placeholder_expert_compute :: "rat \<Rightarrow> rat" where
  "placeholder_expert_compute x = x * x + 1"

definition cpu_reference :: "nat \<Rightarrow> nat \<Rightarrow> rat" where
  "cpu_reference i j = staging i j * staging i j + 1"

definition transferDoneValue :: "nat \<Rightarrow> nat" where "transferDoneValue i = 2 * i + 1"
definition computeDoneValue :: "nat \<Rightarrow> nat" where "computeDoneValue i = 2 * i + 2"
definition mustWaitFor :: "nat \<Rightarrow> nat" where "mustWaitFor i = 2 * (i - 2) + 2"

text \<open>A command buffer waits, works and signals. A queue is at a stage of the command buffer of a slice; \<open>elems\<close> are
  the elements it has worked on.\<close>

datatype cb_stage = Waiting | Working | Signalling

record Lane =
  slice_no :: nat
  at_stage :: cb_stage
  elems :: "nat set"

text \<open>\<open>overwritten\<close> is history: some transfer wrote to a buffer before the slice that was in it was computed.\<close>

record Gpu =
  transfer_q :: Lane
  compute_q :: Lane
  event :: nat
  deviceInput :: "nat \<Rightarrow> nat \<Rightarrow> rat"
  gpu_output :: "nat \<Rightarrow> nat \<Rightarrow> rat"
  overwritten :: bool

definition event_law :: "(nat \<Rightarrow> nat \<Rightarrow> nat) \<Rightarrow> bool" where
  "event_law sig \<longleftrightarrow> (\<forall>cur v. (sig cur v = cur \<or> sig cur v = v) \<and> (cur < v \<longrightarrow> sig cur v = v))"

definition new_Lane :: Lane where
  "new_Lane = \<lparr>slice_no = 0, at_stage = Waiting, elems = {}\<rparr>"

text \<open>The steps of the two queues, once everything is committed; \<open>n\<close> is \<open>ELEMENTS_PER_SLICE\<close>.\<close>

inductive gpu_step :: "(nat \<Rightarrow> nat \<Rightarrow> nat) \<Rightarrow> nat \<Rightarrow> Gpu \<Rightarrow> Gpu \<Rightarrow> bool" for sig n where
  t_wait: "transfer_q g = \<lparr>slice_no = i, at_stage = Waiting, elems = {}\<rparr> \<Longrightarrow> i < NUM_SLICES \<Longrightarrow> i \<ge> 2 \<longrightarrow> mustWaitFor i \<le> event g \<Longrightarrow>
    gpu_step sig n g (g\<lparr>transfer_q := \<lparr>slice_no = i, at_stage = Working, elems = {}\<rparr>\<rparr>)"
| t_copy: "transfer_q g = \<lparr>slice_no = i, at_stage = Working, elems = d\<rparr> \<Longrightarrow> j < n \<Longrightarrow> j \<notin> d \<Longrightarrow>
    gpu_step sig n g (g\<lparr>transfer_q := \<lparr>slice_no = i, at_stage = Working, elems = insert j d\<rparr>,
      deviceInput := (deviceInput g)(i mod 2 := (deviceInput g (i mod 2))(j := staging i j)),
      overwritten := overwritten g \<or> (i \<ge> 2 \<and> slice_no (compute_q g) \<le> i - 2)\<rparr>)"
| t_end: "transfer_q g = \<lparr>slice_no = i, at_stage = Working, elems = {..<n}\<rparr> \<Longrightarrow>
    gpu_step sig n g (g\<lparr>transfer_q := \<lparr>slice_no = i, at_stage = Signalling, elems = {}\<rparr>\<rparr>)"
| t_signal: "transfer_q g = \<lparr>slice_no = i, at_stage = Signalling, elems = {}\<rparr> \<Longrightarrow>
    gpu_step sig n g (g\<lparr>transfer_q := \<lparr>slice_no = i + 1, at_stage = Waiting, elems = {}\<rparr>, event := sig (event g) (transferDoneValue i)\<rparr>)"
| c_wait: "compute_q g = \<lparr>slice_no = i, at_stage = Waiting, elems = {}\<rparr> \<Longrightarrow> i < NUM_SLICES \<Longrightarrow> transferDoneValue i \<le> event g \<Longrightarrow>
    gpu_step sig n g (g\<lparr>compute_q := \<lparr>slice_no = i, at_stage = Working, elems = {}\<rparr>\<rparr>)"
| c_compute: "compute_q g = \<lparr>slice_no = i, at_stage = Working, elems = d\<rparr> \<Longrightarrow> j < n \<Longrightarrow> j \<notin> d \<Longrightarrow>
    gpu_step sig n g (g\<lparr>compute_q := \<lparr>slice_no = i, at_stage = Working, elems = insert j d\<rparr>,
      gpu_output := (gpu_output g)(i := (gpu_output g i)(j := placeholder_expert_compute (deviceInput g (i mod 2) j)))\<rparr>)"
| c_end: "compute_q g = \<lparr>slice_no = i, at_stage = Working, elems = {..<n}\<rparr> \<Longrightarrow>
    gpu_step sig n g (g\<lparr>compute_q := \<lparr>slice_no = i, at_stage = Signalling, elems = {}\<rparr>\<rparr>)"
| c_signal: "compute_q g = \<lparr>slice_no = i, at_stage = Signalling, elems = {}\<rparr> \<Longrightarrow>
    gpu_step sig n g (g\<lparr>compute_q := \<lparr>slice_no = i + 1, at_stage = Waiting, elems = {}\<rparr>, event := sig (event g) (computeDoneValue i)\<rparr>)"

definition gpu_init :: "Gpu \<Rightarrow> bool" where
  "gpu_init g \<longleftrightarrow> transfer_q g = new_Lane \<and> compute_q g = new_Lane \<and> event g = 0 \<and> \<not> overwritten g"

abbreviation gpu_run :: "(nat \<Rightarrow> nat \<Rightarrow> nat) \<Rightarrow> nat \<Rightarrow> Gpu \<Rightarrow> Gpu \<Rightarrow> bool" where
  "gpu_run sig n g0 g \<equiv> gpu_init g0 \<and> (gpu_step sig n)\<^sup>*\<^sup>* g0 g"

text \<open>\<open>waitUntilCompleted\<close> on the last compute command buffer has returned.\<close>

definition completed_all :: "Gpu \<Rightarrow> bool" where
  "completed_all g \<longleftrightarrow> slice_no (compute_q g) = NUM_SLICES"

text \<open>The comparison with the CPU reference, and the exit code.\<close>

definition mismatches :: "nat \<Rightarrow> Gpu \<Rightarrow> nat" where
  "mismatches n g = length (filter (\<lambda>(i, j). \<bar>gpu_output g i j - cpu_reference i j\<bar> > 1 / 1000) (List.product [0..<NUM_SLICES] [0..<n]))"

definition exit_code :: "nat \<Rightarrow> Gpu \<Rightarrow> int" where
  "exit_code n g = (if mismatches n g = 0 then 0 else 1)"

section \<open>Invariant\<close>

text \<open>The event was set by a signal that was executed.\<close>

definition event_ok :: "Gpu \<Rightarrow> bool" where
  "event_ok g \<longleftrightarrow> event g = 0 \<or> (\<exists>i < slice_no (transfer_q g). event g = transferDoneValue i)
     \<or> (\<exists>i < slice_no (compute_q g). event g = computeDoneValue i)"

text \<open>\<open>k\<close> is a slice in the buffer of slice \<open>i\<close>, not before it, and \<open>i\<close> itself as long as nothing was overwritten.\<close>

definition in_place :: "bool \<Rightarrow> nat \<Rightarrow> nat \<Rightarrow> bool" where
  "in_place ow i k \<longleftrightarrow> i \<le> k \<and> k < NUM_SLICES \<and> k mod 2 = i mod 2 \<and> (\<not> ow \<longrightarrow> k = i)"

definition buffers_ok :: "nat \<Rightarrow> Gpu \<Rightarrow> bool" where
  "buffers_ok n g \<longleftrightarrow>
     (\<forall>i < slice_no (transfer_q g). \<forall>j < n. slice_no (compute_q g) \<le> i \<longrightarrow>
        (\<exists>k. in_place (overwritten g) i k \<and> deviceInput g (i mod 2) j = staging k j))
   \<and> (\<forall>j < n. (at_stage (transfer_q g) = Signalling \<or> j \<in> elems (transfer_q g)) \<longrightarrow>
        deviceInput g (slice_no (transfer_q g) mod 2) j = staging (slice_no (transfer_q g)) j)"

definition outputs_ok :: "nat \<Rightarrow> Gpu \<Rightarrow> bool" where
  "outputs_ok n g \<longleftrightarrow> (\<forall>i j. j < n \<and> (i < slice_no (compute_q g)
       \<or> i = slice_no (compute_q g) \<and> (at_stage (compute_q g) = Signalling \<or> j \<in> elems (compute_q g))) \<longrightarrow>
     (\<exists>k. in_place (overwritten g) i k \<and> gpu_output g i j = placeholder_expert_compute (staging k j)))"

definition lanes_ok :: "nat \<Rightarrow> Gpu \<Rightarrow> bool" where
  "lanes_ok n g \<longleftrightarrow> slice_no (compute_q g) \<le> slice_no (transfer_q g) \<and> slice_no (transfer_q g) \<le> NUM_SLICES
     \<and> (at_stage (compute_q g) \<noteq> Waiting \<longrightarrow> slice_no (compute_q g) < slice_no (transfer_q g))
     \<and> (at_stage (transfer_q g) \<noteq> Waiting \<longrightarrow> slice_no (transfer_q g) < NUM_SLICES)
     \<and> elems (transfer_q g) \<subseteq> {..<n} \<and> elems (compute_q g) \<subseteq> {..<n}
     \<and> (at_stage (transfer_q g) \<noteq> Working \<longrightarrow> elems (transfer_q g) = {}) \<and> (at_stage (compute_q g) \<noteq> Working \<longrightarrow> elems (compute_q g) = {})"

lemmas gpu_defs = lanes_ok_def event_ok_def buffers_ok_def outputs_ok_def

lemma in_place_mono: "in_place ow i k \<Longrightarrow> (ow \<longrightarrow> ow') \<Longrightarrow> in_place ow' i k"
  by (auto simp: in_place_def)

lemma event_ok_signal:
  assumes "event_ok g" "event g' = event g \<or> event g' = v"
    "v = transferDoneValue i \<and> i < slice_no (transfer_q g') \<or> v = computeDoneValue i \<and> i < slice_no (compute_q g')"
    "slice_no (transfer_q g) \<le> slice_no (transfer_q g')" "slice_no (compute_q g) \<le> slice_no (compute_q g')"
  shows "event_ok g'"
  using assms unfolding event_ok_def by (elim disjE) (metis order.strict_trans2)+

lemma lanes_ok_step:
  assumes "gpu_step sig n g g'" "event_law sig" "lanes_ok n g" "event_ok g"
  shows "lanes_ok n g'" "event_ok g'"
proof -
  have sig: "sig cur v = cur \<or> sig cur v = v" for cur v using assms(2) by (simp add: event_law_def)
  show "lanes_ok n g'" using assms(1,3,4)
    by (induction rule: gpu_step.induct) (auto simp: lanes_ok_def event_ok_def transferDoneValue_def computeDoneValue_def)
  show "event_ok g'" using assms(1,4)
  proof (induction rule: gpu_step.induct)
    case (t_signal g i)
    show ?case by (rule event_ok_signal [OF t_signal.prems, of _ "transferDoneValue i" i]) (use t_signal.hyps sig in simp_all)
  next
    case (c_signal g i)
    show ?case by (rule event_ok_signal [OF c_signal.prems, of _ "computeDoneValue i" i]) (use c_signal.hyps sig in simp_all)
  qed (simp_all add: event_ok_def)
qed

text \<open>A copy goes to a buffer whose slices are computed, or marks the history.\<close>

lemma buffers_ok_copy:
  assumes "lanes_ok n g" "buffers_ok n g" "transfer_q g = \<lparr>slice_no = i, at_stage = Working, elems = d\<rparr>" "j < n"
    "g' = g\<lparr>transfer_q := \<lparr>slice_no = i, at_stage = Working, elems = insert j d\<rparr>,
      deviceInput := (deviceInput g)(i mod 2 := (deviceInput g (i mod 2))(j := staging i j)),
      overwritten := overwritten g \<or> (i \<ge> 2 \<and> slice_no (compute_q g) \<le> i - 2)\<rparr>"
  shows "buffers_ok n g'"
proof -
  have i: "i < NUM_SLICES" "slice_no (compute_q g) \<le> i" using assms(1,3) by (auto simp: lanes_ok_def)
  have "\<exists>k. in_place (overwritten g') i' k \<and> deviceInput g' (i' mod 2) j' = staging k j'"
    if *: "i' < i" "j' < n" "slice_no (compute_q g) \<le> i'" for i' j'
  proof (cases "i' mod 2 = i mod 2 \<and> j' = j")
    case True
    then have "i' \<le> i - 2" "2 \<le> i" using \<open>i' < i\<close> by presburger+
    then show ?thesis using True * i by (intro exI [of _ i]) (simp add: assms(5) in_place_def)
  next
    case False
    obtain k where k: "in_place (overwritten g) i' k" "deviceInput g (i' mod 2) j' = staging k j'"
      using * assms(2,3) unfolding buffers_ok_def by (metis Lane.select_convs(1))
    have "in_place (overwritten g') i' k" by (rule in_place_mono [OF k(1)]) (simp add: assms(5))
    then show ?thesis using k(2) False by (intro exI [of _ k]) (auto simp: assms(5))
  qed
  then show ?thesis using assms(2,3) by (auto simp: buffers_ok_def assms(5))
qed

lemma outputs_ok_mono:
  assumes "outputs_ok n g" "compute_q g' = compute_q g" "gpu_output g' = gpu_output g" "overwritten g \<longrightarrow> overwritten g'"
  shows "outputs_ok n g'"
  using assms(1) in_place_mono [OF _ assms(4)] unfolding outputs_ok_def assms(2,3) by blast

lemma gpu_inv_step:
  assumes "gpu_step sig n g g'" "lanes_ok n g" "buffers_ok n g" "outputs_ok n g"
  shows "buffers_ok n g' \<and> outputs_ok n g'"
  using assms
proof (induction rule: gpu_step.induct)
  case (t_copy g i d j)
  show ?case using buffers_ok_copy [OF t_copy.prems(1,2) t_copy.hyps(1,2) refl]
    by (intro conjI, assumption) (rule outputs_ok_mono [OF t_copy.prems(3)], simp_all)
next
  case (t_signal g i)
  have "in_place (overwritten g) i i" using t_signal by (simp add: in_place_def lanes_ok_def)
  then show ?case using t_signal by (auto simp: buffers_ok_def outputs_ok_def lanes_ok_def less_Suc_eq)
next
  case (c_compute g i d j)
  then have "\<exists>k. in_place (overwritten g) i k \<and> deviceInput g (i mod 2) j = staging k j"
    by (auto simp: buffers_ok_def lanes_ok_def)
  then show ?case using c_compute by (auto simp: buffers_ok_def outputs_ok_def)
next
  case (c_signal g i)
  then show ?case by (auto simp: buffers_ok_def outputs_ok_def less_Suc_eq)
qed (auto simp: buffers_ok_def outputs_ok_def lanes_ok_def)

definition gpu_inv :: "nat \<Rightarrow> Gpu \<Rightarrow> bool" where
  "gpu_inv n g \<longleftrightarrow> lanes_ok n g \<and> event_ok g \<and> buffers_ok n g \<and> outputs_ok n g"

lemma gpu_run_inv:
  assumes "event_law sig" "gpu_init g0" "(gpu_step sig n)\<^sup>*\<^sup>* g0 g"
  shows "gpu_inv n g"
  using assms(3)
proof (induction rule: rtranclp_induct)
  case base
  then show ?case using assms(2) by (simp add: gpu_init_def gpu_inv_def gpu_defs new_Lane_def)
next
  case (step g g')
  then show ?case using lanes_ok_step [OF step.hyps(2) assms(1)] gpu_inv_step [OF step.hyps(2)] by (simp add: gpu_inv_def)
qed

section \<open>The runs end\<close>

fun stage_work :: "nat \<Rightarrow> Lane \<Rightarrow> nat" where
  "stage_work n l = (NUM_SLICES - slice_no l) * (n + 3)
     + (case at_stage l of Waiting \<Rightarrow> n + 3 | Working \<Rightarrow> n + 2 - card (elems l) | Signalling \<Rightarrow> 1)"

definition gpu_work :: "nat \<Rightarrow> Gpu \<Rightarrow> nat" where
  "gpu_work n g = stage_work n (transfer_q g) + stage_work n (compute_q g)"

lemma stage_work_steps:
  assumes "i < NUM_SLICES"
  shows "stage_work n \<lparr>slice_no = i, at_stage = Working, elems = {}\<rparr> < stage_work n \<lparr>slice_no = i, at_stage = Waiting, elems = {}\<rparr>"
    "d \<subseteq> {..<n} \<Longrightarrow> j < n \<Longrightarrow> j \<notin> d \<Longrightarrow>
       stage_work n \<lparr>slice_no = i, at_stage = Working, elems = insert j d\<rparr> < stage_work n \<lparr>slice_no = i, at_stage = Working, elems = d\<rparr>"
    "stage_work n \<lparr>slice_no = i, at_stage = Signalling, elems = {}\<rparr> < stage_work n \<lparr>slice_no = i, at_stage = Working, elems = {..<n}\<rparr>"
    "stage_work n \<lparr>slice_no = Suc i, at_stage = Waiting, elems = {}\<rparr> < stage_work n \<lparr>slice_no = i, at_stage = Signalling, elems = {}\<rparr>"
proof -
  show "d \<subseteq> {..<n} \<Longrightarrow> j < n \<Longrightarrow> j \<notin> d \<Longrightarrow>
      stage_work n \<lparr>slice_no = i, at_stage = Working, elems = insert j d\<rparr> < stage_work n \<lparr>slice_no = i, at_stage = Working, elems = d\<rparr>"
  proof -
    assume d: "d \<subseteq> {..<n}" "j < n" "j \<notin> d"
    then have "finite d" using finite_subset by blast
    moreover have "card d \<le> n" using card_mono [OF finite_lessThan d(1)] by simp
    ultimately show ?thesis using d by simp
  qed
  have "NUM_SLICES - i = Suc (NUM_SLICES - Suc i)" using assms by simp
  then show "stage_work n \<lparr>slice_no = Suc i, at_stage = Waiting, elems = {}\<rparr> < stage_work n \<lparr>slice_no = i, at_stage = Signalling, elems = {}\<rparr>"
    by simp
qed simp_all

lemma gpu_step_work:
  assumes "gpu_step sig n g g'" "lanes_ok n g"
  shows "gpu_work n g' < gpu_work n g"
  using assms
  by (induction rule: gpu_step.induct) (auto simp: gpu_work_def lanes_ok_def stage_work_steps simp del: stage_work.simps)

text \<open>With an event that only grows, the queues never block each other.\<close>

definition event_reached :: "Gpu \<Rightarrow> bool" where
  "event_reached g \<longleftrightarrow> (\<forall>i < slice_no (transfer_q g). transferDoneValue i \<le> event g)"

lemma event_reached_step:
  assumes "gpu_step max n g g'" "event_reached g"
  shows "event_reached g'"
  using assms by (induction rule: gpu_step.induct) (auto simp: event_reached_def less_Suc_eq)

lemma lane_cases:
  obtains (waiting) i where "l = \<lparr>slice_no = i, at_stage = Waiting, elems = {}\<rparr>"
  | (working) i d j where "l = \<lparr>slice_no = i, at_stage = Working, elems = d\<rparr>" "j < n" "j \<notin> d"
  | (ended) i where "l = \<lparr>slice_no = i, at_stage = Working, elems = {..<n}\<rparr>"
  | (signalling) i where "l = \<lparr>slice_no = i, at_stage = Signalling, elems = {}\<rparr>"
  | (bad) "\<not> (elems l \<subseteq> {..<n} \<and> (at_stage l \<noteq> Working \<longrightarrow> elems l = {}))"
proof (cases l)
  case (fields i s d)
  show thesis
  proof (cases "elems l \<subseteq> {..<n} \<and> (at_stage l \<noteq> Working \<longrightarrow> elems l = {})")
    case True
    then show ?thesis using fields waiting working ended signalling by (cases s) auto
  qed (rule bad)
qed

lemma gpu_progress:
  assumes "lanes_ok n g" "event_reached g" "\<not> completed_all g"
  shows "\<exists>g'. gpu_step max n g g'"
proof (cases "slice_no (transfer_q g) < NUM_SLICES")
  case True
  show ?thesis
  proof (rule lane_cases [where l = "transfer_q g" and n = n])
    fix i assume i: "transfer_q g = \<lparr>slice_no = i, at_stage = Waiting, elems = {}\<rparr>"
    have "mustWaitFor i \<le> event g" if "2 \<le> i"
    proof -
      have "transferDoneValue (i - 1) \<le> event g" using assms(2) i that by (simp add: event_reached_def)
      then show ?thesis using that by (simp add: transferDoneValue_def mustWaitFor_def)
    qed
    then show ?thesis using gpu_step.t_wait [OF i] True i by auto
  next
    fix i d j assume "transfer_q g = \<lparr>slice_no = i, at_stage = Working, elems = d\<rparr>" "j < n" "j \<notin> d"
    from gpu_step.t_copy [OF this] show ?thesis by (rule exI)
  next
    fix i assume "transfer_q g = \<lparr>slice_no = i, at_stage = Working, elems = {..<n}\<rparr>"
    from gpu_step.t_end [OF this] show ?thesis by (rule exI)
  next
    fix i assume "transfer_q g = \<lparr>slice_no = i, at_stage = Signalling, elems = {}\<rparr>"
    from gpu_step.t_signal [OF this] show ?thesis by (rule exI)
  qed (use assms(1) in \<open>simp add: lanes_ok_def\<close>)
next
  case False
  then have all: "slice_no (transfer_q g) = NUM_SLICES" using assms(1) by (simp add: lanes_ok_def)
  show ?thesis
  proof (rule lane_cases [where l = "compute_q g" and n = n])
    fix i assume i: "compute_q g = \<lparr>slice_no = i, at_stage = Waiting, elems = {}\<rparr>"
    then have lt: "i < NUM_SLICES" using assms(1,3) by (simp add: lanes_ok_def completed_all_def)
    then have "transferDoneValue i \<le> event g" using assms(2) all by (simp add: event_reached_def)
    then show ?thesis using gpu_step.c_wait [OF i lt] by blast
  next
    fix i d j assume "compute_q g = \<lparr>slice_no = i, at_stage = Working, elems = d\<rparr>" "j < n" "j \<notin> d"
    from gpu_step.c_compute [OF this] show ?thesis by (rule exI)
  next
    fix i assume "compute_q g = \<lparr>slice_no = i, at_stage = Working, elems = {..<n}\<rparr>"
    from gpu_step.c_end [OF this] show ?thesis by (rule exI)
  next
    fix i assume "compute_q g = \<lparr>slice_no = i, at_stage = Signalling, elems = {}\<rparr>"
    from gpu_step.c_signal [OF this] show ?thesis by (rule exI)
  qed (use assms(1) in \<open>simp add: lanes_ok_def\<close>)
qed

lemma gpu_completes:
  assumes "gpu_inv n g" "event_reached g"
  shows "\<exists>g'. (gpu_step max n)\<^sup>*\<^sup>* g g' \<and> completed_all g'"
  using assms
proof (induction "gpu_work n g" arbitrary: g rule: less_induct)
  case less
  show ?case
  proof (cases "completed_all g")
    case False
    then obtain g1 where g1: "gpu_step max n g g1" using gpu_progress less.prems by (auto simp: gpu_inv_def)
    have law: "event_law max" by (simp add: event_law_def max_def)
    have "gpu_inv n g1" using lanes_ok_step [OF g1 law] gpu_inv_step [OF g1] less.prems(1) by (simp add: gpu_inv_def)
    then have "\<exists>g'. (gpu_step max n)\<^sup>*\<^sup>* g1 g' \<and> completed_all g'"
      using less.hyps gpu_step_work [OF g1] event_reached_step [OF g1 less.prems(2)] less.prems(1) by (simp add: gpu_inv_def)
    then show ?thesis using g1 by (meson converse_rtranclp_into_rtranclp)
  qed blast
qed

section \<open>The race\<close>

text \<open>One transfer from beginning to end.\<close>

lemma run_copy:
  "k \<le> n \<Longrightarrow> transfer_q g = \<lparr>slice_no = i, at_stage = Working, elems = {}\<rparr> \<Longrightarrow>
     \<exists>g'. (gpu_step sig n)\<^sup>*\<^sup>* g g' \<and> transfer_q g' = \<lparr>slice_no = i, at_stage = Working, elems = {..<k}\<rparr> \<and> compute_q g' = compute_q g
       \<and> event g' = event g \<and> (\<forall>j < k. deviceInput g' (i mod 2) j = staging i j)"
proof (induction k)
  case 0
  then show ?case by (intro exI [of _ g]) simp
next
  case (Suc k)
  then obtain g1 where g1: "(gpu_step sig n)\<^sup>*\<^sup>* g g1" "transfer_q g1 = \<lparr>slice_no = i, at_stage = Working, elems = {..<k}\<rparr>"
    "compute_q g1 = compute_q g" "event g1 = event g" "\<forall>j < k. deviceInput g1 (i mod 2) j = staging i j" by auto
  have "k < n" "k \<notin> {..<k}" using Suc.prems(1) by simp_all
  from gpu_step.t_copy [OF g1(2) this] obtain g2 where g2: "gpu_step sig n g1 g2"
    "transfer_q g2 = \<lparr>slice_no = i, at_stage = Working, elems = {..<Suc k}\<rparr>" "compute_q g2 = compute_q g1" "event g2 = event g1"
    "\<forall>j. deviceInput g2 (i mod 2) j = (if j = k then staging i j else deviceInput g1 (i mod 2) j)"
    by (rule that) (simp_all add: lessThan_Suc)
  have "(gpu_step sig n)\<^sup>*\<^sup>* g g2" by (rule rtranclp.rtrancl_into_rtrancl [OF g1(1) g2(1)])
  then show ?case using g1(3-5) g2(2-5) by (intro exI [of _ g2]) (simp add: less_Suc_eq)
qed

lemma run_transfer:
  assumes "transfer_q g = \<lparr>slice_no = i, at_stage = Waiting, elems = {}\<rparr>" "i < NUM_SLICES" "i \<ge> 2 \<longrightarrow> mustWaitFor i \<le> event g"
  shows "\<exists>g'. (gpu_step sig n)\<^sup>*\<^sup>* g g' \<and> transfer_q g' = \<lparr>slice_no = i + 1, at_stage = Waiting, elems = {}\<rparr> \<and> compute_q g' = compute_q g
     \<and> event g' = sig (event g) (transferDoneValue i) \<and> (\<forall>j < n. deviceInput g' (i mod 2) j = staging i j)"
proof -
  let ?g1 = "g\<lparr>transfer_q := \<lparr>slice_no = i, at_stage = Working, elems = {}\<rparr>\<rparr>"
  have 1: "gpu_step sig n g ?g1" by (rule gpu_step.t_wait [OF assms])
  obtain g2 where g2: "(gpu_step sig n)\<^sup>*\<^sup>* ?g1 g2" "transfer_q g2 = \<lparr>slice_no = i, at_stage = Working, elems = {..<n}\<rparr>"
    "compute_q g2 = compute_q g" "event g2 = event g" "\<forall>j < n. deviceInput g2 (i mod 2) j = staging i j"
    using run_copy [of n n ?g1 i sig] by auto
  let ?g3 = "g2\<lparr>transfer_q := \<lparr>slice_no = i, at_stage = Signalling, elems = {}\<rparr>\<rparr>"
  have 3: "gpu_step sig n g2 ?g3" by (rule gpu_step.t_end [OF g2(2)])
  have "transfer_q ?g3 = \<lparr>slice_no = i, at_stage = Signalling, elems = {}\<rparr>" by simp
  from gpu_step.t_signal [OF this] obtain g4 where g4: "gpu_step sig n ?g3 g4"
    "transfer_q g4 = \<lparr>slice_no = i + 1, at_stage = Waiting, elems = {}\<rparr>" "compute_q g4 = compute_q g2"
    "event g4 = sig (event g2) (transferDoneValue i)" "deviceInput g4 = deviceInput g2"
    by (rule that) simp_all
  have "(gpu_step sig n)\<^sup>*\<^sup>* g g4"
    by (rule converse_rtranclp_into_rtranclp [OF 1 rtranclp.rtrancl_into_rtrancl [OF rtranclp.rtrancl_into_rtrancl [OF g2(1) 3] g4(1)]])
  then show ?thesis using g2(3-5) g4(2-5) by (intro exI [of _ g4]) simp
qed

text \<open>Slices 0, 1 and 2 are transferred before slice 0 is computed: the wait of transfer 2 for the value 2 is satisfied
  by the value 3 that transfer 1 signals.\<close>

lemma race_run:
  assumes "event_law sig" "0 < n" "gpu_init g0"
  shows "\<exists>g. (gpu_step sig n)\<^sup>*\<^sup>* g0 g \<and> slice_no (compute_q g) = 0 \<and> 0 \<in> elems (compute_q g)
     \<and> gpu_output g 0 0 = placeholder_expert_compute (staging 2 0)"
proof -
  have up: "cur < v \<Longrightarrow> sig cur v = v" for cur v using assms(1) by (simp add: event_law_def)
  have 0: "transfer_q g0 = \<lparr>slice_no = 0, at_stage = Waiting, elems = {}\<rparr>" "compute_q g0 = \<lparr>slice_no = 0, at_stage = Waiting, elems = {}\<rparr>" "event g0 = 0"
    using assms(3) by (simp_all add: gpu_init_def new_Lane_def)
  obtain g1 where g1: "(gpu_step sig n)\<^sup>*\<^sup>* g0 g1" "transfer_q g1 = \<lparr>slice_no = 1, at_stage = Waiting, elems = {}\<rparr>" "compute_q g1 = compute_q g0" "event g1 = 1"
    using run_transfer [OF 0(1), of sig n] 0(3) up by (auto simp: NUM_SLICES_def transferDoneValue_def)
  obtain g2 where g2: "(gpu_step sig n)\<^sup>*\<^sup>* g1 g2" "transfer_q g2 = \<lparr>slice_no = 2, at_stage = Waiting, elems = {}\<rparr>" "compute_q g2 = compute_q g0" "event g2 = 3"
    using run_transfer [OF g1(2), of sig n] g1(3,4) up by (auto simp: NUM_SLICES_def transferDoneValue_def numeral_2_eq_2)
  have "2 < NUM_SLICES" "2 \<ge> (2 :: nat) \<longrightarrow> mustWaitFor 2 \<le> event g2" using g2(4) by (simp_all add: NUM_SLICES_def mustWaitFor_def)
  then obtain g3 where g3: "(gpu_step sig n)\<^sup>*\<^sup>* g2 g3" "compute_q g3 = \<lparr>slice_no = 0, at_stage = Waiting, elems = {}\<rparr>" "event g3 = 5"
    "deviceInput g3 0 0 = staging 2 0"
    using run_transfer [OF g2(2), of sig n] g2(3,4) 0(2) up assms(2) by (auto simp: transferDoneValue_def)
  let ?g4 = "g3\<lparr>compute_q := \<lparr>slice_no = 0, at_stage = Working, elems = {}\<rparr>\<rparr>"
  have 4: "gpu_step sig n g3 ?g4" by (rule gpu_step.c_wait [OF g3(2)]) (simp_all add: g3(3) NUM_SLICES_def transferDoneValue_def)
  have "compute_q ?g4 = \<lparr>slice_no = 0, at_stage = Working, elems = {}\<rparr>" by simp
  from gpu_step.c_compute [OF this assms(2)] obtain g5 where g5: "gpu_step sig n ?g4 g5" "slice_no (compute_q g5) = 0"
    "0 \<in> elems (compute_q g5)" "gpu_output g5 0 0 = placeholder_expert_compute (deviceInput g3 0 0)"
    by (rule that) simp_all
  have run: "(gpu_step sig n)\<^sup>*\<^sup>* g0 g3" using g1(1) g2(1) g3(1) by (meson rtranclp_trans)
  have "(gpu_step sig n)\<^sup>*\<^sup>* g0 g5" by (rule rtranclp.rtrancl_into_rtrancl [OF rtranclp.rtrancl_into_rtrancl [OF run 4] g5(1)])
  then show ?thesis using g5(2-4) g3(4) by (intro exI [of _ g5]) simp
qed

text \<open>What is computed is not computed again.\<close>

lemma output_final:
  assumes "(gpu_step sig n)\<^sup>*\<^sup>* g g'" "0 < slice_no (compute_q g) \<or> at_stage (compute_q g) = Signalling \<or> 0 \<in> elems (compute_q g)"
  shows "gpu_output g' 0 0 = gpu_output g 0 0
     \<and> (0 < slice_no (compute_q g') \<or> at_stage (compute_q g') = Signalling \<or> 0 \<in> elems (compute_q g'))"
  using assms(1)
proof (induction rule: rtranclp_induct)
  case (step u u')
  from step.hyps(2) step.IH show ?case by (induction rule: gpu_step.induct) auto
qed (use assms(2) in simp)

lemma wrong_output_fails:
  assumes "0 < n" "gpu_output g 0 0 = placeholder_expert_compute (staging 2 0)"
  shows "exit_code n g = 1"
proof -
  have "\<bar>gpu_output g 0 0 - cpu_reference 0 0\<bar> > 1 / 1000"
    using assms(2) by (simp add: placeholder_expert_compute_def cpu_reference_def staging_def)
  moreover have "(0, 0) \<in> set (List.product [0..<NUM_SLICES] [0..<n])" using assms(1) by (simp add: NUM_SLICES_def)
  ultimately have "mismatches n g \<noteq> 0" unfolding mismatches_def by (fastforce simp: filter_empty_conv)
  then show ?thesis by (simp add: exit_code_def)
qed

section \<open>Properties\<close>

text \<open>C33. No compute command reads its buffer before its slice was transferred: when the demo ends, every output is the
  kernel applied to the input of its own slice or of a later slice of the same buffer; and when no transfer
  overwrote a buffer too early, all outputs are those of the CPU and the demo reports PASS.\<close>

theorem double_buffer_reads_after_write:
  assumes "event_law sig" "gpu_init g0" "(gpu_step sig n)\<^sup>*\<^sup>* g0 g" "completed_all g"
  shows "(\<forall>i < NUM_SLICES. \<forall>j < n. \<exists>k < NUM_SLICES. i \<le> k \<and> k mod 2 = i mod 2 \<and> gpu_output g i j = placeholder_expert_compute (staging k j))
    \<and> (\<not> overwritten g \<longrightarrow> exit_code n g = 0)"
proof -
  have out: "\<exists>k. in_place (overwritten g) i k \<and> gpu_output g i j = placeholder_expert_compute (staging k j)" if "i < NUM_SLICES" "j < n" for i j
    using gpu_run_inv [OF assms(1-3)] assms(4) that by (simp add: gpu_inv_def outputs_ok_def completed_all_def)
  have "gpu_output g i j = cpu_reference i j" if "\<not> overwritten g" "i < NUM_SLICES" "j < n" for i j
    using out [OF that(2,3)] that(1) by (auto simp: in_place_def placeholder_expert_compute_def cpu_reference_def)
  then have "\<not> overwritten g \<longrightarrow> mismatches n g = 0" by (auto simp: mismatches_def filter_empty_conv)
  with out show ?thesis unfolding exit_code_def in_place_def by metis
qed

text \<open>C32. The event does not protect the buffers: whatever a signal of a lower value does, some run transfers slice 2 over
  slice 0 before slice 0 is computed, after which the demo can only end with FAIL; and it does end so when the event
  only grows. The wait of transfer \<open>i\<close> for compute \<open>i - 2\<close> is already satisfied by the signal of transfer \<open>i - 1\<close>.\<close>

theorem double_buffer_race:
  assumes "event_law sig" "0 < n" "gpu_init g0"
  shows "\<exists>g. (gpu_step sig n)\<^sup>*\<^sup>* g0 g \<and> gpu_output g 0 0 = placeholder_expert_compute (staging 2 0)
     \<and> (\<forall>g'. (gpu_step sig n)\<^sup>*\<^sup>* g g' \<and> completed_all g' \<longrightarrow> exit_code n g' = 1)
     \<and> (sig = max \<longrightarrow> (\<exists>g'. (gpu_step sig n)\<^sup>*\<^sup>* g g' \<and> completed_all g'))"
proof -
  obtain g where g: "(gpu_step sig n)\<^sup>*\<^sup>* g0 g" "slice_no (compute_q g) = 0" "0 \<in> elems (compute_q g)"
    "gpu_output g 0 0 = placeholder_expert_compute (staging 2 0)" using race_run [OF assms] by blast
  have "exit_code n g' = 1" if "(gpu_step sig n)\<^sup>*\<^sup>* g g'" for g'
    using output_final [OF that] g(3,4) by (intro wrong_output_fails [OF assms(2)]) simp
  moreover have "\<exists>g'. (gpu_step sig n)\<^sup>*\<^sup>* g g' \<and> completed_all g'" if s: "sig = max"
  proof -
    have "event_reached g" using g(1) unfolding s
    proof (induction rule: rtranclp_induct)
      case base
      then show ?case using assms(3) by (simp add: gpu_init_def event_reached_def new_Lane_def)
    qed (rule event_reached_step)
    with gpu_completes [OF gpu_run_inv [OF assms(1,3) g(1)]] show ?thesis by (simp add: s)
  qed
  ultimately show ?thesis using g(1,4) by blast
qed

definition demo_gpu :: Gpu where
  "demo_gpu = \<lparr>transfer_q = new_Lane, compute_q = new_Lane, event = 0, deviceInput = (\<lambda>_ _. 0), gpu_output = (\<lambda>_ _. 0), overwritten = False\<rparr>"

lemma demo_gpu_init: "gpu_init demo_gpu" by (simp add: gpu_init_def demo_gpu_def)

lemma event_law_max: "event_law max" by (auto simp: event_law_def max_def)

theorem double_buffer_race_witness:
  "\<exists>g. (gpu_step max 1)\<^sup>*\<^sup>* demo_gpu g \<and> completed_all g \<and> exit_code 1 g = 1"
  using double_buffer_race [OF event_law_max _ demo_gpu_init, of 1] by (meson rtranclp_trans zero_less_one)

theorem double_buffer_reads_after_write_witness:
  "\<exists>g. (gpu_step max 1)\<^sup>*\<^sup>* demo_gpu g \<and> completed_all g
     \<and> (\<exists>k < NUM_SLICES. 7 \<le> k \<and> gpu_output g 7 0 = placeholder_expert_compute (staging k 0))"
proof -
  have "event_reached demo_gpu" by (simp add: event_reached_def demo_gpu_def new_Lane_def)
  then obtain g where g: "(gpu_step max 1)\<^sup>*\<^sup>* demo_gpu g" "completed_all g"
    using gpu_completes [OF gpu_run_inv [OF event_law_max demo_gpu_init rtranclp.rtrancl_refl]] by blast
  have "7 < NUM_SLICES" by (simp add: NUM_SLICES_def)
  with double_buffer_reads_after_write [OF event_law_max demo_gpu_init g] g show ?thesis by (metis zero_less_one)
qed

end
