(* ===== verification/Float_Rounding.thy ===== *)
theory Float_Rounding
  imports Prelude
begin

text \<open>
  The float arithmetic of the kernels. A float is the real number it denotes; the operations of the hardware and of the
  array library are parameters (\<open>FloatOps\<close>), and \<open>float_law\<close> is what is relied on: a result that does not overflow is
  off by at most \<open>u (\<bar>x\<bar> + kappa)\<close>, where \<open>u\<close> is the unit roundoff and \<open>kappa\<close> accounts for underflow (for single
  precision rounded to nearest, \<open>u = 2^-24\<close> and \<open>kappa = 2^-126\<close>, or \<open>2^-102\<close> where subnormal numbers are flushed to zero),
  up to the largest number \<open>omega\<close>. A multiplication may be contracted with the addition that follows it, and sums of many
  terms may be formed in any order. Infinities and NaNs do not occur: the theorems have a condition that excludes overflow.
\<close>

section \<open>Operations\<close>

text \<open>\<open>fmac p a b\<close> is \<open>p += a * b\<close>, \<open>fsimd\<close> the sum over the 32 lanes of a SIMD group, \<open>fmatmul r w n\<close> an entry of a matrix
  product of the library, \<open>flit\<close> the float of a literal.\<close>

record FloatOps =
  fadd :: "real \<Rightarrow> real \<Rightarrow> real"
  fsub :: "real \<Rightarrow> real \<Rightarrow> real"
  fmul :: "real \<Rightarrow> real \<Rightarrow> real"
  fdiv :: "real \<Rightarrow> real \<Rightarrow> real"
  fmac :: "real \<Rightarrow> real \<Rightarrow> real \<Rightarrow> real"
  fexp :: "real \<Rightarrow> real"
  flit :: "real \<Rightarrow> real"
  fsimd :: "(nat \<Rightarrow> real) \<Rightarrow> real"
  fmatmul :: "(nat \<Rightarrow> real) \<Rightarrow> (nat \<Rightarrow> real) \<Rightarrow> nat \<Rightarrow> real"

record precision =
  u :: real
  kappa :: real
  omega :: real

definition rounded :: "precision \<Rightarrow> real \<Rightarrow> real \<Rightarrow> bool" where
  "rounded P x y \<longleftrightarrow> (\<bar>x\<bar> \<le> omega P \<longrightarrow> \<bar>y - x\<bar> \<le> u P * (\<bar>x\<bar> + kappa P))"

text \<open>The factor of the error after \<open>n\<close> roundings, and a sum of \<open>n\<close> products in any order.\<close>

definition growth :: "precision \<Rightarrow> nat \<Rightarrow> real" where
  "growth P n = (1 + u P) ^ n"

definition summed :: "precision \<Rightarrow> nat \<Rightarrow> real \<Rightarrow> real \<Rightarrow> real \<Rightarrow> bool" where
  "summed P n mass x y \<longleftrightarrow> (growth P n * mass \<le> omega P \<longrightarrow> \<bar>y - x\<bar> \<le> (growth P n - 1) * mass)"

definition precision_ok :: "precision \<Rightarrow> bool" where
  "precision_ok P \<longleftrightarrow> 0 \<le> u P \<and> u P \<le> 1 / 1000 \<and> 0 \<le> kappa P \<and> kappa P \<le> 1 / 10 ^ 20 \<and> 1000 \<le> omega P"

definition float_law :: "precision \<Rightarrow> FloatOps \<Rightarrow> bool" where
  "float_law P F \<longleftrightarrow> precision_ok P
     \<and> (\<forall>a b. rounded P (a + b) (fadd F a b)) \<and> (\<forall>a b. rounded P (a * b) (fmul F a b))
     \<and> (\<forall>a b. b \<noteq> 0 \<longrightarrow> rounded P (a / b) (fdiv F a b)) \<and> (\<forall>a. rounded P a (flit F a))
     \<and> (\<forall>p a b. fmac F p a b = fadd F p (fmul F a b) \<or> rounded P (p + a * b) (fmac F p a b))
     \<and> (\<forall>p. summed P 31 (\<Sum>l < 32. \<bar>p l\<bar> + kappa P) (\<Sum>l < 32. p l) (fsimd F p))
     \<and> (\<forall>r w n. summed P (n + 1) (\<Sum>d < n. \<bar>r d * w d\<bar> + 2 * kappa P) (\<Sum>d < n. r d * w d) (fmatmul F r w n))"

text \<open>The exponential of a difference, with relative error \<open>theta\<close> while the difference is at most \<open>R\<close>.\<close>

definition exp_law :: "real \<Rightarrow> real \<Rightarrow> FloatOps \<Rightarrow> bool" where
  "exp_law R theta F \<longleftrightarrow> (\<forall>a b. a \<le> b \<and> b - a \<le> R \<longrightarrow> \<bar>fexp F (fsub F a b) - exp (a - b)\<bar> \<le> theta * exp (a - b))"

lemma float_lawD:
  assumes "float_law P F"
  shows "precision_ok P" "rounded P (a + b) (fadd F a b)" "rounded P (a * b) (fmul F a b)"
    "b \<noteq> 0 \<Longrightarrow> rounded P (a / b) (fdiv F a b)" "rounded P a (flit F a)"
    "fmac F p a b = fadd F p (fmul F a b) \<or> rounded P (p + a * b) (fmac F p a b)"
    "summed P 31 (\<Sum>l < 32. \<bar>q l\<bar> + kappa P) (\<Sum>l < 32. q l) (fsimd F q)"
    "summed P (n + 1) (\<Sum>d < n. \<bar>r d * w d\<bar> + 2 * kappa P) (\<Sum>d < n. r d * w d) (fmatmul F r w n)"
  using assms unfolding float_law_def by blast+

lemma precision_okD:
  "precision_ok P \<Longrightarrow> 0 \<le> u P" "precision_ok P \<Longrightarrow> u P \<le> 1 / 1000" "precision_ok P \<Longrightarrow> 0 \<le> kappa P"
  "precision_ok P \<Longrightarrow> kappa P \<le> 1 / 10 ^ 20" "precision_ok P \<Longrightarrow> 1000 \<le> omega P"
  by (simp_all add: precision_ok_def)

section \<open>Growth of errors\<close>

lemma growth_facts:
  assumes "precision_ok P"
  shows "1 \<le> growth P n" "m \<le> n \<Longrightarrow> growth P m \<le> growth P n" "growth P (Suc n) = (1 + u P) * growth P n"
    "growth P (m + n) = growth P m * growth P n"
  using precision_okD(1) [OF assms] by (simp_all add: growth_def power_increasing power_add)

lemma growth_mult_mono:
  assumes "precision_ok P" "m \<le> n" "A \<le> B" "0 \<le> A"
  shows "growth P m * A \<le> growth P n * B"
  using growth_facts(1) [OF assms(1), of n] growth_facts(2) [OF assms(1,2)] assms(3,4) by (intro mult_mono) auto

lemma summed_size:
  assumes "\<bar>y - x\<bar> \<le> (growth P n - 1) * A" "\<bar>x\<bar> \<le> A"
  shows "\<bar>y\<bar> \<le> growth P n * A"
  using assms by (simp add: left_diff_distrib)

lemma summed_weaken:
  assumes "precision_ok P" "summed P m A x y" "m \<le> n" "A \<le> B" "0 \<le> A" "growth P n * B \<le> omega P"
  shows "\<bar>y - x\<bar> \<le> (growth P n - 1) * B"
proof -
  note g = growth_facts [OF assms(1)]
  have "\<bar>y - x\<bar> \<le> (growth P m - 1) * A" using assms(2,6) growth_mult_mono [OF assms(1,3,4,5)] by (simp add: summed_def)
  also have "\<dots> \<le> (growth P n - 1) * B" using g(1) [of m] g(2) [OF assms(3)] assms(4,5) by (intro mult_mono) auto
  finally show ?thesis .
qed

text \<open>One more rounded addition.\<close>

lemma add_error:
  assumes P: "precision_ok P" and r: "rounded P (p + t) y"
    and p: "\<bar>p - e\<bar> \<le> (growth P m - 1) * A" "\<bar>e\<bar> \<le> A" and t: "\<bar>t - t0\<bar> \<le> (growth P m - 1) * B" "\<bar>t0\<bar> \<le> B"
    and om: "growth P m * (A + B + kappa P) \<le> omega P"
  shows "\<bar>y - (e + t0)\<bar> \<le> (growth P (Suc m) - 1) * (A + B + kappa P)" "\<bar>e + t0\<bar> \<le> A + B + kappa P"
proof -
  let ?g = "growth P m"
  note P' = precision_okD [OF P]
  have g: "1 \<le> ?g" using growth_facts [OF P] by simp
  have k: "0 \<le> kappa P" "kappa P \<le> ?g * kappa P" using P'(3) mult_right_mono [OF g P'(3)] by simp_all
  have s: "\<bar>p + t\<bar> \<le> ?g * (A + B)" using summed_size [OF p] summed_size [OF t] by (simp add: distrib_left)
  then have "\<bar>p + t\<bar> + kappa P \<le> ?g * (A + B + kappa P)" using k(2) by (simp add: distrib_left)
  then have "\<bar>y - (p + t)\<bar> \<le> u P * (?g * (A + B + kappa P))"
    using r om k(1) P'(1) by (simp add: rounded_def) (meson mult_left_mono order_trans)
  moreover have "\<bar>(p + t) - (e + t0)\<bar> \<le> (?g - 1) * (A + B)" using p(1) t(1) by (simp add: distrib_left)
  moreover have "(?g - 1) * (A + B) \<le> (?g - 1) * (A + B + kappa P)" using g k(1) by (intro mult_left_mono) simp_all
  moreover have "\<bar>y - (e + t0)\<bar> \<le> \<bar>y - (p + t)\<bar> + \<bar>(p + t) - (e + t0)\<bar>" by linarith
  ultimately have "\<bar>y - (e + t0)\<bar> \<le> u P * (?g * (A + B + kappa P)) + (?g - 1) * (A + B + kappa P)" by linarith
  also have "\<dots> = (growth P (Suc m) - 1) * (A + B + kappa P)" by (simp add: growth_facts(3) [OF P] algebra_simps)
  finally show "\<bar>y - (e + t0)\<bar> \<le> (growth P (Suc m) - 1) * (A + B + kappa P)" .
  show "\<bar>e + t0\<bar> \<le> A + B + kappa P" using p(2) t(2) k(1) by linarith
qed


text \<open>A multiplication with an addition, contracted or not.\<close>

lemma fmac_error:
  assumes F: "float_law P F" and p: "\<bar>p - e\<bar> \<le> (growth P m - 1) * A" "\<bar>e\<bar> \<le> A" "0 < m"
    and om: "growth P (Suc m) * (A + (\<bar>a * b\<bar> + 2 * kappa P)) \<le> omega P"
  shows "\<bar>fmac F p a b - (e + a * b)\<bar> \<le> (growth P (Suc m) - 1) * (A + (\<bar>a * b\<bar> + 2 * kappa P))"
    "\<bar>e + a * b\<bar> \<le> A + (\<bar>a * b\<bar> + 2 * kappa P)"
proof -
  note P = float_lawD(1) [OF F] and k = precision_okD(3) [OF float_lawD(1) [OF F]]
  let ?A = "A + (\<bar>a * b\<bar> + 2 * kappa P)"
  have g: "1 \<le> growth P m" "growth P m \<le> growth P (Suc m)" "1 \<le> growth P (Suc m)" 
    by (rule growth_facts [OF P], rule growth_facts(2) [OF P], simp, rule growth_facts(1) [OF P])
  have A: "0 \<le> A" "0 \<le> ?A" using p(2) k by simp_all
  have om': "growth P m * ?A \<le> omega P" using om mult_right_mono [OF g(2) A(2)] by linarith
  show "\<bar>e + a * b\<bar> \<le> ?A" using p(2) k by linarith
  show "\<bar>fmac F p a b - (e + a * b)\<bar> \<le> (growth P (Suc m) - 1) * ?A"
    using float_lawD(6) [OF F, of p a b]
  proof
    assume r: "rounded P (p + a * b) (fmac F p a b)"
    have "growth P m * (A + \<bar>a * b\<bar> + kappa P) \<le> omega P"
      using om' k g(1) by (smt (verit) mult_left_mono)
    then have "\<bar>fmac F p a b - (e + a * b)\<bar> \<le> (growth P (Suc m) - 1) * (A + \<bar>a * b\<bar> + kappa P)"
      using g(1) by (intro add_error(1) [OF P r p(1,2)]) simp_all
    also have "\<dots> \<le> (growth P (Suc m) - 1) * ?A" using g(3) k by (intro mult_left_mono) simp_all
    finally show ?thesis .
  next
    assume f: "fmac F p a b = fadd F p (fmul F a b)"
    have "\<bar>a * b\<bar> \<le> ?A" "?A \<le> growth P m * ?A" using A k mult_right_mono [OF g(1) A(2)] by simp_all
    then have "\<bar>fmul F a b - a * b\<bar> \<le> u P * (\<bar>a * b\<bar> + kappa P)" using float_lawD(3) [OF F, of a b] om' unfolding rounded_def by linarith
    also have "\<dots> \<le> (growth P m - 1) * (\<bar>a * b\<bar> + kappa P)"
    proof (rule mult_right_mono)
      have "growth P 1 \<le> growth P m" using p(3) growth_facts(2) [OF P, of 1 m] by simp
      then show "u P \<le> growth P m - 1" by (simp add: growth_def)
    qed (use k in simp)
    finally have t: "\<bar>fmul F a b - a * b\<bar> \<le> (growth P m - 1) * (\<bar>a * b\<bar> + kappa P)" .
    have "\<bar>fadd F p (fmul F a b) - (e + a * b)\<bar> \<le> (growth P (Suc m) - 1) * (A + (\<bar>a * b\<bar> + kappa P) + kappa P)"
      using om' k by (intro add_error(1) [OF P float_lawD(2) [OF F] p(1,2) t]) (simp_all add: add.assoc)
    then show ?thesis by (simp add: f add.assoc)
  qed
qed

lemma dot_error_from:
  assumes F: "float_law P F" and p: "\<bar>p - e\<bar> \<le> (growth P m - 1) * A" "\<bar>e\<bar> \<le> A" "0 < m"
    and om: "growth P (m + length ds) * (A + (\<Sum>d\<leftarrow>ds. \<bar>r d * w d\<bar> + 2 * kappa P)) \<le> omega P"
  shows "\<bar>foldl (\<lambda>p d. fmac F p (r d) (w d)) p ds - (e + (\<Sum>d\<leftarrow>ds. r d * w d))\<bar>
     \<le> (growth P (m + length ds) - 1) * (A + (\<Sum>d\<leftarrow>ds. \<bar>r d * w d\<bar> + 2 * kappa P))"
  using p om
proof (induction ds arbitrary: p e A m)
  case (Cons d ds)
  note P = float_lawD(1) [OF F] and k = precision_okD(3) [OF float_lawD(1) [OF F]]
  let ?A = "A + (\<bar>r d * w d\<bar> + 2 * kappa P)" and ?S = "\<Sum>d\<leftarrow>ds. \<bar>r d * w d\<bar> + 2 * kappa P"
  have S: "0 \<le> ?S" "0 \<le> ?A" using k Cons.prems(2) by (auto intro!: sum_list_nonneg)
  have om: "growth P (Suc m + length ds) * (?A + ?S) \<le> omega P" using Cons.prems(4) by (simp add: add.assoc)
  have "growth P (Suc m) * ?A \<le> growth P (Suc m + length ds) * (?A + ?S)"
    using S by (intro growth_mult_mono [OF P]) simp_all
  then have "growth P (Suc m) * ?A \<le> omega P" using om by linarith
  note step = fmac_error [OF F Cons.prems(1,2,3) this]
  show ?case using Cons.IH [OF step _ om] by (simp add: add.assoc)
qed simp

lemma dot_error:
  assumes "float_law P F"
  shows "summed P (length ds + 1) (\<Sum>d\<leftarrow>ds. \<bar>r d * w d\<bar> + 2 * kappa P) (\<Sum>d\<leftarrow>ds. r d * w d)
     (foldl (\<lambda>p d. fmac F p (r d) (w d)) 0 ds)"
  using dot_error_from [OF assms, of 0 0 1 0 ds r w] by (simp add: summed_def)

lemma sum_error_from:
  assumes F: "float_law P F" and p: "\<bar>p - e\<bar> \<le> (growth P m - 1) * A" "\<bar>e\<bar> \<le> A"
    and om: "growth P (m + length xs) * (A + (\<Sum>x\<leftarrow>xs. \<bar>x\<bar> + kappa P)) \<le> omega P"
  shows "\<bar>foldl (fadd F) p xs - (e + sum_list xs)\<bar> \<le> (growth P (m + length xs) - 1) * (A + (\<Sum>x\<leftarrow>xs. \<bar>x\<bar> + kappa P))"
  using p om
proof (induction xs arbitrary: p e A m)
  case (Cons x xs)
  note P = float_lawD(1) [OF F] and k = precision_okD(3) [OF float_lawD(1) [OF F]]
  let ?A = "A + \<bar>x\<bar> + kappa P" and ?S = "\<Sum>x\<leftarrow>xs. \<bar>x\<bar> + kappa P"
  have S: "0 \<le> ?S" "0 \<le> ?A" using k Cons.prems(2) by (auto intro!: sum_list_nonneg)
  have om: "growth P (Suc m + length xs) * (?A + ?S) \<le> omega P" using Cons.prems(3) by (simp add: add.assoc)
  have "growth P m * ?A \<le> growth P (Suc m + length xs) * (?A + ?S)"
    using S by (intro growth_mult_mono [OF P]) simp_all
  then have "growth P m * ?A \<le> omega P" using om by linarith
  moreover have "\<bar>x - x\<bar> \<le> (growth P m - 1) * \<bar>x\<bar>" using growth_facts(1) [OF P, of m] by simp
  ultimately have step: "\<bar>fadd F p x - (e + x)\<bar> \<le> (growth P (Suc m) - 1) * ?A" "\<bar>e + x\<bar> \<le> ?A"
    using add_error [OF P float_lawD(2) [OF F] Cons.prems(1,2), of x x "\<bar>x\<bar>"] by simp_all
  show ?case using Cons.IH [OF step om] by (simp add: add.assoc)
qed simp

lemma sum_error:
  assumes "float_law P F"
  shows "summed P (length xs) (\<Sum>x\<leftarrow>xs. \<bar>x\<bar> + kappa P) (sum_list xs) (foldl (fadd F) 0 xs)"
  using sum_error_from [OF assms, of 0 0 0 0 xs] by (simp add: summed_def growth_def)


section \<open>An instance\<close>

text \<open>The precision of single floats with subnormal numbers flushed, and an arithmetic that rounds everything up by one unit.\<close>

definition single :: precision where
  "single = \<lparr>u = 1 / 2 ^ 24, kappa = 1 / 2 ^ 102, omega = 2 ^ 127\<rparr>"

definition up :: "real \<Rightarrow> real" where
  "up x = (1 + 1 / 2 ^ 24) * x"

definition upwards_ops :: FloatOps where
  "upwards_ops = \<lparr>fadd = (\<lambda>a b. up (a + b)), fsub = (\<lambda>a b. a - b), fmul = (\<lambda>a b. up (a * b)), fdiv = (\<lambda>a b. up (a / b)),
     fmac = (\<lambda>p a b. up (p + up (a * b))), fexp = (\<lambda>x. up (exp x)), flit = up,
     fsimd = (\<lambda>p. up (\<Sum>l < 32. p l)), fmatmul = (\<lambda>r w n. up (\<Sum>d < n. r d * w d))\<rparr>"

lemma single_ok: "precision_ok single" by (simp add: precision_ok_def single_def)

lemma up_error: "\<bar>up x - x\<bar> = u single * \<bar>x\<bar>"
proof -
  have "up x - x = u single * x" by (simp add: up_def single_def distrib_right)
  then show ?thesis using precision_okD(1) [OF single_ok] by (simp add: abs_mult)
qed

lemma up_rounded: "rounded single x (up x)"
  unfolding rounded_def up_error using precision_okD(1,3) [OF single_ok] by (intro impI mult_left_mono) simp_all

lemma up_summed:
  assumes "\<bar>x\<bar> \<le> A" "0 < n"
  shows "summed single n A x (up x)"
proof -
  have "growth single 1 \<le> growth single n" using assms(2) growth_facts(2) [OF single_ok, of 1 n] by simp
  then have "u single \<le> growth single n - 1" by (simp add: growth_def)
  then show ?thesis unfolding summed_def up_error using assms(1) precision_okD(1) [OF single_ok] by (intro impI mult_mono) simp_all
qed

lemma upwards_law: "float_law single upwards_ops"
proof -
  have s: "summed single n (\<Sum>l \<in> A. \<bar>f l\<bar> + c) (\<Sum>l \<in> A. f l) (up (\<Sum>l \<in> A. f l))" if "0 \<le> c" "0 < n"
    for A :: "nat set" and f :: "nat \<Rightarrow> real" and c n
  proof (rule up_summed [OF _ that(2)])
    show "\<bar>\<Sum>l \<in> A. f l\<bar> \<le> (\<Sum>l \<in> A. \<bar>f l\<bar> + c)" by (rule order_trans [OF sum_abs], rule sum_mono) (use that in simp)
  qed
  show ?thesis unfolding float_law_def
    by (intro conjI allI impI) (simp_all add: upwards_ops_def up_rounded single_ok s precision_okD(3) [OF single_ok])
qed

lemma upwards_exp_law: "exp_law R (u single) upwards_ops"
  by (simp add: exp_law_def upwards_ops_def up_error)

end
