(* ===== verification/Weight_Cache.thy ===== *)
theory Weight_Cache
  imports Prelude
begin

text \<open>
  Arrays and the cache of transposed weights (\<open>_get_transposed_weight\<close> of \<open>src/kernels/fused_gating_metal.py\<close>, used the
  same way in \<open>src/kernels/quantized_gemm.py\<close>). A Python object has an identity (\<open>is\<close>) and an address (\<open>id\<close>). Nothing is
  assumed about addresses: two objects may share one, as when the first is dead. Nothing under \<open>src\<close> assigns to an array
  in place, so that an object always has the same contents (\<open>same_objects\<close>).
\<close>

section \<open>Model\<close>

record 'a mx_array =
  identity :: nat
  address :: nat
  shape :: "nat \<times> nat"
  entry :: "nat \<Rightarrow> nat \<Rightarrow> 'a"

type_synonym 'a weight_cache = "nat \<rightharpoonup> 'a mx_array \<times> 'a list"

text \<open>The contiguous copy of the transposed matrix: entry \<open>(d, e)\<close> is at \<open>e * rows + d\<close>.\<close>

definition transposed :: "'a mx_array \<Rightarrow> 'a list" where
  "transposed w = (let (rows, cols) = shape w in map (\<lambda>i. entry w (i mod rows) (i div rows)) [0..<cols * rows])"

definition get_transposed_weight :: "'a weight_cache \<Rightarrow> 'a mx_array \<Rightarrow> 'a list \<times> 'a weight_cache" where
  "get_transposed_weight cache w =
     (let key = address w; w_t = transposed w; miss = (w_t, cache(key \<mapsto> (w, w_t)))
      in case cache key of
           None \<Rightarrow> miss
         | Some (w0, w0_t) \<Rightarrow> if identity w0 = identity w then (w0_t, cache) else miss)"

text \<open>The cache after it was used for the arrays \<open>ws\<close>, in this order.\<close>

definition cache_after :: "'a mx_array list \<Rightarrow> 'a weight_cache" where
  "cache_after ws = foldl (\<lambda>cache w. snd (get_transposed_weight cache w)) Map.empty ws"

definition same_objects :: "'a mx_array set \<Rightarrow> bool" where
  "same_objects ws \<longleftrightarrow> (\<forall>v \<in> ws. \<forall>w \<in> ws. identity v = identity w \<longrightarrow> v = w)"

section \<open>What the cache returns\<close>

lemma cache_after_entry: "cache_after ws key = Some (w, w_t) \<Longrightarrow> w \<in> set ws \<and> w_t = transposed w"
proof (induction ws rule: rev_induct)
  case (snoc v ws)
  then show ?case
    by (auto simp: cache_after_def get_transposed_weight_def Let_def split: option.splits if_splits)
qed (simp add: cache_after_def)

lemma cached_weight:
  assumes "same_objects (insert w (set ws))"
  shows "get_transposed_weight (cache_after ws) w = (transposed w, cache_after (ws @ [w]))"
proof -
  have "fst (get_transposed_weight (cache_after ws) w) = transposed w"
  proof (cases "cache_after ws (address w)")
    case None
    then show ?thesis by (simp add: get_transposed_weight_def Let_def)
  next
    case (Some e)
    then obtain w0 w0_t where e: "cache_after ws (address w) = Some (w0, w0_t)" by (cases e) auto
    then have "w0 \<in> set ws" "w0_t = transposed w0" using cache_after_entry by auto
    then show ?thesis using e assms by (auto simp: get_transposed_weight_def Let_def same_objects_def)
  qed
  then show ?thesis by (simp add: cache_after_def prod_eq_iff)
qed

lemma transposed_nth:
  assumes "shape w = (D, E)" "d < D" "e < E"
  shows "transposed w ! (e * D + d) = entry w d e"
proof -
  have "e * D + d < Suc e * D" using assms(2) by simp
  also have "\<dots> \<le> E * D" using assms(3) by (intro mult_right_mono) simp_all
  finally show ?thesis using assms by (simp add: transposed_def)
qed

lemma length_transposed: "shape w = (D, E) \<Longrightarrow> length (transposed w) = E * D"
  by (simp add: transposed_def)

end
