(* ===== verification/Gating.thy ===== *)
theory Gating
  imports Float_Rounding Weight_Cache
begin

text \<open>
  The gating of tokens to experts: the fused Metal kernel with its host function (\<open>src/kernels/fused_gating_metal.py\<close>)
  and the reference built from library operations (\<open>src/kernels/reference_gating.py\<close>), in float arithmetic
  (\<open>Float_Rounding\<close>). The arguments are arrays of floats as the doc strings ask for, so that the conversions to \<open>float32\<close>
  change nothing. The library's \<open>argsort\<close> and \<open>softmax\<close> are parameters. \<open>-INFINITY\<close>, which the kernel uses as a mark,
  is \<open>None\<close>. The weights come from the cache (\<open>Weight_Cache\<close>); the compiled kernel and the arrays holding the three
  sizes, which are cached by value, are computed again. \<open>k\<close> is not negative.
\<close>

section \<open>The kernel\<close>

definition MAX_EXPERTS :: nat where "MAX_EXPERTS = 256"
definition MAX_TOPK :: nat where "MAX_TOPK = 64"
definition SIMDGROUPS_PER_TG :: nat where "SIMDGROUPS_PER_TG = 8"

text \<open>The values of a loop \<open>for (uint d = start; d < bound; d += stride)\<close>; the bounds are far from \<open>2^32\<close>.\<close>

function strided :: "nat \<Rightarrow> nat \<Rightarrow> nat \<Rightarrow> nat list" where
  "strided stride start bound = (if start < bound \<and> 0 < stride then start # strided stride (start + stride) bound else [])"
  by auto
termination by (relation "measure (\<lambda>(stride, start, bound). bound - start)") auto

declare strided.simps [simp del]

text \<open>What a lane of a SIMD group adds up, and the logit of an expert: the sum over the lanes and the bias.\<close>

definition lane_partial :: "FloatOps \<Rightarrow> (nat \<Rightarrow> real) \<Rightarrow> (nat \<Rightarrow> real) \<Rightarrow> nat \<Rightarrow> nat \<Rightarrow> real" where
  "lane_partial F row weight D lane = foldl (\<lambda>partial d. fmac F partial (row d) (weight d)) 0 (strided 32 lane D)"

definition kernel_logit :: "FloatOps \<Rightarrow> (nat \<Rightarrow> real) \<Rightarrow> real list \<Rightarrow> real list \<Rightarrow> nat \<Rightarrow> nat \<Rightarrow> real" where
  "kernel_logit F row gate_weight gate_bias D e =
     fadd F (fsimd F (lane_partial F row (\<lambda>d. gate_weight ! (e * D + d)) D)) (gate_bias ! e)"

text \<open>The projection: SIMD group \<open>sg\<close> writes the logits of its experts. The groups may run in any order \<open>sgs\<close>.\<close>

definition project_group :: "FloatOps \<Rightarrow> (nat \<Rightarrow> real) \<Rightarrow> real list \<Rightarrow> real list \<Rightarrow> nat \<Rightarrow> nat \<Rightarrow> real list \<Rightarrow> nat \<Rightarrow> real list" where
  "project_group F row gate_weight gate_bias D E logits sg =
     foldl (\<lambda>logits e. logits[e := kernel_logit F row gate_weight gate_bias D e]) logits (strided SIMDGROUPS_PER_TG sg E)"

definition project :: "FloatOps \<Rightarrow> nat list \<Rightarrow> (nat \<Rightarrow> real) \<Rightarrow> real list \<Rightarrow> real list \<Rightarrow> nat \<Rightarrow> nat \<Rightarrow> real list \<Rightarrow> real list" where
  "project F sgs row gate_weight gate_bias D E logits0 = foldl (project_group F row gate_weight gate_bias D E) logits0 sgs"

text \<open>\<open>local_logits[e] > best_val\<close>, and one scan for the largest value.\<close>

fun greater :: "real option \<Rightarrow> real option \<Rightarrow> bool" where
  "greater (Some x) (Some y) \<longleftrightarrow> x > y"
| "greater (Some x) None \<longleftrightarrow> True"
| "greater None y \<longleftrightarrow> False"

fun scan_best :: "real option list \<Rightarrow> nat \<Rightarrow> real option \<times> int \<Rightarrow> real option \<times> int" where
  "scan_best [] e best = best"
| "scan_best (x # xs) e (best_val, best_idx) = scan_best xs (Suc e) (if greater x best_val then (x, int e) else (best_val, best_idx))"

text \<open>The selection loop; writing at index \<open>-1\<close> is undefined.\<close>

fun topk_loop :: "nat \<Rightarrow> real option list \<Rightarrow> (real option \<times> nat) list \<Rightarrow> cpp_exn + (real option \<times> nat) list" where
  "topk_loop 0 local_logits topk = Inr topk"
| "topk_loop (Suc K) local_logits topk =
     (case scan_best local_logits 0 (None, - 1) of (best_val, best_idx) \<Rightarrow>
        if best_idx < 0 then Inl UndefinedBehaviour
        else topk_loop K (local_logits[nat best_idx := None]) (topk @ [(best_val, nat best_idx)]))"

text \<open>The softmax tail, over finite values.\<close>

definition softmax_tail :: "FloatOps \<Rightarrow> real list \<Rightarrow> real list" where
  "softmax_tail F vals =
     (let max_val = hd vals; exp_vals = map (\<lambda>v. fexp F (fsub F v max_val)) vals;
          sum_exp = foldl (fadd F) 0 exp_vals
      in map (\<lambda>x. fdiv F x sum_exp) exp_vals)"

text \<open>A threadgroup. It reads the weights up to index \<open>E * D - 1\<close> and \<open>E\<close> entries of the bias; outside of the buffers that is
  undefined.\<close>

definition gating_kernel ::
    "FloatOps \<Rightarrow> nat list \<Rightarrow> (nat \<Rightarrow> real) \<Rightarrow> real list \<Rightarrow> real list \<Rightarrow> nat \<Rightarrow> nat \<Rightarrow> nat \<Rightarrow> real list \<Rightarrow> cpp_exn + nat list \<times> real list" where
  "gating_kernel F sgs row gate_weight gate_bias D E K logits0 =
     (if length gate_weight < E * D \<or> length gate_bias < E then Inl UndefinedBehaviour
      else let logits = project F sgs row gate_weight gate_bias D E logits0
           in case topk_loop K (map Some (take E logits)) [] of
                Inl e \<Rightarrow> Inl e
              | Inr topk \<Rightarrow> Inr (map snd topk, softmax_tail F (map (\<lambda>(v, _). the v) topk)))"

text \<open>The host function: its checks, the transposed weights, and one threadgroup per token. The first dimension of the
  weights is not checked. \<open>logits0\<close> is what threadgroup memory holds at the start.\<close>

definition fused_gating ::
    "FloatOps \<Rightarrow> (nat \<Rightarrow> nat list) \<Rightarrow> real list \<Rightarrow> real weight_cache \<Rightarrow> real mx_array \<Rightarrow> real mx_array \<Rightarrow> real list \<Rightarrow> nat
       \<Rightarrow> cpp_exn + (cpp_exn + nat list \<times> real list) list \<times> real weight_cache" where
  "fused_gating F sgs logits0 cache hidden gate_weight gate_bias k =
     (let (n_tokens, d_model) = shape hidden; num_experts = snd (shape gate_weight)
      in if num_experts > MAX_EXPERTS then Inl (InvalidArgument ''num_experts'')
         else if k > MAX_TOPK \<or> k > num_experts then Inl (InvalidArgument ''k'')
         else let (gate_weight_t, cache') = get_transposed_weight cache gate_weight
              in Inr (map (\<lambda>t. gating_kernel F (sgs t) (entry hidden t) gate_weight_t gate_bias d_model num_experts k logits0) [0..<n_tokens], cache'))"

section \<open>The reference\<close>

definition reference_logits :: "FloatOps \<Rightarrow> (nat \<Rightarrow> real) \<Rightarrow> real mx_array \<Rightarrow> real list \<Rightarrow> real list" where
  "reference_logits F row gate_weight gate_bias =
     (let (D, E) = shape gate_weight in map (\<lambda>e. fadd F (fmatmul F row (\<lambda>d. entry gate_weight d e) D) (gate_bias ! e)) [0..<E])"

text \<open>A matrix product of shapes that do not fit raises.\<close>

definition reference_gating ::
    "FloatOps \<Rightarrow> (real list \<Rightarrow> nat list) \<Rightarrow> (real list \<Rightarrow> real list) \<Rightarrow> real mx_array \<Rightarrow> real mx_array \<Rightarrow> real list \<Rightarrow> nat
       \<Rightarrow> cpp_exn + (nat list \<times> real list) list" where
  "reference_gating F argsort softmax hidden gate_weight gate_bias k =
     (if snd (shape hidden) \<noteq> fst (shape gate_weight) then Inl (InvalidArgument ''matmul'')
      else Inr (map (\<lambda>t.
             let logits = reference_logits F (entry hidden t) gate_weight gate_bias;
                 order = argsort (map uminus logits);
                 topk_idx = take k order;
                 topk_logits = map ((!) logits) topk_idx
             in (topk_idx, softmax topk_logits)) [0..<fst (shape hidden)]))"

text \<open>What the library documents of \<open>argsort\<close>.\<close>

definition argsort_law :: "(real list \<Rightarrow> nat list) \<Rightarrow> bool" where
  "argsort_law argsort \<longleftrightarrow> (\<forall>xs. mset (argsort xs) = mset [0..<length xs] \<and> sorted (map ((!) xs) (argsort xs)))"

text \<open>The logit in exact arithmetic, and the size that errors are relative to.\<close>

definition exact_logit :: "(nat \<Rightarrow> real) \<Rightarrow> real mx_array \<Rightarrow> real list \<Rightarrow> nat \<Rightarrow> real" where
  "exact_logit row gate_weight gate_bias e = (\<Sum>d < fst (shape gate_weight). row d * entry gate_weight d e) + gate_bias ! e"

definition logit_mass :: "precision \<Rightarrow> (nat \<Rightarrow> real) \<Rightarrow> real mx_array \<Rightarrow> real list \<Rightarrow> nat \<Rightarrow> real" where
  "logit_mass P row gate_weight gate_bias e =
     (\<Sum>d < fst (shape gate_weight). \<bar>row d * entry gate_weight d e\<bar> + 2 * kappa P) + \<bar>gate_bias ! e\<bar> + 33 * kappa P"

section \<open>The projection\<close>

lemma strided_facts: "0 < s \<Longrightarrow> set (strided s a b) = {d. a \<le> d \<and> d < b \<and> d mod s = a mod s} \<and> distinct (strided s a b)"
proof (induction s a b rule: strided.induct)
  case (1 s a b)
  show ?case
  proof (cases "a < b")
    case True
    have "a + s \<le> d" if "a \<le> d" "d mod s = a mod s" "d \<noteq> a" for d
    proof -
      have "s dvd d - a" using that(1,2) by (metis mod_eq_dvd_iff_nat)
      then have "s \<le> d - a" using that(1,3) by (intro dvd_imp_le) simp_all
      then show ?thesis using that(1) by simp
    qed
    then have "{d. a \<le> d \<and> d < b \<and> d mod s = a mod s} = insert a {d. a + s \<le> d \<and> d < b \<and> d mod s = (a + s) mod s}"
      using True by auto
    then show ?thesis using 1 True by (simp add: strided.simps [of s a b])
  next
    case False
    then show ?thesis by (simp add: strided.simps [of s a b])
  qed
qed

lemma length_strided: "0 < s \<Longrightarrow> length (strided s a b) \<le> (b - a) div s + 1"
proof (induction s a b rule: strided.induct)
  case (1 s a b)
  show ?case
  proof (cases "a < b")
    case True
    then have IH: "length (strided s a b) \<le> 1 + length (strided s (a + s) b)" "length (strided s (a + s) b) \<le> (b - (a + s)) div s + 1"
      using 1 by (simp_all add: strided.simps [of s a b])
    show ?thesis
    proof (cases "a + s < b")
      case True
      then have "(b - a) div s = (b - (a + s)) div s + 1" using 1(2) by (simp add: le_div_geq)
      then show ?thesis using IH by simp
    next
      case False
      then have "strided s (a + s) b = []" by (simp add: strided.simps [of s "a + s" b])
      then show ?thesis using IH(1) by simp
    qed
  qed (simp add: strided.simps [of s a b])
qed

lemma foldl_upd:
  "length (foldl (\<lambda>l e. l[e := v e]) l0 es) = length l0"
  "i < length l0 \<Longrightarrow> foldl (\<lambda>l e. l[e := v e]) l0 es ! i = (if i \<in> set es then v i else l0 ! i)"
proof -
  show len: "length (foldl (\<lambda>l e. l[e := v e]) l0 es) = length l0" for es by (induction es arbitrary: l0) simp_all
  show "i < length l0 \<Longrightarrow> foldl (\<lambda>l e. l[e := v e]) l0 es ! i = (if i \<in> set es then v i else l0 ! i)"
    by (induction es arbitrary: l0) (auto simp: nth_list_update)
qed

lemma foldl_concat: "foldl (\<lambda>l x. foldl f l (g x)) l0 xs = foldl f l0 (concat (map g xs))"
  by (induction xs arbitrary: l0) simp_all

text \<open>Between them, the SIMD groups handle every expert.\<close>

lemma strided_cover:
  assumes "set sgs = {..<SIMDGROUPS_PER_TG}" "e < E"
  shows "e \<in> set (concat (map (\<lambda>sg. strided SIMDGROUPS_PER_TG sg E) sgs))"
proof -
  have "e mod SIMDGROUPS_PER_TG \<in> set sgs" using assms(1) by (simp add: SIMDGROUPS_PER_TG_def)
  moreover have "e \<in> set (strided SIMDGROUPS_PER_TG (e mod SIMDGROUPS_PER_TG) E)"
    using strided_facts [of SIMDGROUPS_PER_TG "e mod SIMDGROUPS_PER_TG" E] assms(2) by (simp add: SIMDGROUPS_PER_TG_def)
  ultimately show ?thesis by auto
qed

text \<open>A SIMD group computes a dot product: 32 lanes, then their sum.\<close>

lemma lane_sums:
  fixes f :: "nat \<Rightarrow> real"
  shows "(\<Sum>lane < 32. \<Sum>d\<leftarrow>strided 32 lane D. f d) = (\<Sum>d < D. f d)"
proof -
  have "(\<Sum>d\<leftarrow>strided 32 lane D. f d) = (\<Sum>d \<in> {d \<in> {..<D}. d mod 32 = lane}. f d)" if "lane < 32" for lane
  proof -
    have "set (strided 32 lane D) = {d \<in> {..<D}. d mod 32 = lane}" "distinct (strided 32 lane D)"
      using strided_facts [of 32 lane D] that by (auto intro: order.trans [OF mod_less_eq_dividend])
    then show ?thesis by (simp add: sum_list_distinct_conv_sum_set)
  qed
  then have "(\<Sum>lane < 32. \<Sum>d\<leftarrow>strided 32 lane D. f d) = (\<Sum>lane < 32. \<Sum>d \<in> {d \<in> {..<D}. d mod 32 = lane}. f d)"
    by (intro sum.cong) simp_all
  also have "\<dots> = (\<Sum>d < D. f d)" by (intro sum.group) auto
  finally show ?thesis .
qed

definition lane_mass :: "precision \<Rightarrow> (nat \<Rightarrow> real) \<Rightarrow> (nat \<Rightarrow> real) \<Rightarrow> nat \<Rightarrow> nat \<Rightarrow> real" where
  "lane_mass P row w D l = (\<Sum>d\<leftarrow>strided 32 l D. \<bar>row d * w d\<bar> + 2 * kappa P)"

lemma lane_mass_facts:
  assumes "precision_ok P"
  shows "0 \<le> lane_mass P row w D l" "(\<Sum>l < 32. lane_mass P row w D l) = (\<Sum>d < D. \<bar>row d * w d\<bar> + 2 * kappa P)"
    "l < 32 \<Longrightarrow> lane_mass P row w D l \<le> (\<Sum>d < D. \<bar>row d * w d\<bar> + 2 * kappa P)"
proof -
  show pos: "0 \<le> lane_mass P row w D l" for l using precision_okD(3) [OF assms] by (auto simp: lane_mass_def intro!: sum_list_nonneg)
  show sums: "(\<Sum>l < 32. lane_mass P row w D l) = (\<Sum>d < D. \<bar>row d * w d\<bar> + 2 * kappa P)" unfolding lane_mass_def by (rule lane_sums)
  show "l < 32 \<Longrightarrow> lane_mass P row w D l \<le> (\<Sum>d < D. \<bar>row d * w d\<bar> + 2 * kappa P)"
    using sum_mono2 [of "{..<32}" "{l}" "lane_mass P row w D"] pos by (simp add: sums [symmetric])
qed

lemma lane_error:
  assumes F: "float_law P F" and l: "l < 32" and om: "growth P (D div 32 + 2) * (\<Sum>d < D. \<bar>row d * w d\<bar> + 2 * kappa P) \<le> omega P"
  shows "\<bar>lane_partial F row w D l - (\<Sum>d\<leftarrow>strided 32 l D. row d * w d)\<bar> \<le> (growth P (D div 32 + 2) - 1) * lane_mass P row w D l" (is ?err)
    "\<bar>lane_partial F row w D l\<bar> \<le> growth P (D div 32 + 2) * lane_mass P row w D l"
proof -
  note P = float_lawD(1) [OF F]
  note A = lane_mass_facts(1) [OF P, of row w D l] lane_mass_facts(3) [OF P l, of row w D]
  have "(D - l) div 32 \<le> D div 32" by (intro div_le_mono) simp
  then have "length (strided 32 l D) + 1 \<le> D div 32 + 2" using length_strided [of 32 l D] by simp
  moreover have "growth P (D div 32 + 2) * lane_mass P row w D l \<le> omega P"
    using growth_mult_mono [OF P order_refl A(2) A(1)] om by (rule order_trans)
  ultimately show ?err using summed_weaken [OF P dot_error [OF F] _ order_refl] A(1) unfolding lane_partial_def lane_mass_def by blast
  moreover have "\<bar>\<Sum>d\<leftarrow>strided 32 l D. row d * w d\<bar> \<le> lane_mass P row w D l" unfolding lane_mass_def
    by (rule order_trans [OF sum_list_abs], unfold map_map o_def, rule sum_list_mono) (use precision_okD(3) [OF P] in simp)
  ultimately show "\<bar>lane_partial F row w D l\<bar> \<le> growth P (D div 32 + 2) * lane_mass P row w D l" by (rule summed_size)
qed

lemma simd_dot_error:
  assumes F: "float_law P F"
  shows "summed P (D div 32 + 33) ((\<Sum>d < D. \<bar>row d * w d\<bar> + 2 * kappa P) + 32 * kappa P) (\<Sum>d < D. row d * w d)
     (fsimd F (lane_partial F row w D))"
  unfolding summed_def
proof
  note P = float_lawD(1) [OF F] and k = precision_okD(3) [OF float_lawD(1) [OF F]]
  let ?m = "D div 32 + 2" and ?p = "lane_partial F row w D" and ?S = "\<Sum>d < D. \<bar>row d * w d\<bar> + 2 * kappa P"
  let ?M = "?S + 32 * kappa P" and ?A = "lane_mass P row w D"
  assume om: "growth P (D div 32 + 33) * ?M \<le> omega P"
  have N: "growth P (D div 32 + 33) = growth P 31 * growth P ?m" using growth_facts(4) [OF P, of 31 ?m] by (simp add: add.commute)
  have S: "0 \<le> ?S" using k by (intro sum_nonneg) simp
  then have "growth P ?m * ?S \<le> omega P" using growth_mult_mono [OF P, of ?m "D div 32 + 33" ?S ?M] k om by simp
  note lane = lane_error [OF F _ this] and sums = lane_mass_facts(2) [OF P, of row w D]
  let ?Q = "\<Sum>l < 32. \<bar>?p l\<bar> + kappa P"
  have "?Q \<le> (\<Sum>l < 32. growth P ?m * ?A l + kappa P)" using lane(2) by (intro sum_mono) simp
  also have "\<dots> = growth P ?m * ?S + 32 * kappa P" by (simp add: sum.distrib sum_distrib_left [symmetric] sums)
  also have "\<dots> \<le> growth P ?m * ?M" using mult_right_mono [OF growth_facts(1) [OF P, of ?m], of "32 * kappa P"] k by (simp add: distrib_left)
  finally have Q: "?Q \<le> growth P ?m * ?M" .
  then have "growth P 31 * ?Q \<le> omega P" using om growth_facts(1) [OF P, of 31]
    by (simp add: N mult.assoc) (smt (verit) mult_left_mono)
  then have "\<bar>fsimd F ?p - (\<Sum>l < 32. ?p l)\<bar> \<le> (growth P 31 - 1) * ?Q" using float_lawD(7) [OF F, of ?p] by (simp add: summed_def)
  also have "\<dots> \<le> (growth P 31 - 1) * (growth P ?m * ?M)" using Q growth_facts(1) [OF P, of 31] by (intro mult_left_mono) simp_all
  finally have 1: "\<bar>fsimd F ?p - (\<Sum>l < 32. ?p l)\<bar> \<le> (growth P 31 - 1) * (growth P ?m * ?M)" .
  have "\<bar>(\<Sum>l < 32. ?p l) - (\<Sum>l < 32. \<Sum>d\<leftarrow>strided 32 l D. row d * w d)\<bar> \<le> (\<Sum>l < 32. (growth P ?m - 1) * ?A l)"
    unfolding sum_subtractf [symmetric] using lane(1) by (intro order_trans [OF sum_abs] sum_mono) simp
  also have "\<dots> \<le> (growth P ?m - 1) * ?M"
    using growth_facts(1) [OF P, of ?m] k by (simp add: sum_distrib_left [symmetric] sums mult_left_mono)
  finally have 2: "\<bar>(\<Sum>l < 32. ?p l) - (\<Sum>d < D. row d * w d)\<bar> \<le> (growth P ?m - 1) * ?M" by (simp only: lane_sums)
  have "\<bar>fsimd F ?p - (\<Sum>d < D. row d * w d)\<bar> \<le> (growth P 31 - 1) * (growth P ?m * ?M) + (growth P ?m - 1) * ?M" using 1 2 by linarith
  also have "\<dots> = (growth P (D div 32 + 33) - 1) * ?M" by (simp only: N left_diff_distrib mult_1_left mult.assoc add_diff_eq diff_add_cancel)
  finally show "\<bar>fsimd F ?p - (\<Sum>d < D. row d * w d)\<bar> \<le> (growth P (D div 32 + 33) - 1) * ?M" .
qed

lemma add_bias_error:
  assumes F: "float_law P F" and y: "summed P m A x y" "m \<le> n" "0 \<le> A" "A \<le> B" "\<bar>x\<bar> \<le> B"
    and om: "growth P (Suc n) * (B + \<bar>b\<bar> + kappa P) \<le> omega P"
  shows "\<bar>fadd F y b - (x + b)\<bar> \<le> (growth P (Suc n) - 1) * (B + \<bar>b\<bar> + kappa P)"
proof -
  note P = float_lawD(1) [OF F] and k = precision_okD(3) [OF float_lawD(1) [OF F]]
  have B: "0 \<le> B" using y(3,4) by simp
  have 1: "growth P n * (B + \<bar>b\<bar> + kappa P) \<le> omega P"
    using growth_mult_mono [OF P _ order_refl, of n "Suc n" "B + \<bar>b\<bar> + kappa P"] om B k by simp
  then have "growth P n * B \<le> omega P" using growth_mult_mono [OF P order_refl, of B "B + \<bar>b\<bar> + kappa P" n] B k by simp
  then have e: "\<bar>y - x\<bar> \<le> (growth P n - 1) * B" using summed_weaken [OF P y(1,2,4,3)] by simp
  show ?thesis using growth_facts(1) [OF P, of n] by (intro add_error(1) [OF P float_lawD(2) [OF F] e y(5) _ _ 1]) simp_all
qed

lemma abs_dot_le: "0 \<le> c \<Longrightarrow> \<bar>\<Sum>d < D. f d\<bar> \<le> (\<Sum>d < D. \<bar>f d\<bar> + c)" for f :: "nat \<Rightarrow> real"
  by (rule order_trans [OF sum_abs], rule sum_mono) simp

lemma kernel_logit_error:
  assumes F: "float_law P F" and W: "shape W = (D, E)" "e < E" and om: "growth P (D + 34) * logit_mass P row W bias e \<le> omega P"
  shows "\<bar>kernel_logit F row (transposed W) bias D e - exact_logit row W bias e\<bar> \<le> (growth P (D + 34) - 1) * logit_mass P row W bias e"
proof -
  let ?w = "\<lambda>d. transposed W ! (e * D + d)" and ?S = "\<Sum>d < D. \<bar>row d * entry W d e\<bar> + 2 * kappa P"
  note k = precision_okD(3) [OF float_lawD(1) [OF F]]
  have S: "0 \<le> ?S" using k by (intro sum_nonneg) simp
  have w: "(\<Sum>d < D. \<bar>row d * ?w d\<bar> + 2 * kappa P) = ?S" "(\<Sum>d < D. row d * ?w d) = (\<Sum>d < D. row d * entry W d e)"
    using transposed_nth [OF W(1) _ W(2)] by (auto intro!: sum.cong)
  have d: "summed P (D div 32 + 33) (?S + 32 * kappa P) (\<Sum>d < D. row d * entry W d e) (fsimd F (lane_partial F row ?w D))"
    using simd_dot_error [OF F, of D row ?w] by (simp only: w)
  have m: "logit_mass P row W bias e = ?S + 32 * kappa P + \<bar>bias ! e\<bar> + kappa P" using W by (simp add: logit_mass_def)
  have x: "\<bar>\<Sum>d < D. row d * entry W d e\<bar> \<le> ?S + 32 * kappa P" using abs_dot_le [of "2 * kappa P" "\<lambda>d. row d * entry W d e" D] k by simp
  have n: "Suc (D + 33) = D + 34" by simp
  show ?thesis using add_bias_error [OF F d _ _ order_refl x, of "D + 33" "bias ! e"] S k om W
    unfolding m n kernel_logit_def exact_logit_def by simp
qed

lemma reference_logit_error:
  assumes F: "float_law P F" and W: "shape W = (D, E)" "e < E" and om: "growth P (D + 34) * logit_mass P row W bias e \<le> omega P"
  shows "\<bar>reference_logits F row W bias ! e - exact_logit row W bias e\<bar> \<le> (growth P (D + 34) - 1) * logit_mass P row W bias e"
proof -
  let ?S = "\<Sum>d < D. \<bar>row d * entry W d e\<bar> + 2 * kappa P"
  note k = precision_okD(3) [OF float_lawD(1) [OF F]]
  have S: "0 \<le> ?S" using k by (intro sum_nonneg) simp
  have m: "logit_mass P row W bias e = ?S + 32 * kappa P + \<bar>bias ! e\<bar> + kappa P" using W by (simp add: logit_mass_def)
  have x: "\<bar>\<Sum>d < D. row d * entry W d e\<bar> \<le> ?S + 32 * kappa P" using abs_dot_le [of "2 * kappa P" "\<lambda>d. row d * entry W d e" D] k by simp
  have n: "Suc (D + 33) = D + 34" by simp
  show ?thesis using add_bias_error [OF F float_lawD(8) [OF F] _ S _ x, of "D + 33" "bias ! e"] k om W
    unfolding m n reference_logits_def exact_logit_def by simp
qed

text \<open>Whatever the order of the SIMD groups, and whatever the memory held.\<close>

lemma project_logits:
  assumes "set sgs = {..<SIMDGROUPS_PER_TG}" "E \<le> length logits0"
  shows "take E (project F sgs row wt bias D E logits0) = map (kernel_logit F row wt bias D) [0..<E]"
proof -
  let ?es = "concat (map (\<lambda>sg. strided SIMDGROUPS_PER_TG sg E) sgs)"
  have p: "project F sgs row wt bias D E logits0 = foldl (\<lambda>l e. l[e := kernel_logit F row wt bias D e]) logits0 ?es"
    unfolding project_def project_group_def by (simp add: foldl_concat)
  show ?thesis using assms(2) strided_cover [OF assms(1)] by (intro nth_equalityI) (simp_all add: p foldl_upd)
qed

section \<open>The selection\<close>

text \<open>\<open>sel\<close> are indices of largest values, in descending order.\<close>

definition topk_ok :: "real list \<Rightarrow> nat list \<Rightarrow> bool" where
  "topk_ok l sel \<longleftrightarrow> distinct sel \<and> set sel \<subseteq> {..<length l} \<and> sorted (map (\<lambda>i. - l ! i) sel)
     \<and> (\<forall>i \<in> set sel. \<forall>j \<in> {..<length l} - set sel. l ! j \<le> l ! i)"

text \<open>Values that differ by at most \<open>eps\<close> have ranks that differ by at most \<open>eps\<close>.\<close>

lemma topk_rank:
  assumes t: "topk_ok l sel" "topk_ok l' sel'" and len: "length l' = length l" "i < length sel" "i < length sel'"
    and eps: "\<forall>j < length l. \<bar>l ! j - l' ! j\<bar> \<le> eps"
  shows "l ! (sel ! i) - eps \<le> l' ! (sel' ! i)"
proof -
  have d: "distinct sel" "distinct sel'" "set sel \<subseteq> {..<length l}" "sorted (map (\<lambda>i. - l ! i) sel)" "sorted (map (\<lambda>i. - l' ! i) sel')"
    using t by (simp_all add: topk_ok_def)
  have "card (set (take (Suc i) sel)) = Suc i" "card (set (take i sel')) = i"
    using d(1,2) len(2,3) by (simp_all add: distinct_card)
  then have "\<not> set (take (Suc i) sel) \<subseteq> set (take i sel')" using card_mono [of "set (take i sel')" "set (take (Suc i) sel)"] by auto
  then obtain x where "x \<in> set (take (Suc i) sel)" "x \<notin> set (take i sel')" by blast
  then obtain m where m: "m \<le> i" "sel ! m \<notin> set (take i sel')" by (auto simp: in_set_conv_nth [of x "take (Suc i) sel"] less_Suc_eq_le)
  let ?j = "sel ! m"
  have j: "?j < length l" using d(3) m(1) len(2) by (metis lessThan_iff nth_mem order_le_less_trans subsetD)
  have "l ! (sel ! i) \<le> l ! ?j" using sorted_nth_mono [OF d(4), of m i] m(1) len(2) by simp
  moreover have "l ! ?j - eps \<le> l' ! ?j" using eps j by (auto simp: abs_le_iff)
  moreover have "l' ! ?j \<le> l' ! (sel' ! i)"
  proof (cases "?j \<in> set sel'")
    case True
    then obtain q where q: "q < length sel'" "sel' ! q = ?j" by (auto simp: in_set_conv_nth)
    then have "i \<le> q" using m(2) by (metis in_set_conv_nth leI length_take min.strict_order_iff min_less_iff_conj nth_take)
    then show ?thesis using sorted_nth_mono [OF d(5), of i q] q by simp
  next
    case False
    then show ?thesis using t(2) j len by (simp add: topk_ok_def)
  qed
  ultimately show ?thesis by linarith
qed

lemma greater_trans: "greater a b \<Longrightarrow> greater b c \<Longrightarrow> greater a c"
  by (cases a; cases b; cases c) auto

lemma greater_total: "\<not> greater a b \<Longrightarrow> greater c b \<Longrightarrow> \<not> greater a c"
  by (cases a; cases b; cases c) auto

text \<open>A scan finds a largest value and its index, if it beats the start.\<close>

lemma scan_best_result:
  "scan_best xs e (bv, bi) = (bv', bi') \<Longrightarrow>
     (if \<exists>x \<in> set xs. greater x bv
      then \<exists>i < length xs. xs ! i = bv' \<and> bi' = int (e + i) \<and> greater bv' bv \<and> (\<forall>x \<in> set xs. \<not> greater x bv')
      else bv' = bv \<and> bi' = bi)"
proof (induction xs arbitrary: e bv bi)
  case (Cons x xs)
  show ?case
  proof (cases "greater x bv")
    case True
    then have IH: "if \<exists>y \<in> set xs. greater y x
        then \<exists>i < length xs. xs ! i = bv' \<and> bi' = int (Suc e + i) \<and> greater bv' x \<and> (\<forall>y \<in> set xs. \<not> greater y bv')
        else bv' = x \<and> bi' = int e" using Cons.IH [of "Suc e" x "int e"] Cons.prems by simp
    have irr: "\<not> greater x x" by (cases x) auto
    show ?thesis
    proof (cases "\<exists>y \<in> set xs. greater y x")
      case more: True
      then obtain i where i: "i < length xs" "xs ! i = bv'" "bi' = int (Suc e + i)" "greater bv' x" "\<forall>y \<in> set xs. \<not> greater y bv'"
        using IH by auto
      have "\<not> greater x bv'" using i(4) irr greater_trans by blast
      then have "\<exists>i < length (x # xs). (x # xs) ! i = bv' \<and> bi' = int (e + i) \<and> greater bv' bv \<and> (\<forall>y \<in> set (x # xs). \<not> greater y bv')"
        using i greater_trans [OF i(4) True] by (intro exI [of _ "Suc i"]) simp
      then show ?thesis using True by simp
    next
      case False
      then have "bv' = x" "bi' = int e" using IH by auto
      then show ?thesis using True False irr by auto
    qed
  next
    case False
    then have IH: "if \<exists>y \<in> set xs. greater y bv
        then \<exists>i < length xs. xs ! i = bv' \<and> bi' = int (Suc e + i) \<and> greater bv' bv \<and> (\<forall>y \<in> set xs. \<not> greater y bv')
        else bv' = bv \<and> bi' = bi" using Cons.IH [of "Suc e" bv bi] Cons.prems by simp
    show ?thesis
    proof (cases "\<exists>y \<in> set xs. greater y bv")
      case more: True
      then obtain i where i: "i < length xs" "xs ! i = bv'" "bi' = int (Suc e + i)" "greater bv' bv" "\<forall>y \<in> set xs. \<not> greater y bv'"
        using IH by auto
      have "\<exists>i < length (x # xs). (x # xs) ! i = bv' \<and> bi' = int (e + i) \<and> greater bv' bv \<and> (\<forall>y \<in> set (x # xs). \<not> greater y bv')"
        using i greater_total [OF False i(4)] by (intro exI [of _ "Suc i"]) simp
      then show ?thesis using more by simp
    qed (use False IH in auto)
  qed
qed simp

text \<open>The logits with the selected ones taken out.\<close>

definition masked :: "real list \<Rightarrow> nat list \<Rightarrow> real option list" where
  "masked l sel = map (\<lambda>i. if i \<in> set sel then None else Some (l ! i)) [0..<length l]"

lemma masked_simps [simp]: "length (masked l sel) = length l"
  "i < length l \<Longrightarrow> masked l sel ! i = (if i \<in> set sel then None else Some (l ! i))"
  by (simp_all add: masked_def)

lemma masked_select: "i < length l \<Longrightarrow> (masked l sel)[i := None] = masked l (sel @ [i])"
  by (intro nth_equalityI) (auto simp: nth_list_update)

lemma scan_masked:
  assumes "topk_ok l sel" "length sel < length l"
  obtains i where "scan_best (masked l sel) 0 (None, - 1) = (Some (l ! i), int i)" "i < length l" "topk_ok l (sel @ [i])"
proof -
  have "\<not> {..<length l} \<subseteq> set sel"
  proof
    assume "{..<length l} \<subseteq> set sel"
    then have "length l \<le> card (set sel)" using card_mono [of "set sel" "{..<length l}"] by simp
    then show False using assms card_length [of sel] by simp
  qed
  then obtain j where j: "j < length l" "j \<notin> set sel" by auto
  obtain bv bi where s: "scan_best (masked l sel) 0 (None, - 1) = (bv, bi)" by fastforce
  have "Some (l ! j) \<in> set (masked l sel)" using j by (auto simp: masked_def)
  then have "\<exists>x \<in> set (masked l sel). greater x None" by force
  then obtain i where i: "i < length l" "masked l sel ! i = bv" "bi = int i" "greater bv None" "\<forall>x \<in> set (masked l sel). \<not> greater x bv"
    using scan_best_result [OF s] by auto
  then have sel: "i \<notin> set sel" "bv = Some (l ! i)" by (auto split: if_splits)
  have max: "l ! k \<le> l ! i" if "k < length l" "k \<notin> set sel" for k
  proof -
    have "Some (l ! k) \<in> set (masked l sel)" using that by (auto simp: masked_def)
    then show ?thesis using i(5) sel(2) by fastforce
  qed
  have "topk_ok l (sel @ [i])" using assms(1) i(1) sel(1) max by (auto simp: topk_ok_def sorted_append)
  then show thesis using that s i sel by simp
qed

lemma topk_loop_result:
  assumes "topk_ok l sel" "length sel + K \<le> length l"
  shows "\<exists>new. topk_loop K (masked l sel) acc = Inr (acc @ map (\<lambda>i. (Some (l ! i), i)) new) \<and> topk_ok l (sel @ new) \<and> length new = K"
  using assms
proof (induction K arbitrary: sel acc)
  case (Suc K)
  have "length sel < length l" using Suc.prems(2) by simp
  from scan_masked [OF Suc.prems(1) this] obtain i where i: "scan_best (masked l sel) 0 (None, - 1) = (Some (l ! i), int i)"
    "i < length l" "topk_ok l (sel @ [i])" by blast
  obtain new where "topk_loop K (masked l (sel @ [i])) (acc @ [(Some (l ! i), i)])
      = Inr ((acc @ [(Some (l ! i), i)]) @ map (\<lambda>i. (Some (l ! i), i)) new)" "topk_ok l ((sel @ [i]) @ new)" "length new = K"
    using Suc.IH [OF i(3), of "acc @ [(Some (l ! i), i)]"] Suc.prems(2) by auto
  then show ?case using i(1,2) by (intro exI [of _ "i # new"]) (simp add: masked_select)
qed simp

lemma reference_order:
  assumes "argsort_law argsort"
  shows "topk_ok l (take k (argsort (map uminus l)))" "length (argsort (map uminus l)) = length l"
proof -
  let ?o = "argsort (map uminus l)"
  have m: "mset ?o = mset [0..<length l]" using assms unfolding argsort_law_def by (metis length_map)
  then have o: "set ?o = {..<length l}" "distinct ?o" "length ?o = length l"
    by (metis set_mset_mset atLeast_upt, metis mset_eq_imp_distinct_iff distinct_upt, metis mset_eq_length length_upt diff_zero)
  have "map ((!) (map uminus l)) ?o = map (\<lambda>i. - l ! i) ?o" using o(1) by simp
  moreover have "sorted (map ((!) (map uminus l)) ?o)" using assms by (simp add: argsort_law_def)
  ultimately have s: "sorted (map (\<lambda>i. - l ! i) (take k ?o @ drop k ?o))" by (simp only: append_take_drop_id)
  have "l ! j \<le> l ! i" if "i \<in> set (take k ?o)" "j \<in> set ?o - set (take k ?o)" for i j
  proof -
    have "j \<in> set (drop k ?o)" using that(2) by (metis Diff_iff Un_iff append_take_drop_id set_append)
    then have "- l ! i \<le> - l ! j" using s that(1) unfolding map_append sorted_append by simp
    then show ?thesis by simp
  qed
  moreover have "sorted (map (\<lambda>i. - l ! i) (take k ?o))" using s unfolding map_append sorted_append by blast
  moreover have "set (take k ?o) \<subseteq> {..<length l}" using set_take_subset [of k ?o] o(1) by simp
  ultimately show "topk_ok l (take k ?o)" using o by (simp add: topk_ok_def)
  show "length ?o = length l" by (rule o(3))
qed


section \<open>The softmax tail\<close>









section \<open>The whole kernel\<close>

lemma gating_kernel_result:
  assumes "set sgs = {..<SIMDGROUPS_PER_TG}" "E \<le> length logits0" "k \<le> E" "E * D \<le> length wt" "E \<le> length bias"
  obtains idx where "gating_kernel F sgs row wt bias D E k logits0 = Inr (idx, softmax_tail F (map (kernel_logit F row wt bias D) idx))"
    "topk_ok (map (kernel_logit F row wt bias D) [0..<E]) idx" "length idx = k"
proof -
  let ?l = "map (kernel_logit F row wt bias D) [0..<E]"
  have l0: "map Some (take E (project F sgs row wt bias D E logits0)) = masked ?l []"
    using assms(1,2) by (subst project_logits) (simp_all add: masked_def)
  have "topk_ok ?l []" by (simp add: topk_ok_def)
  then obtain idx where idx: "topk_loop k (masked ?l []) [] = Inr (map (\<lambda>i. (Some (?l ! i), i)) idx)" "topk_ok ?l idx" "length idx = k"
    using topk_loop_result [of ?l "[]" k "[]"] assms(3) by auto
  have m: "map ((!) ?l) idx = map (kernel_logit F row wt bias D) idx" using idx(2) by (auto simp: topk_ok_def)
  have "gating_kernel F sgs row wt bias D E k logits0 = Inr (idx, softmax_tail F (map (kernel_logit F row wt bias D) idx))"
    using assms(4,5) idx(1) by (simp add: gating_kernel_def Let_def l0 o_def m)
  then show thesis using that idx by blast
qed

lemma fused_gating_result:
  assumes "same_objects (insert W (set ws))" "shape hidden = (N, D)" "shape W = (D, E)" "k \<le> MAX_TOPK" "k \<le> E" "E \<le> MAX_EXPERTS"
  shows "fused_gating F sgs logits0 (cache_after ws) hidden W bias k
     = Inr (map (\<lambda>t. gating_kernel F (sgs t) (entry hidden t) (transposed W) bias D E k logits0) [0..<N], cache_after (ws @ [W]))"
  using assms by (simp add: fused_gating_def cached_weight)

text \<open>Both sets of logits are close to the exact ones, and so are the experts at each rank.\<close>

lemma logits_close:
  assumes F: "float_law P F" and W: "shape W = (D, E)" "e < E" and M: "logit_mass P row W bias e \<le> M" "growth P (D + 34) * M \<le> omega P"
  shows "\<bar>kernel_logit F row (transposed W) bias D e - exact_logit row W bias e\<bar> \<le> (growth P (D + 34) - 1) * M"
    "\<bar>reference_logits F row W bias ! e - exact_logit row W bias e\<bar> \<le> (growth P (D + 34) - 1) * M"
proof -
  note g = growth_facts(1) [OF float_lawD(1) [OF F], of "D + 34"]
  have om: "growth P (D + 34) * logit_mass P row W bias e \<le> omega P"
    by (rule order_trans [OF mult_left_mono [OF M(1)] M(2)]) (use g in simp)
  have "(growth P (D + 34) - 1) * logit_mass P row W bias e \<le> (growth P (D + 34) - 1) * M" using M(1) g by (intro mult_left_mono) simp_all
  then show "\<bar>kernel_logit F row (transposed W) bias D e - exact_logit row W bias e\<bar> \<le> (growth P (D + 34) - 1) * M"
    "\<bar>reference_logits F row W bias ! e - exact_logit row W bias e\<bar> \<le> (growth P (D + 34) - 1) * M"
    using kernel_logit_error [OF F W om] reference_logit_error [OF F W om] by linarith+
qed

lemma ranks_close:
  assumes t: "topk_ok (map a [0..<E]) sel" "topk_ok l sel'" and len: "length l = E" "i < length sel" "i < length sel'"
    and c: "\<And>e. e < E \<Longrightarrow> \<bar>a e - x e\<bar> \<le> eps" "\<And>e. e < E \<Longrightarrow> \<bar>l ! e - x e\<bar> \<le> eps"
  shows "\<bar>x (sel ! i) - x (sel' ! i)\<bar> \<le> 4 * eps"
proof -
  have two: "\<forall>j < E. \<bar>a j - l ! j\<bar> \<le> 2 * eps"
  proof (intro allI impI)
    fix j assume "j < E"
    then show "\<bar>a j - l ! j\<bar> \<le> 2 * eps" using c [of j] by linarith
  qed
  have "set sel \<subseteq> {..<E}" "set sel' \<subseteq> {..<E}" using t len(1) by (simp_all add: topk_ok_def)
  then have e: "sel ! i < E" "sel' ! i < E" using nth_mem [OF len(2)] nth_mem [OF len(3)] by blast+
  have "a (sel ! i) - 2 * eps \<le> l ! (sel' ! i)" "l ! (sel' ! i) - 2 * eps \<le> a (sel ! i)"
    using topk_rank [OF t, of i "2 * eps"] topk_rank [OF t(2,1), of i "2 * eps"] two len e by (simp_all add: abs_minus_commute)
  then show ?thesis using c(1) [OF e(1)] c(2) [OF e(2)] by linarith
qed

lemma separated_equal:
  fixes x :: "nat \<Rightarrow> real"
  assumes "\<forall>i < k. \<bar>x (xs ! i) - x (ys ! i)\<bar> \<le> c" "\<forall>e < E. \<forall>f < E. e \<noteq> f \<longrightarrow> c < \<bar>x e - x f\<bar>"
    "length xs = k" "length ys = k" "set xs \<subseteq> {..<E}" "set ys \<subseteq> {..<E}"
  shows "xs = ys"
  using assms by (intro nth_equalityI) (simp_all, metis lessThan_iff linorder_not_le nth_mem subsetD)



section \<open>Properties\<close>

text \<open>C16. The fused kernel and the reference differ on near ties only. Whatever the rounding of the arithmetic, the order of
  the SIMD groups, the earlier use of the weight cache, the sorting function of the library and the garbage in threadgroup
  memory, for shapes that fit together and logits that do not overflow: the kernel returns for every token \<open>k\<close> different
  experts; at each place, its expert and that of the reference have exact logits that differ by at most four rounding
  errors; so when any two experts are further apart than that, both return the same experts in the same order.\<close>

theorem fused_gating_matches_reference:
  assumes F: "float_law P F" "argsort_law argsort" and g: "\<forall>t. set (sgs t) = {..<SIMDGROUPS_PER_TG}" "length logits0 = MAX_EXPERTS"
    and W: "same_objects (insert W (set ws))" "shape hidden = (N, D)" "shape W = (D, E)" "length bias = E"
    and k: "k \<le> MAX_TOPK" "k \<le> E" "E \<le> MAX_EXPERTS"
    and M: "\<forall>t < N. \<forall>e < E. logit_mass P (entry hidden t) W bias e \<le> M" "growth P (D + 34) * M \<le> omega P"
  shows "\<exists>out ref. fused_gating F sgs logits0 (cache_after ws) hidden W bias k = Inr (out, cache_after (ws @ [W]))
    \<and> reference_gating F argsort softmax hidden W bias k = Inr ref \<and> length out = N \<and> length ref = N
    \<and> (\<forall>t < N. \<exists>idx val. out ! t = Inr (idx, val) \<and> length idx = k \<and> distinct idx \<and> set idx \<subseteq> {..<E}
        \<and> (let logit = exact_logit (entry hidden t) W bias; eps = 4 * (growth P (D + 34) - 1) * M; ref_idx = fst (ref ! t)
           in (\<forall>i < k. \<bar>logit (idx ! i) - logit (ref_idx ! i)\<bar> \<le> eps)
             \<and> ((\<forall>e < E. \<forall>f < E. e \<noteq> f \<longrightarrow> eps < \<bar>logit e - logit f\<bar>) \<longrightarrow> idx = ref_idx)))"
proof -
  note P = float_lawD(1) [OF F(1)]
  let ?eps = "(growth P (D + 34) - 1) * M"
  let ?out = "map (\<lambda>t. gating_kernel F (sgs t) (entry hidden t) (transposed W) bias D E k logits0) [0..<N]"
  obtain ref where ref: "reference_gating F argsort softmax hidden W bias k = Inr ref" "length ref = N"
    "\<And>t. t < N \<Longrightarrow> fst (ref ! t) = take k (argsort (map uminus (reference_logits F (entry hidden t) W bias)))"
    using W(2,3) by (simp add: reference_gating_def Let_def)
  have row: "\<exists>idx val. ?out ! t = Inr (idx, val) \<and> length idx = k \<and> distinct idx \<and> set idx \<subseteq> {..<E}
      \<and> (\<forall>i < k. \<bar>exact_logit (entry hidden t) W bias (idx ! i) - exact_logit (entry hidden t) W bias (fst (ref ! t) ! i)\<bar> \<le> 4 * ?eps)
      \<and> length (fst (ref ! t)) = k \<and> set (fst (ref ! t)) \<subseteq> {..<E}" if t: "t < N" for t
  proof -
    let ?x = "exact_logit (entry hidden t) W bias" and ?r = "reference_logits F (entry hidden t) W bias" and ?ri = "fst (ref ! t)"
    let ?k = "kernel_logit F (entry hidden t) (transposed W) bias D"
    have len: "length ?r = E" using W(3) by (simp add: reference_logits_def)
    have r: "topk_ok ?r ?ri" "length ?ri = k" using reference_order [OF F(2), of ?r] k(2) len by (simp_all add: ref(3) [OF t])
    obtain idx where idx: "?out ! t = Inr (idx, softmax_tail F (map ?k idx))" "topk_ok (map ?k [0..<E]) idx" "length idx = k"
      using gating_kernel_result [of "sgs t" E logits0 k D "transposed W" bias F "entry hidden t"] g k W t length_transposed [OF W(3)] by auto
    have sub: "set idx \<subseteq> {..<E}" "set ?ri \<subseteq> {..<E}" "distinct idx" using idx(2) r(1) len by (simp_all add: topk_ok_def)
    have "\<bar>?x (idx ! i) - ?x (?ri ! i)\<bar> \<le> 4 * ?eps" if "i < k" for i
      using that idx(3) r(2) logits_close [OF F(1) W(3) _ _ M(2)] M(1) t by (intro ranks_close [OF idx(2) r(1) len]) simp_all
    then show ?thesis using idx(1,3) sub r(2) by blast
  qed
  show ?thesis
  proof (intro exI [of _ ?out] exI [of _ ref] conjI allI impI)
    fix t assume "t < N"
    from row [OF this] obtain idx val where i: "?out ! t = Inr (idx, val)" "length idx = k" "distinct idx" "set idx \<subseteq> {..<E}"
      "\<forall>i < k. \<bar>exact_logit (entry hidden t) W bias (idx ! i) - exact_logit (entry hidden t) W bias (fst (ref ! t) ! i)\<bar> \<le> 4 * ?eps"
      "length (fst (ref ! t)) = k" "set (fst (ref ! t)) \<subseteq> {..<E}" by blast
    show "\<exists>idx val. ?out ! t = Inr (idx, val) \<and> length idx = k \<and> distinct idx \<and> set idx \<subseteq> {..<E}
        \<and> (let logit = exact_logit (entry hidden t) W bias; eps = 4 * (growth P (D + 34) - 1) * M; ref_idx = fst (ref ! t)
           in (\<forall>i < k. \<bar>logit (idx ! i) - logit (ref_idx ! i)\<bar> \<le> eps)
             \<and> ((\<forall>e < E. \<forall>f < E. e \<noteq> f \<longrightarrow> eps < \<bar>logit e - logit f\<bar>) \<longrightarrow> idx = ref_idx))"
      unfolding Let_def mult.assoc using i separated_equal [OF i(5) _ i(2,6,4,7)] by blast
  qed (simp_all add: fused_gating_result [OF W(1-3) k] ref(1,2))
qed


text \<open>Sorting the indices by value is one such \<open>argsort\<close>.\<close>

lemma argsort_exists: "argsort_law (\<lambda>xs. sort_key ((!) xs) [0..<length xs])"
  by (simp add: argsort_law_def)

text \<open>One token, three experts with the logits 0, 1 and 2, in an arithmetic that always rounds up; the cache has seen another
  array at the address of the weights.\<close>

definition demo_hidden :: "real mx_array" where
  "demo_hidden = \<lparr>identity = 0, address = 0, shape = (1, 1), entry = (\<lambda>_ _. 1)\<rparr>"

definition demo_gate :: "real mx_array" where
  "demo_gate = \<lparr>identity = 1, address = 64, shape = (1, 3), entry = (\<lambda>_ e. of_nat e)\<rparr>"

definition demo_other :: "real mx_array" where
  "demo_other = \<lparr>identity = 2, address = 64, shape = (1, 1), entry = (\<lambda>_ _. 7)\<rparr>"

lemma demo_gate_facts:
  "same_objects (insert demo_gate (set [demo_other]))" "shape demo_hidden = (1, 1)" "shape demo_gate = (1, 3)"
  "length [0, 0, 0 :: real] = 3" "\<forall>t. set ((\<lambda>_ :: nat. [0..<8]) t) = {..<SIMDGROUPS_PER_TG}" "length (replicate 256 (0 :: real)) = MAX_EXPERTS"
  by (auto simp: same_objects_def demo_gate_def demo_other_def demo_hidden_def SIMDGROUPS_PER_TG_def MAX_EXPERTS_def)

lemma demo_growth: "growth single 35 \<le> 13 / 12 - 1 / 1000"
  by (simp add: growth_def single_def power_divide)

theorem fused_gating_matches_reference_witness:
  "\<exists>out ref idx val. fused_gating upwards_ops (\<lambda>_. [0..<8]) (replicate 256 0) (cache_after [demo_other]) demo_hidden demo_gate [0, 0, 0] 2
       = Inr (out, cache_after [demo_other, demo_gate])
     \<and> reference_gating upwards_ops (\<lambda>xs. sort_key ((!) xs) [0..<length xs]) (\<lambda>xs. xs) demo_hidden demo_gate [0, 0, 0] 2 = Inr ref
     \<and> out ! 0 = Inr (idx, val) \<and> length idx = 2 \<and> idx = fst (ref ! 0)"
proof -
  have "\<forall>t < 1. \<forall>e < 3. logit_mass single (entry demo_hidden t) demo_gate [0, 0, 0] e \<le> 3"
    by (auto simp: logit_mass_def demo_gate_def demo_hidden_def single_def less_Suc_eq numeral_3_eq_3)
  moreover have "growth single (1 + 34) * 3 \<le> omega single" using demo_growth(1) by (simp add: single_def)
  moreover have "(2 :: nat) \<le> MAX_TOPK" "(3 :: nat) \<le> MAX_EXPERTS" by (simp_all add: MAX_TOPK_def MAX_EXPERTS_def)
  ultimately obtain out ref where o: "fused_gating upwards_ops (\<lambda>_. [0..<8]) (replicate 256 0) (cache_after [demo_other]) demo_hidden demo_gate [0, 0, 0] 2
       = Inr (out, cache_after ([demo_other] @ [demo_gate]))"
     "reference_gating upwards_ops (\<lambda>xs. sort_key ((!) xs) [0..<length xs]) (\<lambda>xs. xs) demo_hidden demo_gate [0, 0, 0] 2 = Inr ref"
     "\<forall>t < 1. \<exists>idx val. out ! t = Inr (idx, val) \<and> length idx = 2 \<and> distinct idx \<and> set idx \<subseteq> {..<3}
        \<and> (let logit = exact_logit (entry demo_hidden t) demo_gate [0, 0, 0]; eps = 4 * (growth single (1 + 34) - 1) * 3; ref_idx = fst (ref ! t)
           in (\<forall>i < 2. \<bar>logit (idx ! i) - logit (ref_idx ! i)\<bar> \<le> eps)
             \<and> ((\<forall>e < 3. \<forall>f < 3. e \<noteq> f \<longrightarrow> eps < \<bar>logit e - logit f\<bar>) \<longrightarrow> idx = ref_idx))"
    using fused_gating_matches_reference [OF upwards_law argsort_exists demo_gate_facts(5,6,1-4), of 2 3 "\<lambda>xs. xs"] by auto
  have "4 * (growth single (1 + 34) - 1) * 3 < 1" using demo_growth(1) by simp
  then have "\<forall>e < 3. \<forall>f < 3. e \<noteq> f \<longrightarrow> 4 * (growth single (1 + 34) - 1) * 3
      < \<bar>exact_logit (entry demo_hidden 0) demo_gate [0, 0, 0] e - exact_logit (entry demo_hidden 0) demo_gate [0, 0, 0] f\<bar>"
    by (auto simp: exact_logit_def demo_gate_def demo_hidden_def less_Suc_eq numeral_3_eq_3)
  then show ?thesis using o by (auto simp: Let_def)
qed


end
