(* ===== verification/Quantized_Gemm.thy ===== *)
theory Quantized_Gemm
  imports Gating
begin

text \<open>
  The quantized matrix product (\<open>src/kernels/quantized_gemm.py\<close>): symmetric quantization per column to signed bytes,
  the path that dequantizes the whole matrix first, and the fused Metal kernel that dequantizes inside its inner loop, in
  float arithmetic (\<open>Float_Rounding\<close>) and with the cache of transposed weights (\<open>Weight_Cache\<close>). The arguments are arrays
  of floats, so that the conversions to \<open>float32\<close> change nothing; \<open>mx.round\<close> is the parameter \<open>rnd\<close>, a nearest integer.
\<close>

section \<open>Model\<close>

text \<open>\<open>quantize_weights\<close>; the new array gets the identity \<open>i\<close> and the address \<open>a\<close>. A byte is a word read as signed.\<close>

definition column_scale :: "FloatOps \<Rightarrow> real mx_array \<Rightarrow> nat \<Rightarrow> real" where
  "column_scale F weight e =
     max (fdiv F (Max (set (map (\<lambda>d. \<bar>entry weight d e\<bar>) [0..<fst (shape weight)]))) 127) (flit F (1 / 10 ^ 12))"

definition quantize_weights :: "FloatOps \<Rightarrow> (real \<Rightarrow> int) \<Rightarrow> nat \<Rightarrow> nat \<Rightarrow> real mx_array \<Rightarrow> u8 mx_array \<times> real list" where
  "quantize_weights F rnd i a weight =
     (let scale = column_scale F weight;
          q = (\<lambda>d e. word_of_int (max (- 127) (min 127 (rnd (fdiv F (entry weight d e) (scale e))))))
      in (\<lparr>identity = i, address = a, shape = shape weight, entry = q\<rparr>, map scale [0..<snd (shape weight)]))"

definition dequantize_naive :: "FloatOps \<Rightarrow> u8 mx_array \<Rightarrow> real list \<Rightarrow> nat \<Rightarrow> nat \<Rightarrow> real" where
  "dequantize_naive F q scale d e = fmul F (of_int (sint (entry q d e))) (scale ! e)"

definition naive_quantized_matmul :: "FloatOps \<Rightarrow> real mx_array \<Rightarrow> u8 mx_array \<Rightarrow> real list \<Rightarrow> cpp_exn + real list list" where
  "naive_quantized_matmul F x q scale =
     (if snd (shape x) \<noteq> fst (shape q) then Inl (InvalidArgument ''matmul'')
      else Inr (map (\<lambda>t. map (\<lambda>e. fmatmul F (entry x t) (\<lambda>d. dequantize_naive F q scale d e) (snd (shape x))) [0..<snd (shape q)])
                  [0..<fst (shape x)]))"

text \<open>A threadgroup: SIMD group \<open>sg\<close> takes every eighth column. The groups run in any order \<open>sgs\<close>; \<open>out0\<close> is what the
  row of the output held. Reading the scale of a column outside of its buffer is undefined.\<close>

definition quantized_group :: "FloatOps \<Rightarrow> (nat \<Rightarrow> real) \<Rightarrow> u8 list \<Rightarrow> real list \<Rightarrow> nat \<Rightarrow> nat \<Rightarrow> real list \<Rightarrow> nat \<Rightarrow> real list" where
  "quantized_group F x_row q_weight scale D E out sg =
     foldl (\<lambda>out col. out[col := (let s = scale ! col
         in fsimd F (lane_partial F x_row (\<lambda>d. fmul F (of_int (sint (q_weight ! (col * D + d)))) s) D))])
       out (strided SIMDGROUPS_PER_TG sg E)"

text \<open>The same cache as that of the gating weights, of bytes.\<close>

definition get_transposed_qweight :: "u8 weight_cache \<Rightarrow> u8 mx_array \<Rightarrow> u8 list \<times> u8 weight_cache" where
  "get_transposed_qweight = get_transposed_weight"

definition fused_quantized_matmul ::
    "FloatOps \<Rightarrow> (nat \<Rightarrow> nat list) \<Rightarrow> real list \<Rightarrow> u8 weight_cache \<Rightarrow> real mx_array \<Rightarrow> u8 mx_array \<Rightarrow> real list
       \<Rightarrow> cpp_exn + (cpp_exn + real list) list \<times> u8 weight_cache" where
  "fused_quantized_matmul F sgs out0 cache x q scale =
     (let (n_tokens, d_model) = shape x; (d_model2, num_experts) = shape q
      in if d_model \<noteq> d_model2 then Inl (InvalidArgument ''shape mismatch'')
         else let (q_weight_t, cache') = get_transposed_qweight cache q
              in Inr (map (\<lambda>t. if length scale < num_experts then Inl UndefinedBehaviour
                            else Inr (foldl (quantized_group F (entry x t) q_weight_t scale d_model num_experts) out0 (sgs t))) [0..<n_tokens], cache'))"

definition round_law :: "(real \<Rightarrow> int) \<Rightarrow> bool" where
  "round_law rnd \<longleftrightarrow> (\<forall>x. \<bar>of_int (rnd x) - x\<bar> \<le> 1 / 2)"

section \<open>Quantization\<close>

lemma sint_byte: "- 127 \<le> v \<Longrightarrow> v \<le> 127 \<Longrightarrow> sint (word_of_int v :: u8) = v"
  by (simp add: signed_of_int signed_take_bit_int_eq_self)

lemma u_mult_le: "precision_ok P \<Longrightarrow> 0 \<le> x \<Longrightarrow> u P * x \<le> x / 1000"
  using mult_right_mono [OF precision_okD(2)] by simp

lemma column_scale_bound:
  assumes F: "float_law P F" and W: "shape W = (D, E)" "d < D" and om: "\<forall>d < D. \<bar>entry W d e\<bar> \<le> omega P / 2"
  shows "0 < column_scale F W e" "kappa P \<le> column_scale F W e" "\<bar>entry W d e\<bar> \<le> 1273 / 10 * column_scale F W e"
    "128 * column_scale F W e \<le> omega P"
proof -
  note P = float_lawD(1) [OF F] and p = precision_okD [OF float_lawD(1) [OF F]]
  let ?s = "column_scale F W e" and ?m = "Max (set (map (\<lambda>d. \<bar>entry W d e\<bar>) [0..<D]))" and ?c = "1 / 10 ^ 12 :: real"
  let ?q = "fdiv F ?m 127" and ?l = "flit F ?c"
  have s: "?s = max ?q ?l" using W(1) by (simp add: column_scale_def)
  have m: "\<bar>entry W d e\<bar> \<le> ?m" using W(2) by (intro Max_ge) auto
  have "?m \<in> set (map (\<lambda>d. \<bar>entry W d e\<bar>) [0..<D])" using W(2) by (intro Max_in) auto
  then have m2: "?m \<le> omega P / 2" "0 \<le> ?m" using om m by auto
  have "\<bar>?l - ?c\<bar> \<le> u P * (\<bar>?c\<bar> + kappa P)" using float_lawD(5) [OF F, of ?c] p(5) by (simp add: rounded_def)
  also have "\<dots> \<le> (\<bar>?c\<bar> + kappa P) / 1000" by (rule u_mult_le [OF P]) (use p(3) in simp)
  finally have l: "\<bar>?l - ?c\<bar> \<le> (?c + kappa P) / 1000" by simp
  have "\<bar>?q - ?m / 127\<bar> \<le> u P * (\<bar>?m / 127\<bar> + kappa P)" using float_lawD(4) [OF F, of 127 ?m] m2 by (simp add: rounded_def)
  also have "\<dots> \<le> (\<bar>?m / 127\<bar> + kappa P) / 1000" by (rule u_mult_le [OF P]) (use p(3) in simp)
  finally have q: "\<bar>?q - ?m / 127\<bar> \<le> (?m / 127 + kappa P) / 1000" using m2(2) by simp
  have "?c - (?c + kappa P) / 1000 \<le> ?l" using l by linarith
  moreover have "kappa P < ?c - (?c + kappa P) / 1000" using p(4) by (simp add: field_simps)
  ultimately show "0 < ?s" "kappa P \<le> ?s" using s p(3) by linarith+
  moreover have "?q \<le> ?s" using s by simp
  moreover have "x \<le> 1273 / 10 * t" if "0 < t" "k \<le> t" "y \<le> t" "x \<le> n" "\<bar>y - n / 127\<bar> \<le> (n / 127 + k) / 1000" for x t k y n :: real
    using that by (simp add: abs_le_iff add_divide_distrib)
  ultimately show "\<bar>entry W d e\<bar> \<le> 1273 / 10 * ?s" using m q by blast
  have k1: "kappa P \<le> 1" using p(4) by simp
  have "128 * y \<le> w" if "\<bar>y - n / 127\<bar> \<le> (n / 127 + k) / 1000" "n \<le> w / 2" "k \<le> 1" "1000 \<le> w" for y n k w :: real
    using that by (simp add: abs_le_iff add_divide_distrib)
  then have "128 * ?q \<le> omega P" using q m2(1) k1 p(5) by blast
  moreover have "128 * ?l \<le> omega P" using l k1 p(5) by (simp add: abs_le_iff add_divide_distrib)
  ultimately show "128 * ?s \<le> omega P" using s by simp
qed

text \<open>The clipping never acts, and an entry is off by at most half a step and what rounding adds.\<close>

lemma quantize_error:
  assumes F: "float_law P F" "round_law rnd" and W: "shape W = (D, E)" "d < D" "e < E" and om: "\<forall>d < D. \<bar>entry W d e\<bar> \<le> omega P / 2"
    and q: "quantize_weights F rnd i a W = (q, scale)"
  shows "\<bar>dequantize_naive F q scale d e - entry W d e\<bar> \<le> scale ! e * (1 / 2 + 256 * u P)" (is ?err)
    "\<bar>dequantize_naive F q scale d e\<bar> \<le> 128 * scale ! e"
proof -
  note P = float_lawD(1) [OF F(1)] and p = precision_okD [OF float_lawD(1) [OF F(1)]]
  note s = column_scale_bound [OF F(1) W(1,2) om]
  let ?s = "column_scale F W e" and ?w = "entry W d e" and ?y = "fdiv F (entry W d e) (column_scale F W e)"
  let ?r = "rnd ?y"
  have scale: "scale ! e = ?s" using q W by (auto simp: quantize_weights_def Let_def)
  have y: "\<bar>?w / ?s\<bar> \<le> 1273 / 10" using s(1,3) by (simp add: divide_le_eq)
  then have "\<bar>?w / ?s\<bar> \<le> omega P" using p(5) by linarith
  then have "\<bar>?y - ?w / ?s\<bar> \<le> u P * (\<bar>?w / ?s\<bar> + kappa P)" using float_lawD(4) [OF F(1), of ?s ?w] s(1) by (simp add: rounded_def)
  also have "\<dots> \<le> u P * 128" using y p(1,4) by (intro mult_left_mono) simp_all
  finally have d: "\<bar>?y - ?w / ?s\<bar> \<le> u P * 128" .
  have r: "\<bar>of_int ?r - ?y\<bar> \<le> 1 / 2" using F(2) by (simp add: round_law_def)
  have "of_int ?r < (128 :: real)" "(- 128 :: real) < of_int ?r" using r d y p(2) by linarith+
  then have b: "- 127 \<le> ?r" "?r \<le> 127" by linarith+
  then have "sint (entry q d e) = ?r" using q W by (auto simp: quantize_weights_def Let_def sint_byte)
  then have z: "dequantize_naive F q scale d e = fmul F (of_int ?r) ?s" by (simp only: dequantize_naive_def scale)
  have "\<bar>of_int ?r - ?w / ?s\<bar> \<le> 1 / 2 + 128 * u P" using r d by linarith
  then have "\<bar>of_int ?r - ?w / ?s\<bar> * ?s \<le> (1 / 2 + 128 * u P) * ?s" using s(1) by (intro mult_right_mono) simp_all
  moreover have "\<bar>of_int ?r - ?w / ?s\<bar> * ?s = \<bar>of_int ?r * ?s - ?w\<bar>" using s(1) abs_mult [of "of_int ?r - ?w / ?s" ?s] by (simp add: left_diff_distrib)
  ultimately have 1: "\<bar>of_int ?r * ?s - ?w\<bar> \<le> (1 / 2 + 128 * u P) * ?s" by simp
  have rs: "\<bar>of_int ?r * ?s\<bar> \<le> 127 * ?s" using b s(1) by (simp add: abs_mult abs_le_iff)
  then have "\<bar>of_int ?r * ?s\<bar> \<le> omega P" using s(1,4) by linarith
  then have "\<bar>fmul F (of_int ?r) ?s - of_int ?r * ?s\<bar> \<le> u P * (\<bar>of_int ?r * ?s\<bar> + kappa P)"
    using float_lawD(3) [OF F(1), of "of_int ?r" ?s] by (simp add: rounded_def)
  also have "\<dots> \<le> u P * (128 * ?s)" using rs s(2) p(1) by (intro mult_left_mono) simp_all
  finally have 2: "\<bar>fmul F (of_int ?r) ?s - of_int ?r * ?s\<bar> \<le> u P * (128 * ?s)" .
  have "u P * (128 * ?s) \<le> 128 * ?s / 1000" by (rule u_mult_le [OF P]) (use s(1) in simp)
  then show "\<bar>dequantize_naive F q scale d e\<bar> \<le> 128 * scale ! e" unfolding z scale using 2 rs s(1) by linarith
  have alg: "x * (1 / 2 + 256 * v) = (1 / 2 + 128 * v) * x + v * (128 * x)" for v x :: real by (simp add: algebra_simps)
  show ?err unfolding z scale alg using 1 2 by linarith
qed

section \<open>The fused kernel\<close>

text \<open>Every column is written, by one group.\<close>

lemma fused_row:
  assumes "set sgs = {..<SIMDGROUPS_PER_TG}" "length out0 = E"
  shows "foldl (quantized_group F row q_t scale D E) out0 sgs
     = map (\<lambda>e. fsimd F (lane_partial F row (\<lambda>d. fmul F (of_int (sint (q_t ! (e * D + d)))) (scale ! e)) D)) [0..<E]"
proof -
  let ?v = "\<lambda>e. fsimd F (lane_partial F row (\<lambda>d. fmul F (of_int (sint (q_t ! (e * D + d)))) (scale ! e)) D)"
  let ?es = "concat (map (\<lambda>sg. strided SIMDGROUPS_PER_TG sg E) sgs)"
  have "foldl (quantized_group F row q_t scale D E) out0 sgs = foldl (\<lambda>l e. l[e := ?v e]) out0 ?es"
    unfolding quantized_group_def Let_def foldl_concat [symmetric] ..
  then show ?thesis using assms(2) strided_cover [OF assms(1)]
    by (intro nth_equalityI) (simp_all add: foldl_upd)
qed

text \<open>Both products with dequantized weights \<open>z\<close> that are at most \<open>c\<close>.\<close>

lemma product_errors:
  fixes x z :: "nat \<Rightarrow> real"
  assumes F: "float_law P F" and z: "\<And>d. d < D \<Longrightarrow> \<bar>z d\<bar> \<le> c" "\<And>d. d < D \<Longrightarrow> z' d = z d"
    and om: "growth P (D + 33) * (c * (\<Sum>d < D. \<bar>x d\<bar>) + (2 * of_nat D + 32) * kappa P) \<le> omega P"
  shows "\<bar>fsimd F (lane_partial F x z' D) - (\<Sum>d < D. x d * z d)\<bar>
       \<le> (growth P (D + 33) - 1) * (c * (\<Sum>d < D. \<bar>x d\<bar>) + (2 * of_nat D + 32) * kappa P)"
    "\<bar>fmatmul F x z D - (\<Sum>d < D. x d * z d)\<bar> \<le> (growth P (D + 33) - 1) * (c * (\<Sum>d < D. \<bar>x d\<bar>) + (2 * of_nat D + 32) * kappa P)"
proof -
  note P = float_lawD(1) [OF F] and k = precision_okD(3) [OF float_lawD(1) [OF F]]
  let ?eps = "(growth P (D + 33) - 1) * (c * (\<Sum>d < D. \<bar>x d\<bar>) + (2 * of_nat D + 32) * kappa P)"
  let ?S = "\<Sum>d < D. \<bar>x d * z d\<bar> + 2 * kappa P" and ?B = "c * (\<Sum>d < D. \<bar>x d\<bar>) + (2 * of_nat D + 32) * kappa P"
  have "\<bar>x d * z d\<bar> \<le> c * \<bar>x d\<bar>" if "d < D" for d using mult_right_mono [OF z(1) [OF that], of "\<bar>x d\<bar>"] by (simp add: abs_mult mult.commute)
  then have "?S \<le> (\<Sum>d < D. c * \<bar>x d\<bar> + 2 * kappa P)" by (intro sum_mono) simp
  also have "\<dots> = c * (\<Sum>d < D. \<bar>x d\<bar>) + 2 * of_nat D * kappa P" by (simp add: sum.distrib sum_distrib_left [symmetric])
  finally have S: "?S + 32 * kappa P \<le> ?B" "?S \<le> ?B" "0 \<le> ?S" using k by (auto simp: distrib_right intro!: sum_nonneg)
  have eq: "(\<Sum>d < D. \<bar>x d * z' d\<bar> + 2 * kappa P) = ?S" "(\<Sum>d < D. x d * z' d) = (\<Sum>d < D. x d * z d)" using z(2) by (auto intro!: sum.cong)
  have "D div 32 + 33 \<le> D + 33" by simp
  then show "\<bar>fsimd F (lane_partial F x z' D) - (\<Sum>d < D. x d * z d)\<bar> \<le> ?eps"
    using summed_weaken [OF P simd_dot_error [OF F, of D x z', unfolded eq] _ S(1) _ om] S(3) k by simp
  show "\<bar>fmatmul F x z D - (\<Sum>d < D. x d * z d)\<bar> \<le> ?eps"
    using summed_weaken [OF P float_lawD(8) [OF F, of D x z] _ S(2,3) om] by simp
qed

section \<open>Property\<close>

text \<open>C18. The fused product of quantized weights, whatever the rounding of the arithmetic, the order of the SIMD groups and the
  earlier use of the weight cache, as long as nothing overflows: an output differs from the one of the naive path by at most
  two rounding errors of a sum, and from the exact product of the original weights by at most half a quantization
  step (and \<open>256 u\<close> steps) times the sum of the absolute activations and one such rounding error. A mismatch of the shapes
  is an error.\<close>

theorem fused_quantized_matmul_accurate:
  assumes F: "float_law P F" "round_law rnd" and g: "\<forall>t. set (sgs t) = {..<SIMDGROUPS_PER_TG}" "length out0 = E"
    and W: "shape W = (D, E)" "\<forall>d < D. \<forall>e < E. \<bar>entry W d e\<bar> \<le> omega P / 2" "0 < D" "quantize_weights F rnd i a W = (q, scale)"
    and x: "shape x = (N, D)" "same_objects (insert q (set qs))"
      "\<forall>t < N. \<forall>e < E. growth P (D + 33) * (128 * scale ! e * (\<Sum>d < D. \<bar>entry x t d\<bar>) + (2 * of_nat D + 32) * kappa P) \<le> omega P"
  shows "\<exists>out naive. fused_quantized_matmul F sgs out0 (cache_after qs) x q scale = Inr (out, cache_after (qs @ [q]))
    \<and> naive_quantized_matmul F x q scale = Inr naive \<and> length out = N
    \<and> (\<forall>t < N. \<exists>row. out ! t = Inr row \<and> length row = E \<and> (\<forall>e < E.
         let s = scale ! e; X = \<Sum>d < D. \<bar>entry x t d\<bar>;
             eps = (growth P (D + 33) - 1) * (128 * s * X + (2 * of_nat D + 32) * kappa P)
         in \<bar>row ! e - naive ! t ! e\<bar> \<le> 2 * eps
          \<and> \<bar>row ! e - (\<Sum>d < D. entry x t d * entry W d e)\<bar> \<le> s * (1 / 2 + 256 * u P) * X + eps))
    \<and> (\<forall>y. snd (shape y) \<noteq> D \<longrightarrow> fused_quantized_matmul F sgs out0 (cache_after qs) y q scale = Inl (InvalidArgument ''shape mismatch''))"
proof -
  have q: "shape q = (D, E)" "length scale = E" using W(1,4) by (auto simp: quantize_weights_def Let_def)
  let ?v = "\<lambda>t e. fsimd F (lane_partial F (entry x t) (\<lambda>d. fmul F (of_int (sint (transposed q ! (e * D + d)))) (scale ! e)) D)"
  let ?out = "map (\<lambda>t. Inr (map (?v t) [0..<E])) [0..<N]"
  let ?naive = "map (\<lambda>t. map (\<lambda>e. fmatmul F (entry x t) (\<lambda>d. dequantize_naive F q scale d e) D) [0..<E]) [0..<N]"
  have "fused_quantized_matmul F sgs out0 (cache_after qs) x q scale = Inr (?out, cache_after (qs @ [q]))"
    using x(1,2) q g fused_row by (simp add: fused_quantized_matmul_def get_transposed_qweight_def cached_weight)
  moreover have "naive_quantized_matmul F x q scale = Inr ?naive" using x(1) q(1) by (simp add: naive_quantized_matmul_def)
  moreover have "let s = scale ! e; X = \<Sum>d < D. \<bar>entry x t d\<bar>;
             eps = (growth P (D + 33) - 1) * (128 * s * X + (2 * of_nat D + 32) * kappa P)
         in \<bar>?v t e - ?naive ! t ! e\<bar> \<le> 2 * eps
          \<and> \<bar>?v t e - (\<Sum>d < D. entry x t d * entry W d e)\<bar> \<le> s * (1 / 2 + 256 * u P) * X + eps" if t: "t < N" "e < E" for t e
  proof -
    let ?z = "\<lambda>d. dequantize_naive F q scale d e" and ?X = "\<Sum>d < D. \<bar>entry x t d\<bar>" and ?h = "scale ! e * (1 / 2 + 256 * u P)"
    let ?dot = "\<Sum>d < D. entry x t d * ?z d"
    note z = quantize_error [OF F W(1) _ t(2) _ W(4)]
    have z: "\<bar>?z d - entry W d e\<bar> \<le> ?h" "\<bar>?z d\<bar> \<le> 128 * scale ! e" if "d < D" for d using z [OF that] W(2) t(2) by simp_all
    have tr: "fmul F (of_int (sint (transposed q ! (e * D + d)))) (scale ! e) = ?z d" if "d < D" for d
      using transposed_nth [OF q(1) that t(2)] by (simp add: dequantize_naive_def)
    have e: "growth P (D + 33) * (128 * scale ! e * ?X + (2 * of_nat D + 32) * kappa P) \<le> omega P" using x(3) t by blast
    note err = product_errors [where z = ?z and c = "128 * scale ! e", OF F(1) z(2) tr e]
    have "\<bar>?dot - (\<Sum>d < D. entry x t d * entry W d e)\<bar> \<le> (\<Sum>d < D. \<bar>entry x t d\<bar> * ?h)"
      unfolding sum_subtractf [symmetric] right_diff_distrib [symmetric]
      by (rule order_trans [OF sum_abs], rule sum_mono, subst abs_mult, rule mult_left_mono) (use z(1) in simp_all)
    also have "\<dots> = ?h * ?X" by (simp only: sum_distrib_right [symmetric] mult.commute)
    finally have "\<bar>?dot - (\<Sum>d < D. entry x t d * entry W d e)\<bar> \<le> ?h * ?X" .
    moreover have "?naive ! t ! e = fmatmul F (entry x t) ?z D" using t by simp
    ultimately show ?thesis using err unfolding Let_def by linarith
  qed
  ultimately show ?thesis using q(1) by (intro exI [of _ ?out] exI [of _ ?naive]) (simp add: fused_quantized_matmul_def split: prod.splits)
qed

text \<open>One column with the weight 1/3, an activation of 2, in the arithmetic that rounds up.\<close>

definition demo_x :: "real mx_array" where
  "demo_x = \<lparr>identity = 0, address = 0, shape = (1, 1), entry = (\<lambda>_ _. 2)\<rparr>"

definition demo_weight :: "real mx_array" where
  "demo_weight = \<lparr>identity = 1, address = 64, shape = (1, 1), entry = (\<lambda>_ _. 1 / 3)\<rparr>"

lemma demo_quantized:
  obtains q scale where "quantize_weights upwards_ops round 2 64 demo_weight = (q, scale)" "scale ! 0 \<le> 1 / 300" "0 < scale ! 0"
proof -
  have c: "column_scale upwards_ops demo_weight 0 \<le> 1 / 300" "0 < column_scale upwards_ops demo_weight 0"
    by (simp_all add: column_scale_def demo_weight_def upwards_ops_def up_def)
  show thesis
    by (rule that [of "fst (quantize_weights upwards_ops round 2 64 demo_weight)" "snd (quantize_weights upwards_ops round 2 64 demo_weight)"])
      (use c in \<open>simp_all add: quantize_weights_def Let_def demo_weight_def\<close>)
qed

theorem fused_quantized_matmul_accurate_witness:
  "\<exists>q scale out row. quantize_weights upwards_ops round 2 64 demo_weight = (q, scale)
     \<and> fused_quantized_matmul upwards_ops (\<lambda>_. [0..<8]) [0] (cache_after []) demo_x q scale = Inr (out, cache_after [q])
     \<and> out ! 0 = Inr row \<and> \<bar>row ! 0 - 2 / 3\<bar> \<le> 1 / 100"
proof -
  obtain q scale where q: "quantize_weights upwards_ops round 2 64 demo_weight = (q, scale)" "scale ! 0 \<le> 1 / 300" "0 < scale ! 0"
    by (rule demo_quantized)
  let ?c = "128 * scale ! 0 * 2 + 34 * kappa single" and ?g = "growth single 34"
  have r: "round_law round" unfolding round_law_def by (intro allI) (rule of_int_round_abs_le)
  have g: "?g \<le> 1 + 1 / 1000" by (simp add: growth_def single_def power_divide)
  have c: "0 \<le> ?c" "?c \<le> 1" using q(2,3) by (simp_all add: single_def)
  have "?g * ?c \<le> 2 * 1" using g c by (intro mult_mono) simp_all
  then have om: "?g * ?c \<le> omega single" by (simp add: single_def)
  have "(?g - 1) * ?c \<le> 1 / 1000 * 1" using g c by (intro mult_mono) simp_all
  moreover have "scale ! 0 * (1 / 2 + 256 * u single) \<le> 1 / 300 * 1" using q(2,3) by (intro mult_mono) (simp_all add: single_def)
  ultimately have small: "scale ! 0 * (1 / 2 + 256 * u single) * 2 + (?g - 1) * ?c \<le> 1 / 100" by linarith
  have W: "shape demo_weight = (1, 1)" "\<forall>d < 1. \<forall>e < 1. \<bar>entry demo_weight d e\<bar> \<le> omega single / 2" "shape demo_x = (1, 1)"
    by (simp_all add: demo_weight_def demo_x_def single_def)
  have "same_objects (insert q (set []))" by (simp add: same_objects_def)
  note acc = fused_quantized_matmul_accurate [OF upwards_law r _ _ W(1,2) _ q(1) W(3) this, of "\<lambda>_. [0..<8]" "[0]"]
  have "\<exists>out. fused_quantized_matmul upwards_ops (\<lambda>_. [0..<8]) [0] (cache_after []) demo_x q scale = Inr (out, cache_after [q])
      \<and> (\<exists>row. out ! 0 = Inr row \<and> \<bar>row ! 0 - 2 / 3\<bar> \<le> scale ! 0 * (1 / 2 + 256 * u single) * 2 + (?g - 1) * ?c)"
    using acc om by (auto simp: Let_def SIMDGROUPS_PER_TG_def demo_x_def demo_weight_def atLeast0LessThan)
  then show ?thesis using q(1) small by (meson order_trans)
qed

end
