(* ===== verification/Spec2Isabelle.thy ===== *)
theory Spec2Isabelle
  imports Ring_Concurrent Chaos Load_Generator Bench_Overhead Bench_Cli Engine_Threads Double_Buffer Quantized_Gemm
begin

text \<open>
  \<^bold>\<open>AetherMoE: the C++ serving engine and its expert-shard orchestration.\<close>

  The program has two halves. The \<^emph>\<open>engine\<close> (\<open>src/main.cpp\<close>) accepts generation requests over HTTP, queues
  them in a lock-free ring buffer, and runs a continuous-batching scheduler over a paged KV-cache allocator; it
  records latencies in a telemetry ring and publishes the phases of the requests. The \<^emph>\<open>orchestration\<close> layer
  (\<open>src/orchestration/\<close>) routes batches of tokens to expert shards: worker processes behind Unix sockets, with a
  capacity ceiling per expert, a strict and a fault-tolerant routing operation, and tools that inject faults. Three
  \<^emph>\<open>benchmark\<close> programs (\<open>benchmarks/\<close>) drive the engine's components and report on them. Beside the C++ code stand GPU \<^emph>\<open>kernels\<close> for the
  gating and the quantized matrix product (\<open>src/kernels/\<close>) and a demo of double buffering (\<open>tools/\<close>).

  \<^bold>\<open>The theories, in the order of their imports.\<close>

  \<^item> \<open>Prelude\<close>: machine integers, \<open>size_t\<close> arithmetic, the exceptions (\<open>cpp_exn\<close>), generic lemmas, the
    locale \<open>forward_simulation\<close>. \<open>Cpp_Numbers\<close>: how
    the standard library prints and reads integers, and that reading undoes printing.
  \<^item> \<open>Sequence\<close> (\<open>core/sequence.hpp\<close>): the record of a request and its phase machine; \<open>transition_to\<close> succeeds
    exactly forwards.
  \<^item> \<open>Page_Table\<close> (\<open>core/page_table.hpp\<close>): the allocator. The table is an association list, the free list a list
    used as a stack. Reachable states never hold a block twice or lose one; \<open>ensure_capacity\<close> is exact and
    changes nothing on failure; growing and freeing round-trip; fragmentation is bounded.
  \<^item> \<open>Ring_Buffer\<close> (\<open>core/spmc_ring_buffer.hpp\<close>): \<open>try_push\<close> and \<open>try_pop\<close> without interference, as a locale of a
    bounded FIFO queue and its interpretation, for the 64-bit cursors at any wrap-around. \<open>Ring_Concurrent\<close>: the
    same code as a step relation, one step per atomic access, for any number of threads; each item is handed out
    once and in order, no two threads access the data of one cell, and refusals are justified. The cursors count
    fewer than \<open>2^63\<close> operations there.
  \<^item> \<open>Telemetry\<close> (\<open>core/telemetry.hpp\<close>): recorder, flusher and summaries; no sample is lost without being counted.
    Doubles are exact rationals.
  \<^item> \<open>Scheduler\<close> (\<open>core/scheduler.hpp\<close>): \<open>step\<close> with its decode, prefill and admission loops and the invariant of
    its states. \<open>Scheduler_Properties\<close>: safety, block accounting, budget, conservation of requests, the finish at
    the limit. \<open>Scheduler_Progress\<close>: decode priority, two ways to be stuck for ever (an empty prompt at the head of
    the queue, starvation without preemption, whatever is waiting or arrives), and the locale \<open>draining\<close>: a condition that gives progress and that
    every iteration keeps makes all requests complete. It is interpreted twice, on a reservation of blocks for all
    requests and, in \<open>Scheduler_Batch\<close>, on memory for one batch of bounded requests (the token budget bounds the
    batch). \<open>Scheduler_Telemetry\<close>: the scheduler does the same with any recorder, and what an iteration offers to it;
    the locale \<open>step_measure\<close> sums a quantity over the requests and is interpreted on generated tokens and finishes.
  \<^item> \<open>Ingress\<close> (\<open>api/ingress_server.hpp\<close>, \<open>.cpp\<close>): the status table and the three HTTP handlers, over an arbitrary
    JSON library. \<open>Http_Server\<close> (\<open>IngressServer::run\<close>): the registered routes and the answer to a request, over an
    arbitrary HTTP library; an accepted request can be polled. \<open>Engine\<close> (\<open>main.cpp\<close>): the wiring, one turn of the loop (\<open>tick\<close>), the loop with the shutdown
    flag, and its interleaving with handler threads (\<open>engine_run\<close>); requests are conserved under every
    interleaving, reachable states are well formed, accepted requests finish (when they fit together, or when each is
    short: locale \<open>engine_draining\<close>), and a finished request may report a stale phase. \<open>Engine_Threads\<close>: the same
    code with a switch of threads allowed between any two accesses to shared state. It refines the specification
    \<open>Service\<close> (interpretation of \<open>forward_simulation\<close>), every run of \<open>Engine\<close> is one of its runs, and a final status
    is wrong exactly when the handler wrote after the loop had announced the end.
  \<^item> \<open>Serialization\<close> (\<open>orchestration/serialization.hpp\<close>, \<open>routed_token.hpp\<close>): the byte formats; the locales \<open>codec\<close>
    and \<open>batch_codec\<close> are interpreted on the integers, the float vectors, tokens and results.
  \<^item> \<open>Transport\<close> (\<open>orchestration/unix_socket_transport.hpp\<close>): framed messages over system calls that split,
    interrupt and fail as a script says. \<open>Worker\<close> (\<open>worker_shard.hpp\<close>): the loop that answers batches.
  \<^item> \<open>Router\<close> (\<open>orchestration/router.hpp\<close>): \<open>route_batch\<close> and \<open>route_batch_tolerant\<close> over arbitrary transports.
    \<open>Router_Properties\<close>: capacity ceiling, exact reassembly, one result per position whatever the transports do.
    \<open>Router_Delivery\<close>: the contract of a cluster (locale \<open>shard_service\<close>), delivery and fault isolation proved in
    it, and its interpretation on \<open>Transport\<close> sockets with \<open>Worker\<close> loops at the other end.
  \<^item> \<open>Process_Spawn\<close> (\<open>orchestration/process_spawn.hpp\<close>, constructor and destructor of the socket transport): a
    table of processes with their descriptors; the parent's phases and the children's closing loops as interleaved
    steps, and the invariant of their runs. \<open>Spawn_Properties\<close>: who holds which end, termination, what a failed
    call leaves behind, \<open>join_all\<close>.
  \<^item> \<open>Chaos\<close> (\<open>orchestration/chaos.hpp\<close>): delays (locales \<open>transport_map\<close> and \<open>transport_order\<close>, interpreted on the
    wrapped transports: the router cannot tell them apart) and background kills, composed with \<open>Process_Spawn\<close>.
  \<^item> \<open>Bench_Cli\<close> (\<open>benchmarks/bench_cli.cpp\<close>): argument parser, a run with its three threads, summary and CSV; the
    summary adds up. Its engine thread is the loop of \<open>main.cpp\<close> (\<open>bench_turn_tick\<close>), so the engine's invariant
    applies. \<open>Bench_Overhead\<close> (\<open>bench_telemetry_overhead.cpp\<close>): both sides of the comparison complete with the
    same work. \<open>Load_Generator\<close> (\<open>load_generator.cpp\<close>): its report counts every request once.
  \<^item> \<open>Float_Rounding\<close>: float arithmetic with a bounded rounding error, and how errors of sums and products grow.
    \<open>Weight_Cache\<close>: the cache of transposed weights of both kernels, which never confuses two arrays, whatever their
    addresses. \<open>Gating\<close> (\<open>kernels/fused_gating_metal.py\<close>, \<open>reference_gating.py\<close>): the fused kernel differs from the
    reference on near ties only, and its weights are a softmax up to rounding. \<open>Quantized_Gemm\<close>
    (\<open>kernels/quantized_gemm.py\<close>): how far the fused product is from the naive path and from the exact product.
  \<^item> \<open>Double_Buffer\<close> (\<open>tools/double_buffer_demo.mm\<close>): the two command queues as interleaved steps; a slice is read
    after it was written, but may be overwritten before it is read.
  \<^item> This theory: the composition of processes, sockets, worker loops and router, from a killed process to the
    batch that is degraded and no more.

  \<^bold>\<open>How state and effects correspond.\<close> A class is a record, a method a function from the record to the record
  and its result; an exception is \<open>Inl\<close>; a loop that may spin returns an \<open>option\<close>. Code that threads share is a
  step relation whose steps are the atomic accesses (ring buffer), the shared-state accesses of a handler (engine),
  the system calls of a process (spawn) or whole background actions (telemetry drain, kills, a turn of a benchmark's
  engine thread, a request of the load generator). A mutex-protected
  operation is one step, and so are, outside of \<open>Ring_Concurrent\<close>, the operations of the ring buffer and a call that records
  a sample. Relaxed and acquire/release orderings are not distinguished: the steps are sequentially
  consistent.

  \<^bold>\<open>Parameters.\<close> The steady clock (\<open>clk\<close>), the JSON library, the outcomes of system calls (scripts), the traversal
  order of hash tables (\<open>ord\<close>, any permutation), the value of the field that failure results leave uninitialised
  (\<open>junk\<close>), the random draws of the chaos script and the benchmarks, the operations of a transport as the router sees them, the
  HTTP library (dispatch of a request and replies of its own) and what becomes of a client's request, \<open>std::stod\<close>, the
  printing of doubles, measured times; \<open>argsort\<close>, \<open>softmax\<close> and \<open>round\<close> of the array library, the order of SIMD groups, the float
  operations of the kernels (\<open>float_law\<close>: a result that does not overflow has a bounded error), the effect of a Metal signal
  of a lower value. The floats of the telemetry, the benchmarks and the double-buffer demo are exact rationals.

  \<^bold>\<open>Bounds and fuel.\<close> A prompt has at most \<open>2^61\<close> tokens (what a vector of 4-byte elements can hold). Request ids
  are assumed not to have wrapped around \<open>2^64\<close>. Ring capacities are powers of two; the instances are 65536 samples
  and 4096 requests. Messages are shorter than \<open>2^64\<close> bytes, batches than \<open>2^32\<close> elements (\<open>wire_batch\<close>). The only
  fuel is in \<open>run_ticks\<close>, \<open>run_steps\<close>, \<open>trace_steps\<close> and \<open>run_parent\<close>, which iterate a turn a number of times: the progress
  theorems give a number that is enough, and \<open>spawn_workers\<close> uses three loops of \<open>n\<close> turns with their exits.

  \<^bold>\<open>Not modelled.\<close> Inside the HTTP and JSON libraries (third-party), logging and the printed reports, files, the idle
  sleep of the engine, the sleep of the flusher and the pacing of arrivals (they only delay), memory exhaustion, weak
  memory orderings, pid reuse, infinities and NaNs in the kernels, assignments to a weight array in place after it was
  used (nothing under \<open>src\<close> does that), Metal's tracking of hazards and failures of the framework, a worker that dies while
  a batch is routed in the composition of this theory (\<open>Router_Properties\<close> has the router over transports that do anything). The prototype and the
  Python scripts that validate, time or plot hold no logic of the program beyond that of the kernels.
\<close>

section \<open>From a killed process to a degraded batch\<close>













end
